(* ===== verification/Prelude.thy ===== *)
theory Prelude
  imports Main "HOL-Library.Word"
begin

text \<open>
  Shared ground of the development: the machine integers of src/kernel/types.h as words,
  arithmetic on them through \<open>unat\<close>, and little-endian encoding of integers in byte
  stores. A byte store is any function from locations to bytes; the locale \<open>byte_store\<close>
  gives the laws of reading back what was written at an offset, and is interpreted on
  physical memory (theory Cstring) and on disk blocks (theory Bio).
\<close>

unbundle bit_operations_syntax

section \<open>Machine integers and little-endian byte stores\<close>

type_synonym u8 = "8 word"
type_synonym u16 = "16 word"
type_synonym u32 = "32 word"
type_synonym u64 = "64 word"

lemma unat_bound: "unat (w :: 'w::len word) < 2 ^ LENGTH('w)"
  by (rule unsigned_less)

lemma unat_inc: "i < (n :: 'w::len word) \<Longrightarrow> unat (i + 1) = Suc (unat i)"
  using unat_add_lem [of i 1] unat_bound [of n] by (simp add: word_less_nat_alt)

text \<open>Indices of rings addressed by free-running counters.\<close>

lemma unat_add_mod:
  assumes "n dvd 2 ^ LENGTH('w)"
  shows "unat (x + of_nat k :: 'w::len word) mod n = (unat x + k) mod n"
proof -
  have "unat (x + of_nat k) mod n = (unat x + k) mod 2 ^ LENGTH('w) mod n"
    by (simp add: unat_word_ariths unat_of_nat mod_simps)
  also have "\<dots> = (unat x + k) mod n" by (rule mod_mod_cancel [OF assms])
  finally show ?thesis .
qed

lemma mod_shift_neq:
  fixes a k m n :: nat
  assumes "k < m" "m < n + k"
  shows "(a + k) mod n \<noteq> (a + m) mod n"
proof
  assume "(a + k) mod n = (a + m) mod n"
  then have "n dvd (a + m) - (a + k)" using assms(1) by (subst mod_eq_dvd_iff_nat [symmetric]) auto
  then show False using assms by (auto dest: dvd_imp_le)
qed

lemma unat_of_nat_small: "k < 2 ^ LENGTH('w) \<Longrightarrow> unat (of_nat k :: 'w::len word) = k"
  by (simp add: unat_of_nat)

lemma unat_minus_one_max: "unat (- 1 :: 'w::len word) = 2 ^ LENGTH('w) - 1"
  by (simp add: unsigned_minus_1_eq_mask mask_eq_exp_minus_1)

lemma unat_add_small:
  assumes "unat a + k < 2 ^ LENGTH('w)"
  shows "unat (a + of_nat k :: 'w::len word) = unat a + k"
proof -
  have "unat (of_nat k :: 'w word) = k" using assms by (simp add: unat_of_nat)
  then show ?thesis using assms unat_add_lem [of a "of_nat k"] by simp
qed

lemma offset_eq:
  assumes "k < 2 ^ LENGTH('w)"
  shows "x = a + of_nat k \<longleftrightarrow> unat (x - a :: 'w::len word) = k"
proof
  assume "x = a + of_nat k"
  then show "unat (x - a) = k" using assms by (simp add: unat_of_nat_small)
next
  assume "unat (x - a) = k"
  then have "of_nat k = x - a" by auto
  then show "x = a + of_nat k" by simp
qed

lemma scast_small: "unat i < 2 ^ 31 \<Longrightarrow> scast (i :: u32) = (of_nat (unat i) :: u64)"
proof -
  assume a: "unat i < 2 ^ 31"
  then have "int (unat i) < int (2 ^ 31)" by (simp only: of_nat_less_iff)
  then have "uint i < 2 ^ 31" by simp
  moreover have "- (2 ^ 31) \<le> uint i" by (rule order_trans [of _ 0]) simp_all
  ultimately have "sint i = uint i"
    by (simp add: sint_uint signed_take_bit_int_eq_self_iff)
  then show ?thesis by (simp add: scast_eq)
qed

definition le_bytes :: "nat \<Rightarrow> 'w::len word \<Rightarrow> u8 list" where
  "le_bytes n w = map (\<lambda>i. ucast (drop_bit (8 * i) w)) [0..<n]"

fun le_word :: "u8 list \<Rightarrow> 'w::len word" where
  "le_word [] = 0"
| "le_word (b # bs) = ucast b OR push_bit 8 (le_word bs)"

lemma length_le_bytes [simp]: "length (le_bytes n w) = n"
  by (simp add: le_bytes_def)

lemma bit_le_word:
  "bit (le_word bs :: 'w::len word) k \<longleftrightarrow>
     k < LENGTH('w) \<and> k div 8 < length bs \<and> bit (bs ! (k div 8)) (k mod 8)"
proof (induction bs arbitrary: k)
  case Nil
  then show ?case by simp
next
  case (Cons b bs)
  show ?case
  proof (cases "k < 8")
    case True
    then show ?thesis
      by (auto simp: bit_or_iff bit_push_bit_iff bit_unsigned_iff)
  next
    case False
    then obtain j where j: "k = j + 8" by (metis add.commute le_Suc_ex not_less)
    have hi: "\<not> bit b (j + 8)" by (simp add: bit_word.rep_eq) 
    have dv: "(j + 8) div 8 = Suc (j div 8)" by simp
    show ?thesis
      using Cons.IH [of j] hi dv
      by (auto simp: j bit_or_iff bit_push_bit_iff bit_unsigned_iff)
  qed
qed

lemma le_word_le_bytes:
  "LENGTH('w) \<le> 8 * n \<Longrightarrow> le_word (le_bytes n w) = (w :: 'w::len word)"
proof (rule bit_eqI)
  fix k
  assume n: "LENGTH('w) \<le> 8 * n"
  assume "possible_bit TYPE('w word) k"
  then have k: "k < LENGTH('w)" by simp
  then have "k div 8 < n" using n by auto
  then show "bit (le_word (le_bytes n w) :: 'w word) k \<longleftrightarrow> bit w k"
    using k by (simp add: bit_le_word le_bytes_def bit_unsigned_iff bit_drop_bit_eq)
qed

lemma le_bytes_le_word:
  assumes "8 * length bs \<le> LENGTH('w::len)"
  shows "le_bytes (length bs) (le_word bs :: 'w word) = bs"
proof (rule nth_equalityI)
  show "length (le_bytes (length bs) (le_word bs :: 'w word)) = length bs" by simp
next
  fix i
  assume "i < length (le_bytes (length bs) (le_word bs :: 'w word))"
  then have i: "i < length bs" by simp
  show "le_bytes (length bs) (le_word bs :: 'w word) ! i = bs ! i"
  proof (rule bit_eqI)
    fix k
    assume "possible_bit TYPE(u8) k"
    then have k: "k < 8" by simp
    with i assms have "8 * i + k < LENGTH('w)" by linarith
    moreover have "(8 * i + k) div 8 = i" "(8 * i + k) mod 8 = k" using k by auto
    ultimately show "bit (le_bytes (length bs) (le_word bs :: 'w word) ! i) k = bit (bs ! i) k"
      using i k by (simp add: le_bytes_def bit_unsigned_iff bit_drop_bit_eq bit_le_word add.commute)
  qed
qed

subsection \<open>Byte stores\<close>

definition get_bytes :: "('i \<Rightarrow> nat \<Rightarrow> 'i) \<Rightarrow> ('i \<Rightarrow> u8) \<Rightarrow> 'i \<Rightarrow> nat \<Rightarrow> u8 list" where
  "get_bytes at m a n = map (\<lambda>k. m (at a k)) [0..<n]"

definition put_bytes ::
  "('i \<Rightarrow> 'i \<Rightarrow> nat option) \<Rightarrow> ('i \<Rightarrow> u8) \<Rightarrow> 'i \<Rightarrow> u8 list \<Rightarrow> ('i \<Rightarrow> u8)" where
  "put_bytes off m a bs =
     (\<lambda>x. case off a x of None \<Rightarrow> m x | Some k \<Rightarrow> if k < length bs then bs ! k else m x)"

lemma length_get_bytes [simp]: "length (get_bytes at m a n) = n"
  by (simp add: get_bytes_def)

lemma nth_get_bytes [simp]: "k < n \<Longrightarrow> get_bytes at m a n ! k = m (at a k)"
  by (simp add: get_bytes_def)

locale byte_store =
  fixes at :: "'i \<Rightarrow> nat \<Rightarrow> 'i"
    and off :: "'i \<Rightarrow> 'i \<Rightarrow> nat option"
    and lim :: nat
  assumes off_at: "k < lim \<Longrightarrow> off a (at a k) = Some k"
    and at_off: "off a x = Some k \<Longrightarrow> at a k = x"
begin

lemma put_bytes_at:
  "k < length bs \<Longrightarrow> length bs \<le> lim \<Longrightarrow> put_bytes off m a bs (at a k) = bs ! k"
  by (simp add: put_bytes_def off_at)

lemma put_bytes_outside:
  "(\<And>k. k < length bs \<Longrightarrow> at a k \<noteq> x) \<Longrightarrow> put_bytes off m a bs x = m x"
  by (auto simp: put_bytes_def dest: at_off split: option.splits)

lemma get_put_same:
  "length bs \<le> lim \<Longrightarrow> get_bytes at (put_bytes off m a bs) a (length bs) = bs"
  by (rule nth_equalityI) (simp_all add: put_bytes_at)

lemma get_put_disjoint:
  assumes "\<And>j k. j < length bs \<Longrightarrow> k < n \<Longrightarrow> at a j \<noteq> at b k"
  shows "get_bytes at (put_bytes off m a bs) b n = get_bytes at m b n"
  using assms by (intro nth_equalityI) (simp_all add: put_bytes_outside)

end

end
