(* ===== verification/Kernel_Monad.thy ===== *)
theory Kernel_Monad
  imports Prelude
begin

text \<open>
  Kernel code as state transformers with an outcome. A call returns (\<open>Ret\<close>), stops the
  machine (\<open>Panic\<close>, with the message of \<open>panic()\<close> in src/kernel/printf.c), puts the
  calling thread off the CPU (\<open>Sleep\<close>, the state being the one the scheduler sees), or has no
  result (\<open>Diverge\<close>): it runs out of the iterations the model allows for a loop that has no bound of
  its own, or accesses an array outside its bounds, which C leaves undefined. There is no notation for
  sequencing: \<open>kbind\<close> passes a value on, \<open>kseq\<close> runs a list of statements.
\<close>

section \<open>Outcomes and sequencing\<close>

text \<open>The spin locks of the kernel, and the addresses threads sleep on.\<close>

datatype lockid =
    KmemLock | PidLock | ProcLock nat | TicksLock | BcacheLock | LogLock | IcacheLock
  | FtableLock | PipeLock u64 | ConsLock | UartLock | VdiskLock | PrLock
  | BufSleepLk nat | InodeSleepLk nat

datatype chan =
    ChanProc nat | ChanTicks | ChanLog | ChanPipeRead u64 | ChanPipeWrite u64
  | ChanBufLock nat | ChanInodeLock nat | ChanCons | ChanUart | ChanDiskFree | ChanBufIO nat

datatype ('a, 's) outcome = Ret 'a 's | Panic string | Sleep 's | Diverge

type_synonym ('a, 's) kop = "'s \<Rightarrow> ('a, 's) outcome"

definition kreturn :: "'a \<Rightarrow> ('a, 's) kop" where
  "kreturn a = (\<lambda>s. Ret a s)"

definition kbind :: "('a, 's) kop \<Rightarrow> ('a \<Rightarrow> ('b, 's) kop) \<Rightarrow> ('b, 's) kop" where
  "kbind m f = (\<lambda>s. case m s of
       Ret a t \<Rightarrow> f a t
     | Panic e \<Rightarrow> Panic e
     | Sleep t \<Rightarrow> Sleep t
     | Diverge \<Rightarrow> Diverge)"

definition kthen :: "('a, 's) kop \<Rightarrow> ('b, 's) kop \<Rightarrow> ('b, 's) kop" where
  "kthen m n = kbind m (\<lambda>_. n)"

definition kpanic :: "string \<Rightarrow> ('a, 's) kop" where
  "kpanic e = (\<lambda>s. Panic e)"

definition kget :: "('s \<Rightarrow> 'a) \<Rightarrow> ('a, 's) kop" where
  "kget f = (\<lambda>s. Ret (f s) s)"

definition kmodify :: "('s \<Rightarrow> 's) \<Rightarrow> (unit, 's) kop" where
  "kmodify f = (\<lambda>s. Ret () (f s))"

definition kdiverge :: "('a, 's) kop" where
  "kdiverge = (\<lambda>s. Diverge)"

text \<open>\<open>if(c) panic(e);\<close>\<close>

definition kpanic_if :: "bool \<Rightarrow> string \<Rightarrow> (unit, 's) kop" where
  "kpanic_if c e = (if c then kpanic e else kreturn ())"

definition kwhen :: "bool \<Rightarrow> (unit, 's) kop \<Rightarrow> (unit, 's) kop" where
  "kwhen c m = (if c then m else kreturn ())"

fun kseq :: "(unit, 's) kop list \<Rightarrow> (unit, 's) kop" where
  "kseq [] = kreturn ()"
| "kseq (m # ms) = kthen m (kseq ms)"

text \<open>A \<open>for\<close> loop over a list of indices, with no \<open>break\<close>.\<close>

fun kfor :: "'a list \<Rightarrow> ('a \<Rightarrow> (unit, 's) kop) \<Rightarrow> (unit, 's) kop" where
  "kfor [] f = kreturn ()"
| "kfor (i # is) f = kthen (f i) (kfor is f)"

named_theorems kexec "evaluation of an operation at a state"

lemma kreturn_exec [kexec]: "kreturn a s = Ret a s"
  by (simp add: kreturn_def)

lemma kpanic_exec [kexec]: "kpanic e s = Panic e"
  by (simp add: kpanic_def)

lemma kget_exec [kexec]: "kget f s = Ret (f s) s"
  by (simp add: kget_def)

lemma kmodify_exec [kexec]: "kmodify f s = Ret () (f s)"
  by (simp add: kmodify_def)

lemma kpanic_if_exec [kexec]: "kpanic_if c e s = (if c then Panic e else Ret () s)"
  by (simp add: kpanic_if_def kexec)

lemma kwhen_exec [kexec]: "kwhen c m s = (if c then m s else Ret () s)"
  by (simp add: kwhen_def kexec)

lemma kdiverge_exec [kexec]: "kdiverge s = Diverge"
  by (simp add: kdiverge_def)

lemma kbind_Ret: "m s = Ret a t \<Longrightarrow> kbind m f s = f a t"
  and kbind_Panic: "m s = Panic e \<Longrightarrow> kbind m f s = Panic e"
  and kbind_Sleep: "m s = Sleep t \<Longrightarrow> kbind m f s = Sleep t"
  and kbind_Diverge: "m s = Diverge \<Longrightarrow> kbind m f s = Diverge"
  by (simp_all add: kbind_def)

lemma kbind_exec [kexec]:
  "kbind m f s = (case m s of
       Ret a t \<Rightarrow> f a t | Panic e \<Rightarrow> Panic e | Sleep t \<Rightarrow> Sleep t | Diverge \<Rightarrow> Diverge)"
  by (simp add: kbind_def)

lemma kthen_exec [kexec]:
  "kthen m n s = (case m s of
       Ret a t \<Rightarrow> n t | Panic e \<Rightarrow> Panic e | Sleep t \<Rightarrow> Sleep t | Diverge \<Rightarrow> Diverge)"
  by (simp add: kthen_def kbind_def)

lemma kseq_exec [kexec]:
  "kseq [] s = Ret () s"
  "kseq (m # ms) s = (case m s of
       Ret a t \<Rightarrow> kseq ms t | Panic e \<Rightarrow> Panic e | Sleep t \<Rightarrow> Sleep t | Diverge \<Rightarrow> Diverge)"
  by (simp_all add: kexec)

lemma kbind_cong [fundef_cong]:
  "m s = m' s' \<Longrightarrow> (\<And>a t. m' s' = Ret a t \<Longrightarrow> f a t = f' a t) \<Longrightarrow> kbind m f s = kbind m' f' s'"
  by (simp add: kbind_def split: outcome.splits)

lemma kthen_cong [fundef_cong]:
  "m s = m' s' \<Longrightarrow> (\<And>a t. m' s' = Ret a t \<Longrightarrow> n t = n' t) \<Longrightarrow> kthen m n s = kthen m' n' s'"
  by (simp add: kthen_def kbind_def split: outcome.splits)

lemma kif_cong [fundef_cong]:
  "c = c' \<Longrightarrow> (c' \<Longrightarrow> m s = m' s') \<Longrightarrow> (\<not> c' \<Longrightarrow> n s = n' s') \<Longrightarrow>
   (if c then m else n) s = (if c' then m' else n') s'"
  by simp

lemma kbind_assoc: "kbind (kbind m f) g = kbind m (\<lambda>a. kbind (f a) g)"
  by (rule ext) (simp add: kbind_def split: outcome.splits)

lemma kbind_eq_Ret:
  "kbind m f s = Ret b u \<longleftrightarrow> (\<exists>a t. m s = Ret a t \<and> f a t = Ret b u)"
  by (simp add: kbind_def split: outcome.splits)

lemma kthen_eq_Ret:
  "kthen m n s = Ret b u \<longleftrightarrow> (\<exists>a t. m s = Ret a t \<and> n t = Ret b u)"
  by (simp add: kthen_def kbind_eq_Ret)

section \<open>Total weakest preconditions\<close>

text \<open>\<open>wp m Q s\<close>: run from \<open>s\<close>, \<open>m\<close> returns, and the result and final state satisfy \<open>Q\<close>.\<close>

definition wp :: "('a, 's) kop \<Rightarrow> ('a \<Rightarrow> 's \<Rightarrow> bool) \<Rightarrow> 's \<Rightarrow> bool" where
  "wp m Q s = (case m s of Ret a t \<Rightarrow> Q a t | _ \<Rightarrow> False)"

named_theorems wp_simps "weakest preconditions of the primitives"

lemma wp_iff: "wp m Q s \<longleftrightarrow> (\<exists>a t. m s = Ret a t \<and> Q a t)"
  by (simp add: wp_def split: outcome.splits)

lemma wpE: "wp m Q s \<Longrightarrow> (\<And>a t. m s = Ret a t \<Longrightarrow> Q a t \<Longrightarrow> R) \<Longrightarrow> R"
  by (auto simp: wp_iff)

lemma wpI: "m s = Ret a t \<Longrightarrow> Q a t \<Longrightarrow> wp m Q s"
  by (simp add: wp_def)

lemma wp_mono: "wp m Q s \<Longrightarrow> (\<And>a t. m s = Ret a t \<Longrightarrow> Q a t \<Longrightarrow> Q' a t) \<Longrightarrow> wp m Q' s"
  by (auto simp: wp_iff)

lemma wp_kreturn [wp_simps]: "wp (kreturn a) Q s \<longleftrightarrow> Q a s"
  by (simp add: wp_def kexec)

lemma wp_kpanic [wp_simps]: "wp (kpanic e) Q s \<longleftrightarrow> False"
  by (simp add: wp_def kexec)

lemma wp_kget [wp_simps]: "wp (kget f) Q s \<longleftrightarrow> Q (f s) s"
  by (simp add: wp_def kexec)

lemma wp_kmodify [wp_simps]: "wp (kmodify f) Q s \<longleftrightarrow> Q () (f s)"
  by (simp add: wp_def kexec)

lemma wp_kpanic_if [wp_simps]: "wp (kpanic_if c e) Q s \<longleftrightarrow> \<not> c \<and> Q () s"
  by (simp add: wp_def kexec)

lemma wp_kwhen [wp_simps]: "wp (kwhen c m) Q s \<longleftrightarrow> (if c then wp m Q s else Q () s)"
  by (simp add: wp_def kexec)

lemma wp_kbind [wp_simps]: "wp (kbind m f) Q s \<longleftrightarrow> wp m (\<lambda>a. wp (f a) Q) s"
  by (simp add: wp_def kbind_def split: outcome.splits)

lemma wp_kthen [wp_simps]: "wp (kthen m n) Q s \<longleftrightarrow> wp m (\<lambda>_. wp n Q) s"
  by (simp add: kthen_def wp_kbind)

lemma wp_kseq [wp_simps]:
  "wp (kseq []) Q s \<longleftrightarrow> Q () s"
  "wp (kseq (m # ms)) Q s \<longleftrightarrow> wp m (\<lambda>_. wp (kseq ms) Q) s"
  by (simp_all add: wp_simps)

declare kseq.simps [simp del]

lemma wp_kfor:
  assumes "\<And>i t. i \<in> set is \<Longrightarrow> I t \<Longrightarrow> wp (f i) (\<lambda>_. I) t" "I s"
  shows "wp (kfor is f) (\<lambda>_. I) s"
  using assms
proof (induction "is" arbitrary: s)
  case (Cons i "is")
  have "wp (f i) (\<lambda>_. I) s" using Cons.prems by simp
  then show ?case
    unfolding kfor.simps wp_kthen by (rule wp_mono) (use Cons in auto)
qed (simp add: wp_simps)

lemma wp_if [wp_simps]: "wp (if c then m else n) Q s \<longleftrightarrow> (if c then wp m Q s else wp n Q s)"
  by simp

section \<open>Spin locks as a thread sees them\<close>

text \<open>
  Between two scheduling points a kernel thread runs with the set of spin locks it holds.
  Theory Spinlock shows that src/kernel/spinlock.c provides exactly this view to the CPU
  the thread runs on: taking a lock already held stops the machine, as does releasing one
  that is not held.
\<close>

record kthread =
  held :: "lockid set"

definition klock :: "lockid \<Rightarrow> (unit, 'z kthread_scheme) kop" where
  "klock l = (\<lambda>s. if l \<in> held s then Panic ''acquire''
                  else Ret () (s\<lparr>held := insert l (held s)\<rparr>))"

definition kunlock :: "lockid \<Rightarrow> (unit, 'z kthread_scheme) kop" where
  "kunlock l = (\<lambda>s. if l \<notin> held s then Panic ''release''
                    else Ret () (s\<lparr>held := held s - {l}\<rparr>))"

lemma klock_exec [kexec]:
  "klock l s = (if l \<in> held s then Panic ''acquire'' else Ret () (s\<lparr>held := insert l (held s)\<rparr>))"
  by (simp add: klock_def)

lemma kunlock_exec [kexec]:
  "kunlock l s = (if l \<notin> held s then Panic ''release'' else Ret () (s\<lparr>held := held s - {l}\<rparr>))"
  by (simp add: kunlock_def)

lemma wp_klock [wp_simps]:
  "wp (klock l) Q s \<longleftrightarrow> l \<notin> held s \<and> Q () (s\<lparr>held := insert l (held s)\<rparr>)"
  by (simp add: wp_def kexec)

lemma wp_kunlock [wp_simps]:
  "wp (kunlock l) Q s \<longleftrightarrow> l \<in> held s \<and> Q () (s\<lparr>held := held s - {l}\<rparr>)"
  by (simp add: wp_def kexec)

end
