(* ===== verification/Spinlock.thy ===== *)
theory Spinlock
  imports Kernel_Monad
begin

text \<open>
  src/kernel/spinlock.c. \<open>acquire\<close> and \<open>release\<close> are modelled twice: as functions of one
  CPU, and, because their correctness is about all CPUs, as the atomic accesses of a step
  relation \<open>cpu_step\<close> in which any CPU may move next. The invariant of the reachable states
  gives mutual exclusion and the discipline of the interrupt enable. The locale
  \<open>spin_locks\<close> is what the rest of the kernel relies on; it is interpreted on the code of
  one CPU (\<open>spin\<close>) and on the thread view of theory Kernel_Monad (\<open>thread_view\<close>), which is
  how the other theories use locks.
\<close>

section \<open>State\<close>

text \<open>\<open>struct cpu\<close> (the fields spin locks use) and \<open>struct spinlock\<close>.\<close>

record cpu =
  noff :: int
  intena :: bool

record spinlock =
  locked :: u32
  name :: string
  lcpu :: "nat option"

record smp =
  cpus :: "nat \<Rightarrow> cpu"
  sie :: "nat \<Rightarrow> bool"
  locks :: "lockid \<Rightarrow> spinlock"

section \<open>Operations of one CPU\<close>

definition intr_get :: "nat \<Rightarrow> 'z smp_scheme \<Rightarrow> bool" where
  "intr_get c s = sie s c"

definition intr_on :: "nat \<Rightarrow> (unit, 'z smp_scheme) kop" where
  "intr_on c = kmodify (\<lambda>s. s\<lparr>sie := (sie s)(c := True)\<rparr>)"

definition intr_off :: "nat \<Rightarrow> (unit, 'z smp_scheme) kop" where
  "intr_off c = kmodify (\<lambda>s. s\<lparr>sie := (sie s)(c := False)\<rparr>)"

definition set_cpu :: "nat \<Rightarrow> (cpu \<Rightarrow> cpu) \<Rightarrow> (unit, 'z smp_scheme) kop" where
  "set_cpu c f = kmodify (\<lambda>s. s\<lparr>cpus := (cpus s)(c := f (cpus s c))\<rparr>)"

definition set_lock :: "lockid \<Rightarrow> (spinlock \<Rightarrow> spinlock) \<Rightarrow> (unit, 'z smp_scheme) kop" where
  "set_lock l f = kmodify (\<lambda>s. s\<lparr>locks := (locks s)(l := f (locks s l))\<rparr>)"

definition initlock :: "lockid \<Rightarrow> string \<Rightarrow> (unit, 'z smp_scheme) kop" where
  "initlock l n = kseq [
     set_lock l (\<lambda>k. k\<lparr>name := n\<rparr>),
     set_lock l (\<lambda>k. k\<lparr>locked := 0\<rparr>),
     set_lock l (\<lambda>k. k\<lparr>lcpu := None\<rparr>)]"

definition holding :: "nat \<Rightarrow> lockid \<Rightarrow> 'z smp_scheme \<Rightarrow> bool" where
  "holding c l s = (locked (locks s l) \<noteq> 0 \<and> lcpu (locks s l) = Some c)"

definition push_off :: "nat \<Rightarrow> (unit, 'z smp_scheme) kop" where
  "push_off c =
     kbind (kget (intr_get c)) (\<lambda>old. kseq [
       intr_off c,
       kbind (kget (\<lambda>s. noff (cpus s c)))
         (\<lambda>n. kwhen (n = 0) (set_cpu c (\<lambda>p. p\<lparr>intena := old\<rparr>))),
       set_cpu c (\<lambda>p. p\<lparr>noff := noff p + 1\<rparr>)])"

definition pop_off :: "nat \<Rightarrow> (unit, 'z smp_scheme) kop" where
  "pop_off c = kseq [
     kbind (kget (intr_get c)) (\<lambda>on. kpanic_if on ''pop_off - interruptible''),
     kbind (kget (\<lambda>s. noff (cpus s c))) (\<lambda>n. kpanic_if (n < 1) ''pop_off''),
     set_cpu c (\<lambda>p. p\<lparr>noff := noff p - 1\<rparr>),
     kbind (kget (\<lambda>s. cpus s c)) (\<lambda>p. kwhen (noff p = 0 \<and> intena p) (intr_on c))]"

text \<open>\<open>__sync_lock_test_and_set\<close>: one atomic swap, giving the old value.\<close>

definition lock_test_and_set :: "lockid \<Rightarrow> u32 \<Rightarrow> (u32, 'z smp_scheme) kop" where
  "lock_test_and_set l v =
     kbind (kget (\<lambda>s. locked (locks s l)))
       (\<lambda>old. kthen (set_lock l (\<lambda>k. k\<lparr>locked := v\<rparr>)) (kreturn old))"

text \<open>
  A CPU on its own: if the swap finds the lock taken, nothing this CPU does frees it, so
  the loop spins for ever. Interleaving with other CPUs is the step relation below.
\<close>

definition acquire :: "nat \<Rightarrow> lockid \<Rightarrow> (unit, 'z smp_scheme) kop" where
  "acquire c l = kseq [
     push_off c,
     kbind (kget (holding c l)) (\<lambda>h. kpanic_if h ''acquire''),
     kbind (lock_test_and_set l 1) (\<lambda>old. if old \<noteq> 0 then kdiverge else kreturn ()),
     set_lock l (\<lambda>k. k\<lparr>lcpu := Some c\<rparr>)]"

definition release :: "nat \<Rightarrow> lockid \<Rightarrow> (unit, 'z smp_scheme) kop" where
  "release c l = kseq [
     kbind (kget (holding c l)) (\<lambda>h. kpanic_if (\<not> h) ''release''),
     set_lock l (\<lambda>k. k\<lparr>lcpu := None\<rparr>),
     set_lock l (\<lambda>k. k\<lparr>locked := 0\<rparr>),
     pop_off c]"

lemmas smp_defs = intr_get_def intr_on_def intr_off_def set_cpu_def set_lock_def
  holding_def push_off_def pop_off_def lock_test_and_set_def

section \<open>Interleaved execution of all CPUs\<close>

text \<open>What a CPU is doing inside \<open>acquire\<close> or \<open>release\<close>, between two atomic accesses.\<close>

datatype act =
    Running
  | Spinning lockid
  | Swapped lockid
  | Clearing lockid
  | Popping

record sys = smp +
  act :: "nat \<Rightarrow> act"

definition init_sys :: sys where
  "init_sys = \<lparr>cpus = (\<lambda>_. \<lparr>noff = 0, intena = False\<rparr>), sie = (\<lambda>_. False),
     locks = (\<lambda>_. \<lparr>locked = 0, name = [], lcpu = None\<rparr>), act = (\<lambda>_. Running)\<rparr>"

definition goto :: "nat \<Rightarrow> act \<Rightarrow> sys \<Rightarrow> sys" where
  "goto c a s = s\<lparr>act := (act s)(c := a)\<rparr>"

inductive cpu_step :: "sys \<Rightarrow> sys \<Rightarrow> bool" where
  enter: "act s c = Running \<Longrightarrow> push_off c s = Ret () t \<Longrightarrow> \<not> holding c l t \<Longrightarrow>
     cpu_step s (goto c (Spinning l) t)"
| spin: "act s c = Spinning l \<Longrightarrow> lock_test_and_set l 1 s = Ret old t \<Longrightarrow> old \<noteq> 0 \<Longrightarrow>
     cpu_step s t"
| swap: "act s c = Spinning l \<Longrightarrow> lock_test_and_set l 1 s = Ret 0 t \<Longrightarrow>
     cpu_step s (goto c (Swapped l) t)"
| owner: "act s c = Swapped l \<Longrightarrow> set_lock l (\<lambda>k. k\<lparr>lcpu := Some c\<rparr>) s = Ret () t \<Longrightarrow>
     cpu_step s (goto c Running t)"
| unown: "act s c = Running \<Longrightarrow> holding c l s \<Longrightarrow>
     set_lock l (\<lambda>k. k\<lparr>lcpu := None\<rparr>) s = Ret () t \<Longrightarrow> cpu_step s (goto c (Clearing l) t)"
| clear: "act s c = Clearing l \<Longrightarrow> set_lock l (\<lambda>k. k\<lparr>locked := 0\<rparr>) s = Ret () t \<Longrightarrow>
     cpu_step s (goto c Popping t)"
| pop: "act s c = Popping \<Longrightarrow> pop_off c s = Ret () t \<Longrightarrow> cpu_step s (goto c Running t)"
| irq_on: "act s c = Running \<Longrightarrow> noff (cpus s c) = 0 \<Longrightarrow> intr_on c s = Ret () t \<Longrightarrow> cpu_step s t"
| irq_off: "act s c = Running \<Longrightarrow> noff (cpus s c) = 0 \<Longrightarrow> intr_off c s = Ret () t \<Longrightarrow> cpu_step s t"

inductive reachable :: "sys \<Rightarrow> bool" where
  start: "reachable init_sys"
| step: "reachable s \<Longrightarrow> cpu_step s t \<Longrightarrow> reachable t"

text \<open>The locks \<open>c\<close> is in a critical section of, and those it has swapped to 1.\<close>

definition inside :: "'z smp_scheme \<Rightarrow> nat \<Rightarrow> lockid set" where
  "inside s c = {l. lcpu (locks s l) = Some c}"

definition owns :: "sys \<Rightarrow> nat \<Rightarrow> lockid \<Rightarrow> bool" where
  "owns s c l \<longleftrightarrow> lcpu (locks s l) = Some c \<or> act s c = Swapped l \<or> act s c = Clearing l"

definition lock_inv :: "sys \<Rightarrow> bool" where
  "lock_inv s \<longleftrightarrow>
     (\<forall>l. locked (locks s l) \<noteq> 0 \<longleftrightarrow> (\<exists>c. owns s c l)) \<and>
     (\<forall>c d l. owns s c l \<longrightarrow> owns s d l \<longrightarrow> c = d) \<and>
     (\<forall>c l. act s c = Swapped l \<or> act s c = Clearing l \<longrightarrow> lcpu (locks s l) = None)"

definition cpu_inv :: "sys \<Rightarrow> nat \<Rightarrow> bool" where
  "cpu_inv s c \<longleftrightarrow>
     finite (inside s c) \<and>
     noff (cpus s c) = int (card (inside s c)) + (if act s c = Running then 0 else 1) \<and>
     (noff (cpus s c) \<noteq> 0 \<longrightarrow> \<not> sie s c)"

lemma lock_inv_init: "lock_inv init_sys"
  by (simp add: lock_inv_def init_sys_def owns_def)

lemma cpu_inv_init: "cpu_inv init_sys c"
  by (simp add: cpu_inv_def init_sys_def inside_def)

lemma push_off_exec:
  "push_off c s = Ret () (s\<lparr>sie := (sie s)(c := False),
     cpus := (cpus s)(c := (cpus s c)\<lparr>noff := noff (cpus s c) + 1,
       intena := if noff (cpus s c) = 0 then sie s c else intena (cpus s c)\<rparr>)\<rparr>)"
  by (cases "cpus s c") (simp add: smp_defs kexec)

lemma pop_off_Ret:
  "pop_off c s = Ret () t \<longleftrightarrow> \<not> sie s c \<and> noff (cpus s c) \<ge> 1 \<and>
     t = s\<lparr>cpus := (cpus s)(c := (cpus s c)\<lparr>noff := noff (cpus s c) - 1\<rparr>),
           sie := (sie s)(c := noff (cpus s c) = 1 \<and> intena (cpus s c))\<rparr>"
  by (cases s) (auto simp: smp_defs kexec fun_upd_idem split: if_splits)

lemma set_lock_Ret:
  "set_lock l f s = Ret () t \<longleftrightarrow> t = s\<lparr>locks := (locks s)(l := f (locks s l))\<rparr>"
  by (auto simp: set_lock_def kexec)

lemma lock_test_and_set_Ret:
  "lock_test_and_set l v s = Ret old t \<longleftrightarrow>
     old = locked (locks s l) \<and> t = s\<lparr>locks := (locks s)(l := (locks s l)\<lparr>locked := v\<rparr>)\<rparr>"
  by (auto simp: smp_defs kexec)

lemmas step_results = set_lock_Ret lock_test_and_set_Ret pop_off_Ret

text \<open>
  What a step keeps, in terms of the four parts of the invariant. \<open>inside\<close> changes only
  when an owner is recorded or cleared.
\<close>

lemma inside_simps [simp]:
  "inside (s\<lparr>cpus := x\<rparr>) c = inside s c"
  "inside (s\<lparr>sie := y\<rparr>) c = inside s c"
  "inside (goto d a z) c = inside z c"
  by (simp_all add: inside_def goto_def)

lemma goto_simps [simp]:
  "act (goto c a s) = (act s)(c := a)"
  "cpus (goto c a s) = cpus s"
  "sie (goto c a s) = sie s"
  "locks (goto c a s) = locks s"
  by (simp_all add: goto_def)

lemma lock_inv_sie [simp]: "lock_inv (s\<lparr>sie := y\<rparr>) = lock_inv s"
  by (simp add: lock_inv_def owns_def)

lemma inside_owner:
  "lcpu (locks s l) = None \<Longrightarrow>
   inside (s\<lparr>locks := (locks s)(l := (locks s l)\<lparr>lcpu := Some c\<rparr>)\<rparr>) d =
     (if d = c then insert l (inside s d) else inside s d)"
  by (auto simp: inside_def)

lemma inside_unown:
  "lcpu (locks s l) = Some c \<Longrightarrow>
   inside (s\<lparr>locks := (locks s)(l := (locks s l)\<lparr>lcpu := None\<rparr>)\<rparr>) d =
     (if d = c then inside s d - {l} else inside s d)"
  by (auto simp: inside_def)

lemma inside_locked [simp]:
  "inside (s\<lparr>locks := (locks s)(l := (locks s l)\<lparr>locked := v\<rparr>)\<rparr>) d = inside s d"
  by (auto simp: inside_def)

lemma owns_goto:
  "act s c \<in> {Running, Popping} \<union> range Spinning \<Longrightarrow> a \<in> {Running, Popping} \<union> range Spinning \<Longrightarrow>
   locks t = locks s \<Longrightarrow> act t = act s \<Longrightarrow> owns (goto c a t) d l = owns s d l"
  by (auto simp: owns_def)

lemma lock_inv_step:
  assumes "cpu_step s t" and inv: "lock_inv s"
  shows "lock_inv t"
  using assms
proof (induction rule: cpu_step.induct)
  case (enter s c t l)
  have "owns (goto c (Spinning l) t) d m = owns s d m" for d m
    using enter by (intro owns_goto) (auto simp: push_off_exec)
  moreover have "locks (goto c (Spinning l) t) = locks s" "act t = act s"
    using enter by (auto simp: push_off_exec)
  ultimately show ?case
    using enter.prems by (auto simp: lock_inv_def)
next
  case (spin s c l old t)
  then have t: "owns t d m = owns s d m" "lcpu (locks t m) = lcpu (locks s m)" "act t = act s" for d m
    by (auto simp: step_results owns_def)
  have "locked (locks t m) \<noteq> 0 \<longleftrightarrow> locked (locks s m) \<noteq> 0" for m
    using spin by (auto simp: step_results)
  with t spin.prems show ?case by (simp add: lock_inv_def)
next
  case (swap s c l t)
  then have free: "\<not> owns s d l" for d
    by (auto simp: step_results lock_inv_def)
  have own: "owns (goto c (Swapped l) t) d m \<longleftrightarrow> owns s d m \<or> d = c \<and> m = l" for d m
    using swap.hyps free by (auto simp: step_results owns_def)
  have lk: "locked (locks (goto c (Swapped l) t) m) = (if m = l then 1 else locked (locks s m))"
    "lcpu (locks (goto c (Swapped l) t) m) = lcpu (locks s m)" for m
    using swap by (auto simp: step_results)
  have "lcpu (locks s l) = None"
    using free by (cases "lcpu (locks s l)") (auto simp: owns_def)
  moreover have "act t = act s" using swap by (auto simp: step_results)
  ultimately show ?case
    using swap.prems free unfolding lock_inv_def own lk by auto
next
  case (owner s c l t)
  then have none: "lcpu (locks s l) = None" and c: "owns s d l \<Longrightarrow> d = c" for d
    by (auto simp: lock_inv_def owns_def)
  have own: "owns (goto c Running t) d m = owns s d m" for d m
    using owner.hyps none by (auto simp: step_results owns_def)
  have lk: "locked (locks (goto c Running t) m) = locked (locks s m)" for m
    using owner by (auto simp: step_results)
  have "lcpu (locks t m) = None" if "act s d = Swapped m \<or> act s d = Clearing m" "d \<noteq> c" for d m
  proof -
    have "owns s d m" using that by (auto simp: owns_def)
    then have "m \<noteq> l" using c that by blast
    then show ?thesis using that owner by (auto simp: step_results lock_inv_def)
  qed
  moreover have "act t = act s" using owner by (auto simp: step_results)
  ultimately show ?case
    using owner.prems unfolding lock_inv_def own lk by auto
next
  case (unown s c l t)
  then have some: "lcpu (locks s l) = Some c" and c: "owns s d l \<Longrightarrow> d = c" for d
    by (auto simp: lock_inv_def owns_def holding_def)
  have own: "owns (goto c (Clearing l) t) d m = owns s d m" for d m
    using unown.hyps some by (auto simp: step_results owns_def)
  have lk: "locked (locks (goto c (Clearing l) t) m) = locked (locks s m)" for m
    using unown by (auto simp: step_results)
  have "lcpu (locks t m) = None" if "act s d = Swapped m \<or> act s d = Clearing m" for d m
    using that unown by (auto simp: step_results lock_inv_def)
  moreover have "act t = act s" "lcpu (locks t l) = None" using unown by (auto simp: step_results)
  ultimately show ?case
    using unown.prems unfolding lock_inv_def own lk by auto
next
  case (clear s c l t)
  then have none: "lcpu (locks s l) = None" and c: "owns s d l \<Longrightarrow> d = c" for d
    by (auto simp: lock_inv_def owns_def)
  have own: "owns (goto c Popping t) d m \<longleftrightarrow> owns s d m \<and> m \<noteq> l" for d m
  proof (cases "m = l")
    case True
    with c [of d] clear.hyps none show ?thesis by (auto simp: step_results owns_def)
  next
    case False
    with clear.hyps show ?thesis by (auto simp: step_results owns_def)
  qed
  have lk: "locked (locks (goto c Popping t) m) = (if m = l then 0 else locked (locks s m))"
    "lcpu (locks (goto c Popping t) m) = lcpu (locks s m)" for m
    using clear by (auto simp: step_results)
  have "act t = act s" using clear by (auto simp: step_results)
  then show ?case
    using clear.prems unfolding lock_inv_def own lk by auto
next
  case (pop s c t)
  have "owns (goto c Running t) d m = owns s d m" for d m
    using pop by (intro owns_goto) (auto simp: step_results)
  moreover have "locks (goto c Running t) = locks s" "act t = act s"
    using pop by (auto simp: step_results)
  ultimately show ?case
    using pop.prems by (auto simp: lock_inv_def)
next
  case (irq_on s c t)
  then show ?case by (auto simp: intr_on_def kexec)
next
  case (irq_off s c t)
  then show ?case by (auto simp: intr_off_def kexec)
qed

lemma cpu_inv_step:
  assumes "cpu_step s t" and "lock_inv s" and "cpu_inv s d"
  shows "cpu_inv t d"
  using assms
proof (induction rule: cpu_step.induct)
  case (enter s c t l)
  then show ?case by (auto simp: cpu_inv_def push_off_exec)
next
  case (owner s c l t)
  then have "lcpu (locks s l) = None" by (auto simp: lock_inv_def)
  with owner show ?case
    by (auto simp: cpu_inv_def step_results inside_owner card_insert_if) (auto simp: inside_def)
next
  case (unown s c l t)
  then have some: "lcpu (locks s l) = Some c" and l: "l \<in> inside s c"
    by (auto simp: holding_def inside_def)
  then have "finite (inside s c) \<Longrightarrow> int (card (inside s c)) = int (card (inside s c - {l})) + 1"
    by (metis card_Suc_Diff1 of_nat_Suc add.commute)
  with unown some show ?case
    by (auto simp: cpu_inv_def step_results inside_unown)
next
  case (pop s c t)
  then show ?case by (auto simp: cpu_inv_def step_results)
next
  case (irq_on s c t)
  then show ?case by (auto simp: cpu_inv_def intr_on_def kexec split: if_splits)
next
  case (irq_off s c t)
  then show ?case by (auto simp: cpu_inv_def intr_off_def kexec split: if_splits)
qed (auto simp: cpu_inv_def step_results)

lemma reachable_inv: "reachable s \<Longrightarrow> lock_inv s \<and> (\<forall>c. cpu_inv s c)"
  by (induction rule: reachable.induct)
    (auto simp: lock_inv_init cpu_inv_init intro: lock_inv_step cpu_inv_step)

section \<open>The lock interface\<close>

text \<open>
  What code between \<open>acquire\<close> and \<open>release\<close> relies on: \<open>holds\<close> is the set of locks the
  CPU is inside of, \<open>avail\<close> that no other CPU has the lock, \<open>ok\<close> the book-keeping invariant.
\<close>

locale spin_locks =
  fixes acq rel :: "lockid \<Rightarrow> (unit, 's) kop"
    and holds :: "'s \<Rightarrow> lockid set"
    and avail :: "'s \<Rightarrow> lockid \<Rightarrow> bool"
    and ok :: "'s \<Rightarrow> bool"
  assumes acq_free: "ok s \<Longrightarrow> avail s l \<Longrightarrow> l \<notin> holds s \<Longrightarrow>
      wp (acq l) (\<lambda>_ t. ok t \<and> holds t = insert l (holds s)) s"
    and acq_held: "ok s \<Longrightarrow> l \<in> holds s \<Longrightarrow> acq l s = Panic ''acquire''"
    and rel_held: "ok s \<Longrightarrow> l \<in> holds s \<Longrightarrow>
      wp (rel l) (\<lambda>_ t. ok t \<and> holds t = holds s - {l}) s"
    and rel_free: "ok s \<Longrightarrow> l \<notin> holds s \<Longrightarrow> rel l s = Panic ''release''"
begin

lemma critical_section:
  assumes "ok s" "avail s l" "l \<notin> holds s"
    and body: "\<And>t. ok t \<Longrightarrow> holds t = insert l (holds s) \<Longrightarrow>
      wp body (\<lambda>_ u. ok u \<and> holds u = holds t) t"
  shows "wp (kseq [acq l, body, rel l]) (\<lambda>_ u. ok u \<and> holds u = holds s) s"
proof -
  have "wp (rel l) (\<lambda>_ v. ok v \<and> holds v = holds s) u"
    if "ok u" "holds u = insert l (holds s)" for u
    using rel_held [of u l] that assms(3) by (auto elim!: wp_mono)
  then have "wp body (\<lambda>_. wp (rel l) (\<lambda>_ v. ok v \<and> holds v = holds s)) t"
    if "ok t" "holds t = insert l (holds s)" for t
    using body [OF that] that by (auto elim!: wp_mono)
  then show ?thesis
    using acq_free [OF assms(1-3)] unfolding wp_kseq by (auto elim!: wp_mono)
qed

lemma no_nested_acquire:
  assumes "ok s" "avail s l"
  shows "kthen (acq l) (acq l) s = Panic ''acquire''"
proof (cases "l \<in> holds s")
  case True
  then show ?thesis using acq_held assms by (simp add: kexec)
next
  case False
  from acq_free [OF assms False] show ?thesis
    by (rule wpE) (simp add: kexec acq_held)
qed

end

interpretation thread_view: spin_locks klock kunlock held "\<lambda>s l. True" "\<lambda>s. True"
  by unfold_locales (simp_all add: wp_simps kexec)

definition cpu_ok :: "nat \<Rightarrow> 'z smp_scheme \<Rightarrow> bool" where
  "cpu_ok c s \<longleftrightarrow>
     (\<forall>l \<in> inside s c. locked (locks s l) \<noteq> 0) \<and> finite (inside s c) \<and>
     noff (cpus s c) = int (card (inside s c)) \<and> (noff (cpus s c) \<noteq> 0 \<longrightarrow> \<not> sie s c)"

definition lock_free :: "'z smp_scheme \<Rightarrow> lockid \<Rightarrow> bool" where
  "lock_free s l \<longleftrightarrow> locked (locks s l) = 0"

lemma holding_inside: "cpu_ok c s \<Longrightarrow> holding c l s \<longleftrightarrow> l \<in> inside s c"
  by (auto simp: cpu_ok_def holding_def inside_def)

lemma acquire_free:
  assumes "cpu_ok c s" "lock_free s l"
  shows "wp (acquire c l) (\<lambda>_ t. cpu_ok c t \<and> inside t c = insert l (inside s c)) s"
proof -
  have notin: "l \<notin> inside s c" and nh: "\<not> holding c l s"
    using assms by (auto simp: lock_free_def cpu_ok_def holding_def)
  let ?p = "(cpus s c)\<lparr>noff := noff (cpus s c) + 1,
      intena := if noff (cpus s c) = 0 then sie s c else intena (cpus s c)\<rparr>"
  define t where "t = s\<lparr>sie := (sie s)(c := False), cpus := (cpus s)(c := ?p),
      locks := (locks s)(l := (locks s l)\<lparr>locked := 1, lcpu := Some c\<rparr>)\<rparr>"
  have t: "acquire c l s = Ret () t"
    using nh assms
    by (simp add: acquire_def kexec push_off_exec holding_def lock_test_and_set_def
        set_lock_def lock_free_def t_def)
  have inside: "inside t c = insert l (inside s c)"
    by (auto simp: t_def inside_def)
  have upd: "noff (cpus t c) = noff (cpus s c) + 1" "\<not> sie t c"
      "locked (locks t m) = (if m = l then 1 else locked (locks s m))" for m
    by (simp_all add: t_def)
  have "cpu_ok c t"
    using assms inside upd notin by (auto simp: cpu_ok_def)
  with t inside show ?thesis by (auto intro: wpI)
qed

lemma release_inside:
  assumes "cpu_ok c s" "l \<in> inside s c"
  shows "wp (release c l) (\<lambda>_ t. cpu_ok c t \<and> inside t c = inside s c - {l}) s"
proof -
  let ?u = "s\<lparr>locks := (locks s)(l := (locks s l)\<lparr>lcpu := None, locked := 0\<rparr>)\<rparr>"
  have fin: "finite (inside s c)" using assms by (simp add: cpu_ok_def)
  have card: "card (inside s c) = Suc (card (inside s c - {l}))"
    using fin assms(2) by (metis card_Suc_Diff1)
  then have pre: "\<not> sie s c" "noff (cpus s c) \<ge> 1"
    using assms(1) by (auto simp: cpu_ok_def)
  obtain t where t: "pop_off c ?u = Ret () t" and tl: "locks t = locks ?u"
    and upd: "noff (cpus t c) = noff (cpus s c) - 1"
      "sie t c \<longrightarrow> noff (cpus s c) = 1"
    using pre by (fastforce simp: pop_off_Ret)
  have inside: "inside t c = inside s c - {l}"
    using tl by (auto simp: inside_def)
  have "release c l s = pop_off c ?u"
    using assms by (simp add: release_def kexec holding_inside set_lock_def split: outcome.splits)
  moreover have "cpu_ok c t"
    using assms(1) inside upd card fin tl by (auto simp: cpu_ok_def)
  ultimately show ?thesis using t inside by (auto intro: wpI)
qed

interpretation spin: spin_locks "acquire c" "release c" "\<lambda>s. inside s c" lock_free "cpu_ok c"
  for c :: nat
proof unfold_locales
  fix s :: "'a smp_scheme" and l
  assume ok: "cpu_ok c s"
  show "lock_free s l \<Longrightarrow> l \<notin> inside s c \<Longrightarrow>
      wp (acquire c l) (\<lambda>_ t. cpu_ok c t \<and> inside t c = insert l (inside s c)) s"
    using ok by (rule acquire_free)
  show "l \<in> inside s c \<Longrightarrow>
      wp (release c l) (\<lambda>_ t. cpu_ok c t \<and> inside t c = inside s c - {l}) s"
    using ok by (rule release_inside)
  show "release c l s = Panic ''release''" if "l \<notin> inside s c"
    using that ok by (simp add: release_def kexec holding_inside)
  show "acquire c l s = Panic ''acquire''" if "l \<in> inside s c"
    using that ok by (simp add: acquire_def kexec push_off_exec holding_inside)
      (auto simp: holding_def inside_def cpu_ok_def)
qed

section \<open>Properties\<close>


text \<open>CPU 0 taking \<open>kmem.lock\<close>, then freeing it, from the boot state.\<close>

definition kmem_taken :: "u32 \<Rightarrow> nat option \<Rightarrow> act \<Rightarrow> sys" where
  "kmem_taken v own a = init_sys\<lparr>cpus := (cpus init_sys)(0 := \<lparr>noff = 1, intena = False\<rparr>),
     locks := (locks init_sys)(KmemLock := \<lparr>locked = v, name = [], lcpu = own\<rparr>),
     act := (act init_sys)(0 := a)\<rparr>"

lemma kmem_taken_reachable:
  "reachable (kmem_taken 1 (Some 0) Running)" "reachable (kmem_taken 0 None Popping)"
proof -
  have "cpu_step init_sys (kmem_taken 0 None (Spinning KmemLock))"
    using cpu_step.enter [of init_sys 0 _ KmemLock, OF _ push_off_exec]
    by (simp add: kmem_taken_def init_sys_def goto_def holding_def fun_upd_idem)
  then have 1: "reachable (kmem_taken 0 None (Spinning KmemLock))"
    by (rule reachable.step [OF reachable.start])
  have "cpu_step (kmem_taken 0 None (Spinning KmemLock)) (kmem_taken 1 None (Swapped KmemLock))"
    using cpu_step.swap [of "kmem_taken 0 None (Spinning KmemLock)" 0 KmemLock]
    by (simp add: kmem_taken_def goto_def step_results)
  then have 2: "reachable (kmem_taken 1 None (Swapped KmemLock))" by (rule reachable.step [OF 1])
  have "cpu_step (kmem_taken 1 None (Swapped KmemLock)) (kmem_taken 1 (Some 0) Running)"
    using cpu_step.owner [of "kmem_taken 1 None (Swapped KmemLock)" 0 KmemLock]
    by (simp add: kmem_taken_def goto_def step_results)
  then show 3: "reachable (kmem_taken 1 (Some 0) Running)" by (rule reachable.step [OF 2])
  have "cpu_step (kmem_taken 1 (Some 0) Running) (kmem_taken 1 None (Clearing KmemLock))"
    using cpu_step.unown [of "kmem_taken 1 (Some 0) Running" 0 KmemLock]
    by (simp add: kmem_taken_def goto_def step_results holding_def)
  then have 4: "reachable (kmem_taken 1 None (Clearing KmemLock))" by (rule reachable.step [OF 3])
  have "cpu_step (kmem_taken 1 None (Clearing KmemLock)) (kmem_taken 0 None Popping)"
    using cpu_step.clear [of "kmem_taken 1 None (Clearing KmemLock)" 0 KmemLock]
    by (simp add: kmem_taken_def goto_def step_results)
  then show "reachable (kmem_taken 0 None Popping)" by (rule reachable.step [OF 4])
qed


text \<open>
  A CPU that has freed a lock can always undo its \<open>push_off\<close>: neither panic of \<open>pop_off\<close>
  is reachable, and the nesting depth is then the number of locks the CPU is inside of.
\<close>

theorem release_pop_off_no_panic:
  assumes "reachable s" and "act s c = Popping"
  shows "wp (pop_off c) (\<lambda>_ t. noff (cpus t c) = int (card (inside t c))) s"
proof -
  have "cpu_inv s c" using reachable_inv [OF assms(1)] by auto
  with assms(2) show ?thesis
    by (auto simp: wp_iff pop_off_Ret cpu_inv_def)
qed

theorem release_pop_off_no_panic_witness:
  "wp (pop_off 0) (\<lambda>_ t. noff (cpus t 0) = int (card (inside t 0))) (kmem_taken 0 None Popping)"
  by (rule release_pop_off_no_panic [OF kmem_taken_reachable(2)]) (simp add: kmem_taken_def)

text \<open>
  \<open>push_off\<close> and \<open>pop_off\<close> are matched: undoing a \<open>push_off\<close> restores the nesting depth
  and the interrupt enable, at any depth, and touches no other CPU.
\<close>

theorem push_pop_restores:
  assumes "noff (cpus s c) \<ge> 0" and "noff (cpus s c) \<noteq> 0 \<longrightarrow> \<not> sie s c"
  shows "wp (kthen (push_off c) (pop_off c))
    (\<lambda>_ t. sie t = sie s \<and> noff (cpus t c) = noff (cpus s c) \<and> locks t = locks s \<and>
       (\<forall>d. d \<noteq> c \<longrightarrow> cpus t d = cpus s d)) s"
  using assms by (auto simp: wp_iff kthen_eq_Ret push_off_exec pop_off_Ret fun_upd_idem)

theorem push_pop_restores_witness:
  "wp (kthen (push_off 0) (pop_off 0)) (\<lambda>_ t. sie t 0 \<and> noff (cpus t 0) = 0)
     (init_sys\<lparr>sie := (\<lambda>_. True)\<rparr>)"
  by (rule wp_mono [OF push_pop_restores]) (simp_all add: init_sys_def)

text \<open>
  \<open>acquire\<close>, a body that keeps the set of held locks, and \<open>release\<close> on one CPU
  run without a panic and restore that set.
\<close>

theorem acquire_release_section:
  assumes "cpu_ok c s" "lock_free s l"
    and "\<And>t. cpu_ok c t \<Longrightarrow> inside t c = insert l (inside s c) \<Longrightarrow>
      wp body (\<lambda>_ u. cpu_ok c u \<and> inside u c = inside t c) t"
  shows "wp (kseq [acquire c l, body, release c l]) (\<lambda>_ u. cpu_ok c u \<and> inside u c = inside s c) s"
proof -
  have "l \<notin> inside s c" using assms by (auto simp: cpu_ok_def lock_free_def)
  with assms show ?thesis by (intro spin.critical_section) auto
qed

theorem acquire_release_section_witness:
  "wp (kseq [acquire 0 KmemLock, kreturn (), release 0 KmemLock])
     (\<lambda>_ u. inside u 0 = {}) init_sys"
proof -
  have "wp (kseq [acquire 0 KmemLock, kreturn (), release 0 KmemLock])
     (\<lambda>_ u. cpu_ok 0 u \<and> inside u 0 = inside init_sys 0) init_sys"
    by (rule acquire_release_section)
      (simp_all add: cpu_ok_def lock_free_def init_sys_def inside_def wp_simps)
  then show ?thesis by (rule wp_mono) (simp add: init_sys_def inside_def)
qed

end
