(* ===== verification/Cstring.thy ===== *)
theory Cstring
  imports Prelude
begin

text \<open>
  src/kernel/string.c. Memory is a function from 64-bit addresses to bytes; an address
  plus an offset wraps around as pointer arithmetic does. Routines that write through one
  pointer and read through another (\<open>memmove\<close>) work on memory, so that overlapping
  arguments are covered; routines that only read, or that write an array disjoint from the
  one they read, work on views \<open>nat \<Rightarrow> u8\<close> of an array. \<open>memset\<close> and \<open>memmove\<close> are shown to be
  block writes, and the string routines are characterised by \<open>cstr n p\<close>, the string held in
  the first \<open>n\<close> bytes of an array.
\<close>

type_synonym mem = "u64 \<Rightarrow> u8"

type_synonym view = "nat \<Rightarrow> u8"

section \<open>Memory as a byte store\<close>

definition mem_at :: "u64 \<Rightarrow> nat \<Rightarrow> u64" where
  "mem_at a k = a + of_nat k"

definition mem_off :: "u64 \<Rightarrow> u64 \<Rightarrow> nat option" where
  "mem_off a x = Some (unat (x - a))"

interpretation ms: byte_store mem_at mem_off "2 ^ 64"
proof
  show "k < 2 ^ 64 \<Longrightarrow> mem_off a (mem_at a k) = Some k" for a k
    by (simp add: mem_off_def mem_at_def unat_of_nat)
  show "mem_off a x = Some k \<Longrightarrow> mem_at a k = x" for a x k
    by (auto simp: mem_off_def mem_at_def)
qed

abbreviation bytes_of :: "mem \<Rightarrow> u64 \<Rightarrow> nat \<Rightarrow> u8 list" where
  "bytes_of \<equiv> get_bytes mem_at"

abbreviation bytes_put :: "mem \<Rightarrow> u64 \<Rightarrow> u8 list \<Rightarrow> mem" where
  "bytes_put \<equiv> put_bytes mem_off"

text \<open>A pointer read as an array: element \<open>k\<close> is the byte at offset \<open>k\<close>.\<close>

definition at_ptr :: "mem \<Rightarrow> u64 \<Rightarrow> view" where
  "at_ptr m a = (\<lambda>k. m (mem_at a k))"

definition next_ptr :: "view \<Rightarrow> view" where
  "next_ptr p = (\<lambda>k. p (Suc k))"

section \<open>memset, memcmp, memmove\<close>

text \<open>\<open>i\<close> is a C int compared as unsigned with \<open>n\<close>; as an index it is sign extended.\<close>

function memset_loop :: "mem \<Rightarrow> u64 \<Rightarrow> u32 \<Rightarrow> u32 \<Rightarrow> u32 \<Rightarrow> mem" where
  "memset_loop m dst c n i =
     (if i < n then memset_loop (m(dst + scast i := ucast c)) dst c n (i + 1) else m)"
  by pat_completeness auto
termination
proof (relation "measure (\<lambda>(m, dst, c, n, i). unat n - unat i)")
  fix m :: mem and dst :: u64 and c n i :: u32
  assume "i < n"
  then have "unat i < unat n" "unat (i + 1) = Suc (unat i)"
    by (auto simp: word_less_nat_alt unat_inc)
  then show "((m(dst + scast i := ucast c), dst, c, n, i + 1), m, dst, c, n, i)
      \<in> measure (\<lambda>(m, dst, c, n, i). unat n - unat i)"
    by simp
qed simp

declare memset_loop.simps [simp del]

definition memset :: "mem \<Rightarrow> u64 \<Rightarrow> u32 \<Rightarrow> u32 \<Rightarrow> mem" where
  "memset m dst c n = memset_loop m dst c n 0"

fun memcmp :: "view \<Rightarrow> view \<Rightarrow> nat \<Rightarrow> int" where
  "memcmp s1 s2 0 = 0"
| "memcmp s1 s2 (Suc n) =
     (if s1 0 \<noteq> s2 0 then int (unat (s1 0)) - int (unat (s2 0))
      else memcmp (next_ptr s1) (next_ptr s2) n)"

fun move_down :: "mem \<Rightarrow> u64 \<Rightarrow> u64 \<Rightarrow> nat \<Rightarrow> mem" where
  "move_down m d s 0 = m"
| "move_down m d s (Suc n) = move_down (m(d - 1 := m (s - 1))) (d - 1) (s - 1) n"

fun move_up :: "mem \<Rightarrow> u64 \<Rightarrow> u64 \<Rightarrow> nat \<Rightarrow> mem" where
  "move_up m d s 0 = m"
| "move_up m d s (Suc n) = move_up (m(d := m s)) (d + 1) (s + 1) n"

definition memmove :: "mem \<Rightarrow> u64 \<Rightarrow> u64 \<Rightarrow> u32 \<Rightarrow> mem" where
  "memmove m dst src n =
     (if src < dst \<and> src + ucast n > dst
      then move_down m (dst + ucast n) (src + ucast n) (unat n)
      else move_up m dst src (unat n))"

definition memcpy :: "mem \<Rightarrow> u64 \<Rightarrow> u64 \<Rightarrow> u32 \<Rightarrow> mem" where
  "memcpy m dst src n = memmove m dst src n"

section \<open>Strings\<close>

fun strncmp :: "view \<Rightarrow> view \<Rightarrow> nat \<Rightarrow> int" where
  "strncmp p q 0 = 0"
| "strncmp p q (Suc n) =
     (if p 0 \<noteq> 0 \<and> p 0 = q 0 then strncmp (next_ptr p) (next_ptr q) n
      else int (unat (p 0)) - int (unat (q 0)))"

text \<open>\<open>strncpy(s, t, n)\<close> on an array that does not overlap \<open>t\<close>; \<open>i\<close> counts \<open>s++\<close> and \<open>t++\<close>.\<close>

fun strncpy_pad :: "view \<Rightarrow> nat \<Rightarrow> nat \<Rightarrow> view" where
  "strncpy_pad s i 0 = s"
| "strncpy_pad s i (Suc n) = strncpy_pad (s(i := 0)) (Suc i) n"

fun strncpy_copy :: "view \<Rightarrow> view \<Rightarrow> nat \<Rightarrow> nat \<Rightarrow> view" where
  "strncpy_copy s t i 0 = s"
| "strncpy_copy s t i (Suc n) =
     (if t i \<noteq> 0 then strncpy_copy (s(i := t i)) t (Suc i) n
      else strncpy_pad (s(i := t i)) (Suc i) n)"

definition strncpy :: "view \<Rightarrow> view \<Rightarrow> int \<Rightarrow> view" where
  "strncpy s t n = strncpy_copy s t 0 (nat n)"

fun safestrcpy_copy :: "view \<Rightarrow> view \<Rightarrow> nat \<Rightarrow> nat \<Rightarrow> view" where
  "safestrcpy_copy s t i 0 = s(i := 0)"
| "safestrcpy_copy s t i (Suc n) =
     (if t i \<noteq> 0 then safestrcpy_copy (s(i := t i)) t (Suc i) n
      else (s(i := t i))(Suc i := 0))"

definition safestrcpy :: "view \<Rightarrow> view \<Rightarrow> int \<Rightarrow> view" where
  "safestrcpy s t n = (if n \<le> 0 then s else safestrcpy_copy s t 0 (nat (n - 1)))"

text \<open>\<open>strlen\<close> has no bound: without a NUL it does not return.\<close>

partial_function (option) strlen_from :: "view \<Rightarrow> nat \<Rightarrow> nat option" where
  "strlen_from s n = (if s n \<noteq> 0 then strlen_from s (Suc n) else Some n)"

definition strlen :: "view \<Rightarrow> nat option" where
  "strlen s = strlen_from s 0"

section \<open>memset and memmove as block operations\<close>

lemma memset_loop_apply:
  assumes "unat n \<le> 2 ^ 31" "i \<le> n"
  shows "memset_loop m dst c n i x =
    (if unat i \<le> unat (x - dst) \<and> unat (x - dst) < unat n then ucast c else m x)"
  using assms
proof (induction m dst c n i rule: memset_loop.induct)
  case (1 m dst c n i)
  show ?case
  proof (cases "i < n")
    case True
    then have i: "unat (i + 1) = Suc (unat i)" "unat i < unat n"
      by (auto simp: unat_inc word_less_nat_alt)
    then have le: "i + 1 \<le> n" by (simp add: word_le_nat_alt)
    have "scast i = (of_nat (unat i) :: u64)"
      using i(2) "1.prems"(1) by (intro scast_small) simp
    then have eq: "x = dst + scast i \<longleftrightarrow> unat (x - dst) = unat i"
      using offset_eq [of "unat i" x dst] unat_bound [of i] by simp
    have "memset_loop m dst c n i x = memset_loop (m(dst + scast i := ucast c)) dst c n (i + 1) x"
      using True by (simp add: memset_loop.simps [of m dst c n i])
    also have "\<dots> = (if unat (i + 1) \<le> unat (x - dst) \<and> unat (x - dst) < unat n then ucast c
        else (m(dst + scast i := ucast c)) x)"
      by (rule "1.IH" [OF True "1.prems"(1) le])
    also have "\<dots> = (if unat i \<le> unat (x - dst) \<and> unat (x - dst) < unat n then ucast c else m x)"
      using i eq by auto
    finally show ?thesis .
  next
    case False
    with "1.prems" show ?thesis
      by (auto simp: memset_loop.simps [of m dst c n i] word_le_nat_alt word_less_nat_alt)
  qed
qed

lemma memset_eq:
  assumes "unat n \<le> 2 ^ 31"
  shows "memset m dst c n = bytes_put m dst (replicate (unat n) (ucast c))"
proof
  fix x
  show "memset m dst c n x = bytes_put m dst (replicate (unat n) (ucast c)) x"
    using memset_loop_apply [OF assms, of 0 m dst c x]
    by (simp add: memset_def put_bytes_def mem_off_def)
qed

lemma mem_at_simps [simp]:
  "mem_at a 0 = a" "mem_at (a + 1) k = mem_at a (Suc k)"
  by (simp_all add: mem_at_def)

lemma unat_diff_Suc:
  assumes "x \<noteq> d" shows "unat (x - d) = Suc (unat (x - (d + 1) :: u64))"
proof -
  have e: "x - (d + 1) = x - d - 1" by simp
  have "unat (x - d - 1) = unat (x - d) - 1" using assms by (intro unat_minus_one) simp
  moreover have "unat (x - d) \<noteq> 0" using assms by (simp add: unat_eq_0)
  ultimately show ?thesis unfolding e by linarith
qed

lemma move_up_apply:
  assumes "n \<le> 2 ^ 64" "\<And>j k. j < n \<Longrightarrow> k < n \<Longrightarrow> mem_at s j = mem_at d k \<Longrightarrow> j \<le> k"
  shows "move_up m d s n x = (if unat (x - d) < n then m (mem_at s (unat (x - d))) else m x)"
  using assms
proof (induction n arbitrary: m d s)
  case 0
  then show ?case by simp
next
  case (Suc n)
  have IH: "move_up (m(d := m s)) (d + 1) (s + 1) n x =
      (if unat (x - (d + 1)) < n then (m(d := m s)) (mem_at (s + 1) (unat (x - (d + 1))))
       else (m(d := m s)) x)"
  proof (intro Suc.IH)
    fix j k assume "j < n" "k < n" "mem_at (s + 1) j = mem_at (d + 1) k"
    then show "j \<le> k" using Suc.prems(2) [of "Suc j" "Suc k"] by simp
  qed (use Suc.prems(1) in simp)
  show ?case
  proof (cases "x = d")
    case True
    have "unat (d - (d + 1)) = 2 ^ 64 - 1" by (simp add: unat_minus_one_max)
    then show ?thesis using IH Suc.prems(1) True by simp
  next
    case False
    have "mem_at s (Suc j) \<noteq> d" if "j < n" for j
      using Suc.prems(2) [of "Suc j" 0] that by auto
    then show ?thesis using IH False by (simp add: unat_diff_Suc)
  qed
qed

lemma move_down_apply:
  assumes "n \<le> 2 ^ 64"
    "\<And>j k. j < n \<Longrightarrow> k < n \<Longrightarrow> s - 1 - of_nat j = d - 1 - of_nat k \<Longrightarrow> j \<le> k"
  shows "move_down m d s n x =
    (if unat (d - 1 - x) < n then m (s - 1 - (d - 1 - x)) else m x)"
  using assms
proof (induction n arbitrary: m d s)
  case 0
  then show ?case by simp
next
  case (Suc n)
  have IH: "move_down (m(d - 1 := m (s - 1))) (d - 1) (s - 1) n x =
      (if unat (d - 1 - 1 - x) < n then (m(d - 1 := m (s - 1))) (s - 1 - 1 - (d - 1 - 1 - x))
       else (m(d - 1 := m (s - 1))) x)"
  proof (intro Suc.IH)
    fix j k assume "j < n" "k < n" "s - 1 - 1 - of_nat j = d - 1 - 1 - (of_nat k :: u64)"
    then show "j \<le> k"
      using Suc.prems(2) [of "Suc j" "Suc k"] by (simp add: algebra_simps)
  qed (use Suc.prems in simp)
  show ?case
  proof (cases "x = d - 1")
    case True
    have "unat (d - 1 - 1 - (d - 1)) = 2 ^ 64 - 1" by (simp add: unat_minus_one_max)
    then show ?thesis using IH Suc.prems(1) True by simp
  next
    case False
    then have un: "unat (d - 1 - x) = Suc (unat (d - 1 - 1 - x))"
      using unat_diff_Suc [of "d - 1" x] by (simp add: algebra_simps)
    have "s - 1 - (d - 1 - x) \<noteq> d - 1" if "unat (d - 1 - x) < Suc n"
    proof
      assume eq: "s - 1 - (d - 1 - x) = d - 1"
      have "s - 1 - of_nat (unat (d - 1 - x)) = d - 1 - (of_nat 0 :: u64)"
        using eq by simp
      then have "unat (d - 1 - x) \<le> 0"
        using that by (intro Suc.prems(2)) auto
      then show False using un by simp
    qed
    then show ?thesis using IH False un by (simp add: algebra_simps)
  qed
qed

lemma unat_mem_at: "unat a + k < 2 ^ 64 \<Longrightarrow> unat (mem_at a k) = unat a + k"
  unfolding mem_at_def by (rule unat_add_small) simp

lemma unat_ucast_u32 [simp]: "unat (ucast (n :: u32) :: u64) = unat n"
  using unat_bound [of n] by (simp add: unsigned_ucast_eq take_bit_nat_eq_self)

lemma ucast_u32_of_nat: "(ucast (n :: u32) :: u64) = of_nat (unat n)"
  by simp

lemma down_offset:
  assumes "k < n" shows "a + of_nat n - 1 - of_nat k = (mem_at a (n - 1 - k) :: u64)"
proof -
  have "of_nat n = (of_nat (n - 1 - k) + of_nat k + 1 :: u64)"
    using assms by (metis (no_types) One_nat_def Suc_diff_Suc add.commute diff_Suc_eq_diff_pred
        le_add_diff_inverse2 less_imp_le_nat of_nat_Suc of_nat_add Suc_leI add_Suc)
  then show ?thesis by (simp add: mem_at_def)
qed

lemma flip_less:
  assumes "unat y < n" "n < 2 ^ 64" shows "unat (of_nat n - 1 - y :: u64) < n"
proof -
  have eq: "of_nat n - 1 - y = (of_nat (n - 1 - unat y) :: u64)"
    using down_offset [OF assms(1), of 0] by (simp add: mem_at_def)
  have "unat (of_nat (n - 1 - unat y) :: u64) = n - 1 - unat y"
    using assms by (intro unat_of_nat_small) simp
  then show ?thesis using assms unfolding eq by linarith
qed

lemma bytes_put_apply:
  "bytes_put m dst (bytes_of m src n) x = (if unat (x - dst) < n then m (mem_at src (unat (x - dst))) else m x)"
  by (simp add: put_bytes_def mem_off_def)

text \<open>The backward copy is right when the source does not start above the destination.\<close>

lemma move_down_block:
  assumes src: "unat src + n < 2 ^ 64" and dst: "unat dst + n < 2 ^ 64" and le: "src \<le> dst"
  shows "move_down m (dst + of_nat n) (src + of_nat n) n = bytes_put m dst (bytes_of m src n)"
proof
  fix x
  have "j \<le> k" if "j < n" "k < n" "src + of_nat n - 1 - of_nat j = dst + of_nat n - 1 - (of_nat k :: u64)" for j k
  proof -
    have "mem_at src (n - 1 - j) = mem_at dst (n - 1 - k)"
      using that by (simp only: down_offset)
    then have "unat src + (n - 1 - j) = unat dst + (n - 1 - k)"
      using that src dst unat_mem_at [of src "n - 1 - j"] unat_mem_at [of dst "n - 1 - k"] by simp
    then show ?thesis using that le unfolding word_le_nat_alt by linarith
  qed
  then have "move_down m (dst + of_nat n) (src + of_nat n) n x =
      (if unat (dst + of_nat n - 1 - x) < n then m (src + of_nat n - 1 - (dst + of_nat n - 1 - x)) else m x)"
    using src by (intro move_down_apply) auto
  moreover have "unat (dst + of_nat n - 1 - x) < n \<longleftrightarrow> unat (x - dst) < n"
  proof -
    have "of_nat n - 1 - (x - dst) = dst + of_nat n - 1 - x"
      "of_nat n - 1 - (dst + of_nat n - 1 - x) = x - dst" by simp_all
    moreover have "n < 2 ^ 64" using src by simp
    ultimately show ?thesis using flip_less [of _ n] by metis
  qed
  moreover have "src + of_nat n - 1 - (dst + of_nat n - 1 - x) = mem_at src (unat (x - dst))"
    by (simp add: mem_at_def)
  ultimately show "move_down m (dst + of_nat n) (src + of_nat n) n x = bytes_put m dst (bytes_of m src n) x"
    by (simp add: bytes_put_apply)
qed

text \<open>The forward copy is right when the destination does not start inside the source.\<close>

lemma move_up_block:
  assumes src: "unat src + n < 2 ^ 64" and dst: "unat dst + n < 2 ^ 64"
    and apart: "\<not> (unat src < unat dst \<and> unat dst < unat src + n)"
  shows "move_up m dst src n = bytes_put m dst (bytes_of m src n)"
proof
  fix x
  have "j \<le> k" if "j < n" "k < n" "mem_at src j = mem_at dst k" for j k
  proof -
    have "unat src + j = unat dst + k"
      using that src dst unat_mem_at [of src j] unat_mem_at [of dst k] by simp
    then show ?thesis using that apart by linarith
  qed
  then show "move_up m dst src n x = bytes_put m dst (bytes_of m src n) x"
    using src by (subst move_up_apply) (auto simp: bytes_put_apply)
qed

lemma memmove_eq:
  assumes src: "unat src + unat n < 2 ^ 64" and dst: "unat dst + unat n < 2 ^ 64"
  shows "memmove m dst src n = bytes_put m dst (bytes_of m src (unat n))"
proof -
  have "unat (src + of_nat (unat n)) = unat src + unat n"
    using src by (intro unat_add_small) simp
  then have "src + ucast n > dst \<longleftrightarrow> unat dst < unat src + unat n"
    unfolding ucast_u32_of_nat by (simp only: word_less_nat_alt)
  then show ?thesis
    using move_down_block [OF src dst, of m] move_up_block [OF src dst, of m]
    unfolding memmove_def ucast_u32_of_nat by (auto simp: word_less_nat_alt word_le_nat_alt)
qed

lemma memcmp_eq_0: "memcmp p q n = 0 \<longleftrightarrow> (\<forall>k < n. p k = q k)"
proof (induction p q n rule: memcmp.induct)
  case (2 p q n)
  then show ?case
    by (auto simp: next_ptr_def less_Suc_eq_0_disj word_uint_eq_iff)
qed simp

section \<open>Bounded strings\<close>

text \<open>The string in the first \<open>n\<close> bytes of an array: up to a NUL, or all \<open>n\<close>.\<close>

definition cstr :: "nat \<Rightarrow> view \<Rightarrow> u8 list" where
  "cstr n p = takeWhile (\<lambda>b. b \<noteq> 0) (map p [0..<n])"

lemma cstr_0 [simp]: "cstr 0 p = []"
  by (simp add: cstr_def)

lemma cstr_Suc: "cstr (Suc n) p = (if p 0 = 0 then [] else p 0 # cstr n (next_ptr p))"
  by (simp add: cstr_def map_upt_Suc next_ptr_def del: upt_Suc)

lemma cstr_nonzero: "0 \<notin> set (cstr n p)"
  by (auto simp: cstr_def dest: set_takeWhileD)

lemma length_cstr: "length (cstr n p) \<le> n"
  by (metis cstr_def length_map length_takeWhile_le length_upt minus_nat.diff_0)

lemma strncmp_eq_0: "strncmp p q n = 0 \<longleftrightarrow> cstr n p = cstr n q"
proof (induction p q n rule: strncmp.induct)
  case (2 p q n)
  then show ?case
    by (auto simp: cstr_Suc word_uint_eq_iff)
qed simp

lemma strncpy_pad_apply: "strncpy_pad s i n k = (if i \<le> k \<and> k < i + n then 0 else s k)"
  by (induction n arbitrary: s i) auto

lemma all_from_Suc:
  assumes "i \<le> k" "P i"
  shows "(\<forall>j. i \<le> j \<and> j \<le> k \<longrightarrow> P j) \<longleftrightarrow> (\<forall>j. Suc i \<le> j \<and> j \<le> k \<longrightarrow> P j)"
  using assms by (metis Suc_leI le_neq_implies_less Suc_leD)

lemma strncpy_copy_apply:
  "strncpy_copy s t i n k =
     (if i \<le> k \<and> k < i + n then (if \<forall>j. i \<le> j \<and> j \<le> k \<longrightarrow> t j \<noteq> 0 then t k else 0) else s k)"
proof (induction n arbitrary: s i k)
  case (Suc n)
  show ?case
  proof (cases "t i = 0 \<or> k < i")
    case True
    then show ?thesis by (auto simp: strncpy_pad_apply Suc.IH)
  next
    case False
    then show ?thesis
      using all_from_Suc [of i k "\<lambda>j. t j \<noteq> 0"] by (cases "k = i") (auto simp: Suc.IH)
  qed
qed auto

lemma cstr_nth: "k < length (cstr n t) \<Longrightarrow> cstr n t ! k = t k"
  using takeWhile_nth [of k "\<lambda>b. b \<noteq> 0" "map t [0..<n]"] length_cstr [of n t]
  by (simp add: cstr_def)

lemma less_length_cstr: "k < length (cstr n t) \<longleftrightarrow> k < n \<and> (\<forall>j \<le> k. t j \<noteq> 0)"
proof (induction n arbitrary: t k)
  case (Suc n)
  show ?case
  proof (cases k)
    case (Suc i)
    have "(\<forall>j \<le> Suc i. t j \<noteq> 0) \<longleftrightarrow> t 0 \<noteq> 0 \<and> (\<forall>j \<le> i. t (Suc j) \<noteq> 0)"
      by (metis Suc_le_mono le0 not0_implies_Suc)
    then show ?thesis using Suc Suc.IH [of i "next_ptr t"] by (auto simp: cstr_Suc next_ptr_def)
  qed (auto simp: cstr_Suc)
qed simp

lemma strncpy_apply:
  "strncpy s t n k =
     (if k < nat n then (if k < length (cstr (nat n) t) then cstr (nat n) t ! k else 0) else s k)"
  by (auto simp: strncpy_def strncpy_copy_apply less_length_cstr cstr_nth)

lemma safestrcpy_copy_frame: "k < i \<or> i + n < k \<Longrightarrow> safestrcpy_copy s t i n k = s k"
  by (induction n arbitrary: s i) auto

lemma safestrcpy_copy_string:
  assumes "i \<le> k" "k < i + n" "\<forall>j. i \<le> j \<and> j \<le> k \<longrightarrow> t j \<noteq> 0"
  shows "safestrcpy_copy s t i n k = t k"
  using assms
proof (induction n arbitrary: s i)
  case (Suc n)
  then show ?case
    using Suc.IH [of "Suc i" "s(i := t i)"] safestrcpy_copy_frame [of k "Suc i" n "s(i := t i)" t]
    by (cases "k = i") auto
qed simp

lemma safestrcpy_copy_nul:
  assumes "i \<le> k" "k \<le> i + n" "\<forall>j. i \<le> j \<and> j < k \<longrightarrow> t j \<noteq> 0" "t k = 0 \<or> k = i + n"
  shows "safestrcpy_copy s t i n k = 0"
  using assms
proof (induction n arbitrary: s i)
  case (Suc n)
  then show ?case
    using Suc.IH [of "Suc i" "s(i := t i)"] by (cases "k = i") auto
qed simp

lemma cstr_eqI:
  assumes "l < n" "s l = 0" "\<forall>k < l. s k \<noteq> 0"
  shows "cstr n s = map s [0..<l]"
proof -
  have "k < length (cstr n s) \<longleftrightarrow> k < l" for k
    using assms unfolding less_length_cstr by (metis le_less_trans less_imp_le_nat not_le order.strict_trans2)
  then have "length (cstr n s) = l" by (metis linorder_neqE_nat less_irrefl)
  then show ?thesis by (auto intro!: nth_equalityI simp: cstr_nth)
qed

lemma safestrcpy_cstr:
  assumes "0 < n"
  shows "cstr (nat n) (safestrcpy s t n) = cstr (nat n - 1) t \<and>
    length (cstr (nat n) (safestrcpy s t n)) < nat n \<and>
    (\<forall>k \<ge> nat n. safestrcpy s t n k = s k)"
proof -
  let ?m = "nat n - 1" and ?s = "safestrcpy s t n"
  let ?l = "length (cstr ?m t)"
  have eq: "?s = safestrcpy_copy s t 0 ?m" using assms by (simp add: safestrcpy_def nat_diff_distrib)
  have l: "?l \<le> ?m" by (rule length_cstr)
  have before: "?s k = t k" "t k \<noteq> 0" if "k < ?l" for k
    using that unfolding eq less_length_cstr by (auto intro!: safestrcpy_copy_string)
  have "\<not> ?l < ?l" by simp
  then have "t ?l = 0 \<or> ?l = ?m"
    using l before(2) less_length_cstr [of ?l ?m t] by (metis le_neq_implies_less)
  then have nul: "?s ?l = 0"
    using l before(2) unfolding eq by (intro safestrcpy_copy_nul) auto
  have "cstr (nat n) ?s = map ?s [0..<?l]"
    using nul before l assms by (intro cstr_eqI) auto
  also have "\<dots> = cstr ?m t"
    using before by (auto intro!: nth_equalityI simp: cstr_nth)
  finally have c: "cstr (nat n) ?s = cstr ?m t" .
  show ?thesis
    using c l assms by (auto simp: eq intro!: safestrcpy_copy_frame)
qed

lemma strlen_from_returns:
  assumes "i \<le> l" "s l = 0" "\<forall>k. i \<le> k \<and> k < l \<longrightarrow> s k \<noteq> 0"
  shows "strlen_from s i = Some l"
  using assms
proof (induction "l - i" arbitrary: i)
  case 0
  then show ?case by (subst strlen_from.simps) auto
next
  case (Suc d)
  then have "strlen_from s (Suc i) = Some l" by (intro Suc.hyps) auto
  then show ?case using Suc by (subst strlen_from.simps) auto
qed

lemma strlen_cstr:
  assumes "l < n" "s l = 0"
  shows "strlen s = Some (length (cstr n s))"
proof -
  let ?l = "length (cstr n s)"
  have "?l \<le> l" using assms less_length_cstr [of l n s] by (metis not_less order_refl)
  then have "s ?l = 0"
    using less_length_cstr [of ?l n s] less_length_cstr [of _ n s] assms
    by (metis le_less_trans less_irrefl order.not_eq_order_implies_strict order_refl)
  then show ?thesis
    unfolding strlen_def by (intro strlen_from_returns) (auto simp: less_length_cstr)
qed

section \<open>Properties\<close>

text \<open>
  C39: \<open>memmove\<close> copies: also when the two regions overlap in either direction, the
  destination ends up holding the bytes the source held before the call, and no byte
  outside the destination changes. Neither region may wrap around the address space.
\<close>

theorem memmove_copies:
  assumes "unat src + unat n < 2 ^ 64" and "unat dst + unat n < 2 ^ 64"
  shows "bytes_of (memmove m dst src n) dst (unat n) = bytes_of m src (unat n) \<and>
    (\<forall>x. \<not> unat (x - dst) < unat n \<longrightarrow> memmove m dst src n x = m x)"
  unfolding memmove_eq [OF assms]
  using ms.get_put_same [of "bytes_of m src (unat n)" m dst] assms
  by (simp add: put_bytes_def mem_off_def)

theorem memmove_copies_witness:
  "bytes_of (memmove (\<lambda>a. ucast a) 2 0 4) 2 4 = [0, 1, 2, 3]"
proof -
  have "bytes_of (memmove (\<lambda>a. ucast a) 2 0 4) 2 (unat (4 :: u32)) = bytes_of (\<lambda>a. ucast a) 0 (unat (4 :: u32))"
    using memmove_copies [of 0 4 2 "\<lambda>a. ucast a"] by simp
  then show ?thesis
    by (simp add: get_bytes_def mem_at_def upt_rec)
qed

text \<open>
  C40: \<open>strncmp\<close> returns 0 exactly on equal strings, where a string is what precedes the first
  NUL or the bound \<open>n\<close>; and \<open>safestrcpy\<close> with room for \<open>n > 0\<close> bytes always leaves a
  NUL-terminated string, the source cut at \<open>n - 1\<close> bytes, and writes nothing beyond.
\<close>

theorem strncmp_safestrcpy_strings:
  "(strncmp p q k = 0 \<longleftrightarrow> cstr k p = cstr k q) \<and>
   (0 < n \<longrightarrow>
     cstr (nat n) (safestrcpy s t n) = cstr (nat n - 1) t \<and>
     length (cstr (nat n) (safestrcpy s t n)) < nat n \<and>
     (\<forall>i \<ge> nat n. safestrcpy s t n i = s i))"
  using strncmp_eq_0 safestrcpy_cstr by blast

theorem strncmp_safestrcpy_strings_witness:
  "cstr 3 (safestrcpy (\<lambda>_. 7) (\<lambda>i. of_nat (i + 1)) 3) = [1, 2] \<and>
   safestrcpy (\<lambda>_. 7) (\<lambda>i. of_nat (i + 1)) 3 3 = 7"
  using strncmp_safestrcpy_strings [of "\<lambda>_. 0" "\<lambda>_. 0" 0 3 "\<lambda>_. 7" "\<lambda>i. of_nat (i + 1)"]
  by (simp add: cstr_def upt_rec)

end
