(* ===== verification/Riscv.thy ===== *)
theory Riscv
  imports Cstring
begin

text \<open>
  The macros of src/kernel/riscv.h and src/kernel/memlayout.h that the memory code is written with,
  with their arithmetic, and 64-bit loads and stores in byte memory.
\<close>

section \<open>Pages\<close>

abbreviation (input) PGSIZE :: u64 where "PGSIZE \<equiv> 4096"
abbreviation (input) PGSHIFT :: nat where "PGSHIFT \<equiv> 12"
abbreviation (input) KERNBASE :: u64 where "KERNBASE \<equiv> 0x80000000"
abbreviation (input) PHYSTOP :: u64 where "PHYSTOP \<equiv> 0x88000000"

definition PGROUNDUP :: "u64 \<Rightarrow> u64" where
  "PGROUNDUP sz = (sz + PGSIZE - 1) AND NOT (PGSIZE - 1)"

definition PGROUNDDOWN :: "u64 \<Rightarrow> u64" where
  "PGROUNDDOWN a = a AND NOT (PGSIZE - 1)"

lemma and_not_mask_unat: "unat ((w :: u64) AND NOT (mask n)) = 2 ^ n * (unat w div 2 ^ n)"
proof -
  have "w AND NOT (mask n) = push_bit n (drop_bit n w)"
    by (rule bit_word_eqI) (auto simp: bit_simps)
  moreover have "unat (push_bit n (drop_bit n w)) = push_bit n (drop_bit n (unat w))"
  proof -
    have "push_bit n (drop_bit n (unat w)) \<le> unat w"
      by (simp add: push_bit_eq_mult drop_bit_eq_div)
    also have "\<dots> < 2 ^ 64" using unat_bound [of w] by simp
    finally have "take_bit 64 (push_bit n (drop_bit n (unat w))) = push_bit n (drop_bit n (unat w))"
      by (rule take_bit_nat_eq_self)
    moreover have "take_bit 64 (unat w) = unat w"
      using unat_bound [of w] by (intro take_bit_nat_eq_self) simp
    ultimately show ?thesis by (simp add: unsigned_push_bit_eq unsigned_drop_bit_eq)
  qed
  ultimately show ?thesis by (simp add: push_bit_eq_mult drop_bit_eq_div mult.commute)
qed

lemma mask_12: "(4095 :: u64) = mask 12"
  by (simp add: mask_eq_exp_minus_1)

lemma unat_PGROUNDDOWN: "unat (PGROUNDDOWN a) = 4096 * (unat a div 4096)"
  using and_not_mask_unat [of a 12] by (simp add: PGROUNDDOWN_def mask_12)

lemma unat_PGROUNDUP:
  assumes "unat a + 4095 < 2 ^ 64"
  shows "unat (PGROUNDUP a) = 4096 * ((unat a + 4095) div 4096)"
proof -
  have "unat (a + 4095) = unat a + 4095" using unat_add_small [of a 4095] assms by simp
  then show ?thesis using and_not_mask_unat [of "a + 4095" 12] by (simp add: PGROUNDUP_def mask_12 add.commute)
qed

definition page_aligned :: "u64 \<Rightarrow> bool" where
  "page_aligned a \<longleftrightarrow> a mod PGSIZE = 0"

lemma page_aligned_unat: "page_aligned a \<longleftrightarrow> unat a mod 4096 = 0"
  by (simp add: page_aligned_def word_unat_eq_iff unat_mod_distrib)

lemma page_aligned_iff: "page_aligned a \<longleftrightarrow> PGROUNDDOWN a = a"
  unfolding page_aligned_unat word_unat_eq_iff unat_PGROUNDDOWN
  by (metis dvd_mult_div_cancel dvd_triv_left mod_eq_0_iff_dvd)

lemma page_aligned_PGROUNDDOWN [simp]: "page_aligned (PGROUNDDOWN a)"
  by (simp add: page_aligned_unat unat_PGROUNDDOWN)

lemma unat_in_page:
  assumes "page_aligned p" "k < 4096"
  shows "unat (p + of_nat k) = unat p + k"
proof (rule unat_add_small)
  obtain q where q: "unat p = 4096 * q" using assms(1) by (auto simp: page_aligned_unat)
  have "4096 * q < 4096 * 2 ^ 52" using unat_bound [of p] q by simp
  then have "q < 2 ^ 52" by (metis mult_less_cancel1)
  then show "unat p + k < 2 ^ LENGTH(64)" using q assms(2) by simp
qed

lemma PGROUNDDOWN_at [simp]:
  assumes "page_aligned p" "k < 4096"
  shows "PGROUNDDOWN (mem_at p k) = p"
proof -
  have "unat (PGROUNDDOWN (p + of_nat k)) = unat p"
    using assms by (auto simp: unat_PGROUNDDOWN unat_in_page page_aligned_unat)
  then show ?thesis unfolding mem_at_def by (simp add: word_unat_eq_iff)
qed

lemma in_page_iff:
  assumes "page_aligned p"
  shows "unat (x - p) < 4096 \<longleftrightarrow> PGROUNDDOWN x = p"
proof
  assume "unat (x - p) < 4096"
  then show "PGROUNDDOWN x = p"
    using PGROUNDDOWN_at [OF assms, of "unat (x - p)"] by (simp add: mem_at_def)
next
  assume "PGROUNDDOWN x = p"
  then have e: "unat p = 4096 * (unat x div 4096)" using unat_PGROUNDDOWN [of x] by simp
  then have "p \<le> x" by (simp add: word_le_nat_alt)
  then have "unat (x - p) = unat x mod 4096"
    using e by (simp add: unat_sub minus_mult_div_eq_mod)
  then show "unat (x - p) < 4096" by simp
qed

section \<open>Words in memory\<close>

definition load64 :: "mem \<Rightarrow> u64 \<Rightarrow> u64" where
  "load64 m a = le_word (bytes_of m a 8)"

definition store64 :: "mem \<Rightarrow> u64 \<Rightarrow> u64 \<Rightarrow> mem" where
  "store64 m a v = bytes_put m a (le_bytes 8 v)"

lemma load_store64 [simp]: "load64 (store64 m a v) a = v"
  using ms.get_put_same [of "le_bytes 8 v" m a]
  by (simp add: load64_def store64_def le_word_le_bytes)

lemma store64_outside: "\<not> unat (x - a) < 8 \<Longrightarrow> store64 m a v x = m x"
  by (simp add: store64_def put_bytes_def mem_off_def)

lemma load64_cong:
  assumes "\<And>k. k < 8 \<Longrightarrow> m (mem_at a k) = m' (mem_at a k)"
  shows "load64 m a = load64 m' a"
proof -
  have "bytes_of m a 8 = bytes_of m' a 8" using assms by (intro nth_equalityI) simp_all
  then show ?thesis by (simp add: load64_def)
qed

text \<open>Entry \<open>i\<close> of an array of 64-bit words that fills a page.\<close>

lemma slot_at: "mem_at (p + 8 * of_nat i) k = mem_at p (8 * i + k)"
  by (simp add: mem_at_def algebra_simps)

lemma slot_inside:
  assumes "page_aligned p" "i < 512" "unat (x - (p + 8 * of_nat i)) < 8"
  shows "PGROUNDDOWN x = p" "unat (x - p) div 8 = i"
proof -
  let ?k = "unat (x - (p + 8 * of_nat i))"
  have x: "x = mem_at p (8 * i + ?k)"
    using slot_at [of p i ?k] by (simp add: mem_at_def)
  have lt: "8 * i + ?k < 4096" using assms by simp
  then show "PGROUNDDOWN x = p" using assms x by (metis PGROUNDDOWN_at)
  have "unat (x - p) = 8 * i + ?k"
    using x lt offset_eq [of "8 * i + ?k" x p] by (simp add: mem_at_def)
  then show "unat (x - p) div 8 = i" using assms(3) by simp
qed

lemma store64_other_page:
  assumes "page_aligned p" "i < 512" "PGROUNDDOWN x \<noteq> p"
  shows "store64 m (p + 8 * of_nat i) v x = m x"
  using assms slot_inside(1) by (intro store64_outside) blast

lemma load_store64_other:
  assumes "page_aligned p" "i < 512" "page_aligned q" "j < 512" "p \<noteq> q \<or> i \<noteq> j"
  shows "load64 (store64 m (p + 8 * of_nat i) v) (q + 8 * of_nat j) = load64 m (q + 8 * of_nat j)"
proof (intro load64_cong store64_outside notI)
  fix k :: nat
  let ?x = "mem_at (q + 8 * of_nat j) k"
  assume k: "k < 8" and "unat (?x - (p + 8 * of_nat i)) < 8"
  from slot_inside [OF assms(1,2) this(2)]
  have "PGROUNDDOWN ?x = p" "unat (?x - p) div 8 = i" .
  moreover have "unat (?x - (q + 8 * of_nat j)) < 8"
    using k unat_of_nat_small [where 'w = 64, of k] by (simp add: mem_at_def)
  from slot_inside [OF assms(3,4) this]
  have "PGROUNDDOWN ?x = q" "unat (?x - q) div 8 = j" .
  ultimately show False using assms(5) by auto
qed

section \<open>Page-table entries\<close>

abbreviation (input) PTE_V :: u64 where "PTE_V \<equiv> 1"
abbreviation (input) PTE_R :: u64 where "PTE_R \<equiv> 2"
abbreviation (input) PTE_W :: u64 where "PTE_W \<equiv> 4"
abbreviation (input) PTE_X :: u64 where "PTE_X \<equiv> 8"
abbreviation (input) PTE_U :: u64 where "PTE_U \<equiv> 16"

definition PA2PTE :: "u64 \<Rightarrow> u64" where
  "PA2PTE pa = push_bit 10 (drop_bit 12 pa)"

definition PTE2PA :: "u64 \<Rightarrow> u64" where
  "PTE2PA pte = push_bit 12 (drop_bit 10 pte)"

definition PTE_FLAGS :: "u64 \<Rightarrow> u64" where
  "PTE_FLAGS pte = pte AND 0x3FF"

definition PX :: "nat \<Rightarrow> u64 \<Rightarrow> u64" where
  "PX level va = drop_bit (PGSHIFT + 9 * level) va AND 0x1FF"

abbreviation (input) MAXVA :: u64 where "MAXVA \<equiv> 0x4000000000"

abbreviation (input) TRAMPOLINE :: u64 where "TRAMPOLINE \<equiv> MAXVA - PGSIZE"
abbreviation (input) TRAPFRAME :: u64 where "TRAPFRAME \<equiv> TRAMPOLINE - PGSIZE"

definition KSTACK :: "nat \<Rightarrow> u64" where
  "KSTACK p = TRAMPOLINE - (of_nat p + 1) * 2 * PGSIZE"

lemma mask_9: "(0x1FF :: u64) = mask 9" and mask_10: "(0x3FF :: u64) = mask 10"
  by (simp_all add: mask_eq_exp_minus_1)

lemma bit_lt:
  assumes "f < (2 ^ n :: u64)" "bit f i" shows "i < n"
proof (rule ccontr)
  assume "\<not> i < n"
  have "n < 64" 
  proof (rule ccontr)
    assume "\<not> n < 64"
    then have "(2 :: u64) ^ n = 0" by (simp add: not_less)
    with assms(1) show False by simp
  qed
  have "(2 :: nat) ^ n < 2 ^ 64" using \<open>n < 64\<close> by (rule power_strict_increasing) simp
  then have "unat (2 ^ n :: u64) = 2 ^ n"
    using unat_of_nat_small [where 'w = 64, of "2 ^ n"] by simp
  then have "unat f < 2 ^ n" using assms(1) by (simp add: word_less_nat_alt)
  then have "take_bit n (unat f) = unat f" by (rule take_bit_nat_eq_self)
  then have "take_bit n f = f" by (simp add: word_unat_eq_iff unsigned_take_bit_eq)
  then show False using assms(2) \<open>\<not> i < n\<close> by (metis bit_take_bit_iff)
qed

lemma page_aligned_bits: "page_aligned a \<longleftrightarrow> (\<forall>i < 12. \<not> bit a i)"
proof -
  have "page_aligned a \<longleftrightarrow> take_bit 12 a = 0"
    by (simp add: page_aligned_def take_bit_eq_mod)
  also have "\<dots> \<longleftrightarrow> (\<forall>i < 12. \<not> bit a i)"
    by (auto simp: bit_eq_iff bit_take_bit_iff)
  finally show ?thesis .
qed

lemma page_aligned_PTE2PA [simp]: "page_aligned (PTE2PA pte)"
  by (simp add: page_aligned_bits PTE2PA_def bit_push_bit_iff)

lemma PTE2PA_PA2PTE [simp]:
  assumes "page_aligned pa" "f < 1024"
  shows "PTE2PA (PA2PTE pa OR f) = pa"
proof (rule bit_word_eqI)
  fix n assume n: "n < LENGTH(64)"
  have f: "bit f i \<Longrightarrow> i < 10" for i using bit_lt [of f 10 i] assms(2) by simp
  show "bit (PTE2PA (PA2PTE pa OR f)) n \<longleftrightarrow> bit pa n"
    using assms(1) f [of "n - 2"] n
    by (cases "n < 12") (auto simp: page_aligned_bits PTE2PA_def PA2PTE_def bit_simps)
qed

lemma PTE_FLAGS_PA2PTE [simp]:
  assumes "f < 1024" shows "PTE_FLAGS (PA2PTE pa OR f) = f"
proof (rule bit_word_eqI)
  fix n assume n: "n < LENGTH(64)"
  have "bit f i \<Longrightarrow> i < 10" for i using bit_lt [of f 10 i] assms by simp
  then show "bit (PTE_FLAGS (PA2PTE pa OR f)) n \<longleftrightarrow> bit f n"
    using n by (auto simp: PTE_FLAGS_def PA2PTE_def mask_10 bit_simps)
qed

lemma PX_bound: "unat (PX level va) < 512"
proof -
  have "PX level va \<le> 0x1FF" unfolding PX_def by (rule word_and_le1)
  then show ?thesis by (simp add: word_le_nat_alt)
qed

lemma PX_eq_page:
  assumes "va < MAXVA" "vb < MAXVA" "\<forall>l \<le> 2. PX l va = PX l vb"
  shows "PGROUNDDOWN va = PGROUNDDOWN vb"
proof (rule bit_word_eqI)
  fix n assume n: "n < LENGTH(64)"
  have px: "bit (drop_bit (12 + 9 * l) va) i = bit (drop_bit (12 + 9 * l) vb) i" if "l \<le> 2" "i < 9" for l i
  proof -
    have "bit (PX l va) i = bit (PX l vb) i" using assms(3) that by simp
    then show ?thesis using that by (simp add: PX_def mask_9 bit_simps)
  qed
  have hi: "\<not> bit va n" "\<not> bit vb n" if "n \<ge> 38"
    using bit_lt [of va 38 n] bit_lt [of vb 38 n] assms(1,2) that by auto
  have "bit va n = bit vb n" if "12 \<le> n"
  proof (cases "n < 38")
    case True
    then have "(n - 12) div 9 \<le> 2" "n = 12 + 9 * ((n - 12) div 9) + (n - 12) mod 9"
      using that by auto
    with px [of "(n - 12) div 9" "(n - 12) mod 9"] show ?thesis
      by (simp add: bit_drop_bit_eq)
  next
    case False
    then show ?thesis using hi by simp
  qed
  then show "bit (PGROUNDDOWN va) n = bit (PGROUNDDOWN vb) n"
    using n by (auto simp: PGROUNDDOWN_def mask_12 bit_simps)
qed

end
