(* ===== verification/Kalloc.thy ===== *)
theory Kalloc
  imports Spinlock Riscv
begin

text \<open>
  src/kernel/kalloc.c, the allocator of physical pages. The free list is linked through the free
  pages themselves, so the state is physical memory together with the list head, and the allocator
  is correct when the chain in memory is a duplicate-free list of usable pages (\<open>free_list\<close>). The
  locale \<open>page_allocator\<close> states what the clients of the allocator rely on.
\<close>

section \<open>State and operations\<close>

text \<open>\<open>kend\<close> is the linker symbol \<open>end\<close>, the first address after the kernel.\<close>

record kmem = kthread +
  mem :: mem
  freelist :: u64
  kend :: u64

definition kfree :: "u64 \<Rightarrow> (unit, 'z kmem_scheme) kop" where
  "kfree pa = kseq [
     kbind (kget kend) (\<lambda>e. kpanic_if (pa mod PGSIZE \<noteq> 0 \<or> pa < e \<or> pa \<ge> PHYSTOP) ''kfree''),
     kmodify (\<lambda>s. s\<lparr>mem := memset (mem s) pa 1 4096\<rparr>),
     klock KmemLock,
     kmodify (\<lambda>s. s\<lparr>mem := store64 (mem s) pa (freelist s)\<rparr>),
     kmodify (\<lambda>s. s\<lparr>freelist := pa\<rparr>),
     kunlock KmemLock]"

definition kalloc :: "(u64, 'z kmem_scheme) kop" where
  "kalloc = kthen (klock KmemLock) (kbind (kget freelist) (\<lambda>r.
     kthen (kseq [
       kwhen (r \<noteq> 0) (kmodify (\<lambda>s. s\<lparr>freelist := load64 (mem s) r\<rparr>)),
       kunlock KmemLock,
       kwhen (r \<noteq> 0) (kmodify (\<lambda>s. s\<lparr>mem := memset (mem s) r 5 4096\<rparr>))])
     (kreturn r)))"

text \<open>The loop of \<open>freerange\<close> ends because \<open>kfree\<close> panics at and beyond \<open>PHYSTOP\<close>.\<close>

lemma kfree_Ret_bound: "kfree pa s = Ret u t \<Longrightarrow> pa < PHYSTOP"
  by (auto simp: kfree_def kexec not_le split: if_splits)

function freerange_loop :: "u64 \<Rightarrow> u64 \<Rightarrow> (unit, 'z kmem_scheme) kop" where
  "freerange_loop p pa_end s =
     (if p + PGSIZE \<le> pa_end then kthen (kfree p) (freerange_loop (p + PGSIZE) pa_end) s
      else Ret () s)"
  by pat_completeness auto
termination
proof (relation "measure (\<lambda>(p, pa_end, s). unat PHYSTOP - unat p)")
  fix p pa_end :: u64 and s t :: "'z kmem_scheme" and u :: unit
  assume "kfree p s = Ret u t"
  then have "unat p < unat PHYSTOP" using kfree_Ret_bound by (simp only: word_less_nat_alt)
  moreover from this have "unat (p + PGSIZE) = unat p + 4096"
    using unat_add_small [of p 4096] by simp
  ultimately show "((p + PGSIZE, pa_end, t), p, pa_end, s) \<in> measure (\<lambda>(p, pa_end, s). unat PHYSTOP - unat p)"
    by simp
qed simp

declare freerange_loop.simps [simp del]

definition freerange :: "u64 \<Rightarrow> u64 \<Rightarrow> (unit, 'z kmem_scheme) kop" where
  "freerange pa_start pa_end = freerange_loop (PGROUNDUP pa_start) pa_end"

text \<open>\<open>initlock\<close> leaves the lock free: no effect in the view of the thread.\<close>

definition kinit :: "(unit, 'z kmem_scheme) kop" where
  "kinit = kbind (kget kend) (\<lambda>e. freerange e PHYSTOP)"

section \<open>The free list\<close>

fun is_list :: "mem \<Rightarrow> u64 \<Rightarrow> u64 list \<Rightarrow> bool" where
  "is_list m p [] \<longleftrightarrow> p = 0"
| "is_list m p (q # qs) \<longleftrightarrow> p = q \<and> p \<noteq> 0 \<and> is_list m (load64 m p) qs"

definition page_ok :: "'z kmem_scheme \<Rightarrow> u64 \<Rightarrow> bool" where
  "page_ok s p \<longleftrightarrow> page_aligned p \<and> kend s \<le> p \<and> p < PHYSTOP"

definition free_list :: "'z kmem_scheme \<Rightarrow> u64 list \<Rightarrow> bool" where
  "free_list s ps \<longleftrightarrow> KERNBASE \<le> kend s \<and> is_list (mem s) (freelist s) ps \<and> distinct ps \<and>
     (\<forall>p \<in> set ps. page_ok s p)"

lemma is_list_unique: "is_list m p ps \<Longrightarrow> is_list m p qs \<Longrightarrow> ps = qs"
proof (induction ps arbitrary: p qs)
  case Nil
  then show ?case by (cases qs) auto
next
  case (Cons a ps)
  then show ?case by (cases qs) auto
qed

definition same_pages :: "u64 set \<Rightarrow> mem \<Rightarrow> mem \<Rightarrow> bool" where
  "same_pages P m m' \<longleftrightarrow> (\<forall>x. PGROUNDDOWN x \<in> P \<longrightarrow> m' x = m x)"

lemma same_pages_refl [simp]: "same_pages P m m"
  by (simp add: same_pages_def)

lemma same_pages_trans: "same_pages P m m' \<Longrightarrow> same_pages P m' m'' \<Longrightarrow> same_pages P m m''"
  by (simp add: same_pages_def)

lemma same_pages_mono: "same_pages P m m' \<Longrightarrow> Q \<subseteq> P \<Longrightarrow> same_pages Q m m'"
  by (auto simp: same_pages_def)

lemma same_pages_load64:
  assumes "same_pages P m m'" "p \<in> P" "page_aligned p" "i < 512"
  shows "load64 m' (p + 8 * of_nat i) = load64 m (p + 8 * of_nat i)"
proof (rule load64_cong)
  fix k :: nat assume "k < 8"
  then have "PGROUNDDOWN (mem_at (p + 8 * of_nat i) k) = p"
    using assms by (simp add: slot_at)
  then show "m' (mem_at (p + 8 * of_nat i) k) = m (mem_at (p + 8 * of_nat i) k)"
    using assms by (simp add: same_pages_def)
qed

lemma is_list_frame:
  assumes "same_pages (set ps) m m'" "\<forall>p \<in> set ps. page_aligned p"
  shows "is_list m' p ps = is_list m p ps"
  using assms
proof (induction ps arbitrary: p)
  case (Cons a ps)
  have "load64 m' a = load64 m a"
    using same_pages_load64 [OF Cons.prems(1), of a 0] Cons.prems(2) by simp
  moreover have "same_pages (set ps) m m'"
    using Cons.prems(1) by (auto simp: same_pages_def)
  ultimately show ?case using Cons by auto
qed simp

lemma page_ok_nonzero: "KERNBASE \<le> kend s \<Longrightarrow> page_ok s p \<Longrightarrow> p \<noteq> 0"
  by (auto simp: page_ok_def dest: order_trans)

lemma memset_page: "memset m p c 4096 = bytes_put m p (replicate 4096 (ucast c))"
  using memset_eq [of 4096 m p c] by simp

lemma bytes_put_page:
  assumes "page_aligned p" "length bs = 4096"
  shows "bytes_put m p bs x = (if PGROUNDDOWN x = p then bs ! unat (x - p) else m x)"
  using in_page_iff [OF assms(1), of x] assms(2) by (simp add: put_bytes_def mem_off_def)

lemma same_pages_put [intro]:
  "page_aligned p \<Longrightarrow> length bs = 4096 \<Longrightarrow> p \<notin> P \<Longrightarrow> same_pages P m (bytes_put m p bs)"
  by (auto simp: same_pages_def bytes_put_page)

lemma same_pages_store:
  "page_aligned p \<Longrightarrow> i < 512 \<Longrightarrow> p \<notin> P \<Longrightarrow> same_pages P m (store64 m (p + 8 * of_nat i) v)"
  by (auto simp: same_pages_def intro!: store64_other_page)

section \<open>What the operations do\<close>

lemma kalloc_exec:
  assumes "KmemLock \<notin> held s"
  shows "kalloc s = Ret (freelist s) (if freelist s = 0 then s else
     s\<lparr>freelist := load64 (mem s) (freelist s),
       mem := bytes_put (mem s) (freelist s) (replicate 4096 5)\<rparr>)"
  using assms by (cases s) (simp add: kalloc_def kexec memset_page)

lemma kfree_exec:
  assumes "KmemLock \<notin> held s" "page_ok s pa"
  shows "kfree pa s = Ret () (s\<lparr>freelist := pa,
     mem := store64 (bytes_put (mem s) pa (replicate 4096 1)) pa (freelist s)\<rparr>)"
  using assms by (cases s) (auto simp: kfree_def kexec memset_page page_ok_def page_aligned_def)

lemma kfree_panic: "\<not> page_ok s pa \<Longrightarrow> kfree pa s = Panic ''kfree''"
  by (auto simp: kfree_def kexec page_ok_def page_aligned_def not_le)

text \<open>Nothing but memory and the head of the free list differs.\<close>

definition mem_only :: "'z kmem_scheme \<Rightarrow> 'z kmem_scheme \<Rightarrow> bool" where
  "mem_only s t \<longleftrightarrow> t = s\<lparr>freelist := freelist t, mem := mem t\<rparr>"

lemma mem_only_refl [simp]: "mem_only s s"
  by (simp add: mem_only_def)

lemma mem_only_upd [simp]:
  "mem_only s (s\<lparr>mem := m\<rparr>)" "mem_only s (s\<lparr>freelist := f, mem := m\<rparr>)"
  by (simp_all add: mem_only_def)

lemma mem_only_trans: "mem_only s t \<Longrightarrow> mem_only t u \<Longrightarrow> mem_only s u"
  by (cases s, cases t, cases u) (simp add: mem_only_def)

lemma mem_only_fields:
  "mem_only s t \<Longrightarrow> held t = held s" "mem_only s t \<Longrightarrow> kend t = kend s"
  "mem_only s t \<Longrightarrow> page_ok t = page_ok s"
  by (cases s, cases t, simp add: mem_only_def page_ok_def fun_eq_iff)+

text \<open>The result of an allocation and of a free, as far as clients can see it.\<close>

definition kalloc_post :: "u64 list \<Rightarrow> 'z kmem_scheme \<Rightarrow> u64 \<Rightarrow> 'z kmem_scheme \<Rightarrow> bool" where
  "kalloc_post ps s r t \<longleftrightarrow>
     (case ps of [] \<Rightarrow> r = 0 \<and> t = s
      | p # qs \<Rightarrow> r = p \<and> page_ok s p \<and> p \<noteq> 0 \<and> free_list t qs \<and>
          bytes_of (mem t) p 4096 = replicate 4096 5 \<and> same_pages (- {p}) (mem s) (mem t) \<and>
          mem_only s t)"

lemma kalloc_spec:
  assumes "KmemLock \<notin> held s" "free_list s ps"
  shows "wp kalloc (kalloc_post ps s) s"
proof (cases ps)
  case Nil
  then show ?thesis
    using assms by (auto simp: wp_def kalloc_exec free_list_def kalloc_post_def)
next
  case (Cons p qs)
  let ?t = "s\<lparr>freelist := load64 (mem s) p, mem := bytes_put (mem s) p (replicate 4096 5)\<rparr>"
  have p: "freelist s = p" "page_ok s p" "p \<noteq> 0" "page_aligned p" "p \<notin> set qs"
    and qs: "is_list (mem s) (load64 (mem s) p) qs" "distinct qs" "\<forall>q \<in> set qs. page_ok s q"
    using assms(2) by (auto simp: Cons free_list_def page_ok_def)
  have same: "same_pages (- {p}) (mem s) (mem ?t)"
    using p by (auto intro!: same_pages_put)
  have "same_pages (set qs) (mem s) (mem ?t)"
    using same by (rule same_pages_mono) (use p in auto)
  then have "is_list (mem ?t) (load64 (mem s) p) qs"
    using is_list_frame [of qs "mem s" "mem ?t"] qs by (simp add: page_ok_def)
  then have "free_list ?t qs"
    using qs assms(2) by (auto simp: free_list_def page_ok_def)
  moreover have "bytes_of (mem ?t) p 4096 = replicate 4096 5"
    using ms.get_put_same [of "replicate 4096 5" "mem s" p] by simp
  moreover have "kalloc s = Ret p ?t" using assms(1) p by (simp add: kalloc_exec)
  ultimately show ?thesis
    using p same by (auto simp: wp_def kalloc_post_def Cons)
qed

lemma kfree_spec:
  assumes "KmemLock \<notin> held s" "free_list s ps" "page_ok s pa" "pa \<notin> set ps"
  shows "wp (kfree pa) (\<lambda>_ t. free_list t (pa # ps) \<and> same_pages (- {pa}) (mem s) (mem t) \<and>
     mem_only s t) s"
proof -
  let ?m = "bytes_put (mem s) pa (replicate 4096 1)"
  let ?t = "s\<lparr>freelist := pa, mem := store64 ?m pa (freelist s)\<rparr>"
  have al: "page_aligned pa" and nz: "pa \<noteq> 0"
    using assms(2,3) by (auto simp: page_ok_def free_list_def dest: order_trans)
  have "same_pages (- {pa}) (mem s) ?m" using al by (intro same_pages_put) simp_all
  moreover have "same_pages (- {pa}) ?m (mem ?t)"
    using al same_pages_store [of pa 0 "- {pa}" ?m "freelist s"] by simp
  ultimately have same: "same_pages (- {pa}) (mem s) (mem ?t)" by (rule same_pages_trans)
  then have "same_pages (set ps) (mem s) (mem ?t)"
    by (rule same_pages_mono) (use assms(4) in auto)
  then have "is_list (mem ?t) (freelist s) ps"
    using is_list_frame [of ps "mem s" "mem ?t"] assms(2) by (simp add: free_list_def page_ok_def)
  then have "free_list ?t (pa # ps)"
    using assms nz by (auto simp: free_list_def page_ok_def)
  with same assms(1,3) show ?thesis by (auto simp: wp_def kfree_exec)
qed

section \<open>The allocator as its clients see it\<close>

text \<open>\<open>avail s ps\<close>: in state \<open>s\<close> the pages \<open>ps\<close> are free, in the order they will be handed out.\<close>

locale page_allocator =
  fixes alloc :: "(u64, 's) kop"
    and dealloc :: "u64 \<Rightarrow> (unit, 's) kop"
    and avail :: "'s \<Rightarrow> u64 list \<Rightarrow> bool"
    and usable :: "'s \<Rightarrow> u64 \<Rightarrow> bool"
    and memory :: "'s \<Rightarrow> mem"
  assumes alloc_none: "avail s [] \<Longrightarrow> alloc s = Ret 0 s"
    and alloc_some: "avail s (p # ps) \<Longrightarrow>
      wp alloc (\<lambda>r t. r = p \<and> p \<noteq> 0 \<and> avail t ps \<and> usable t p \<and>
        same_pages (- {p}) (memory s) (memory t)) s"
    and dealloc_page: "avail s ps \<Longrightarrow> usable s p \<Longrightarrow> p \<notin> set ps \<Longrightarrow>
      wp (dealloc p) (\<lambda>_ t. avail t (p # ps) \<and> same_pages (- {p}) (memory s) (memory t)) s"
    and avail_distinct: "avail s ps \<Longrightarrow> distinct ps"
begin

lemma alloc_twice:
  assumes "avail s (p # q # ps)"
  shows "wp (kbind alloc (\<lambda>a. kbind alloc (\<lambda>b. kreturn (a, b))))
    (\<lambda>(a, b) t. a \<noteq> b \<and> a \<noteq> 0 \<and> b \<noteq> 0 \<and> avail t ps \<and>
      same_pages (- {a, b}) (memory s) (memory t)) s"
proof -
  have ne: "p \<noteq> q" using avail_distinct [OF assms] by simp
  have step: "wp alloc (\<lambda>b u. p \<noteq> b \<and> p \<noteq> 0 \<and> b \<noteq> 0 \<and> avail u ps \<and>
      same_pages (- {p, b}) (memory s) (memory u)) t"
    if "avail t (q # ps)" "p \<noteq> 0" "same_pages (- {p}) (memory s) (memory t)" for t
    using alloc_some [OF that(1)]
  proof (rule wp_mono)
    fix a u
    assume u: "a = q \<and> q \<noteq> 0 \<and> avail u ps \<and> usable u q \<and> same_pages (- {q}) (memory t) (memory u)"
    then have "same_pages (- {p, q}) (memory s) (memory u)"
      using that(3) by (auto simp: same_pages_def)
    with u ne that(2) show "p \<noteq> a \<and> p \<noteq> 0 \<and> a \<noteq> 0 \<and> avail u ps \<and>
        same_pages (- {p, a}) (memory s) (memory u)" by simp
  qed
  show ?thesis
    using alloc_some [OF assms] unfolding wp_kbind wp_kreturn split
    by (elim wp_mono) (use step in auto)
qed

lemma alloc_dealloc:
  assumes "avail s (p # ps)"
  shows "wp (kbind alloc dealloc)
    (\<lambda>_ t. avail t (p # ps) \<and> same_pages (- {p}) (memory s) (memory t)) s"
proof -
  have p: "p \<notin> set ps" using avail_distinct [OF assms] by simp
  have "wp (dealloc p) (\<lambda>_ u. avail u (p # ps) \<and> same_pages (- {p}) (memory s) (memory u)) t"
    if "avail t ps" "usable t p" "same_pages (- {p}) (memory s) (memory t)" for t
    by (rule wp_mono [OF dealloc_page [OF that(1,2) p]]) (use same_pages_trans [OF that(3)] in simp)
  then show ?thesis
    using alloc_some [OF assms] unfolding wp_kbind by (auto elim!: wp_mono)
qed

end

interpretation kalloc: page_allocator kalloc kfree
  "\<lambda>s ps. KmemLock \<notin> held s \<and> free_list s ps" page_ok mem
proof unfold_locales
  fix s :: "'a kmem_scheme" and ps p
  show "KmemLock \<notin> held s \<and> free_list s [] \<Longrightarrow> kalloc s = Ret 0 s"
    by (simp add: kalloc_exec free_list_def)
  show "wp kalloc (\<lambda>r t. r = p \<and> p \<noteq> 0 \<and> (KmemLock \<notin> held t \<and> free_list t ps) \<and> page_ok t p \<and>
      same_pages (- {p}) (mem s) (mem t)) s" if "KmemLock \<notin> held s \<and> free_list s (p # ps)"
    using that kalloc_spec [of s "p # ps"]
    by (auto simp: kalloc_post_def mem_only_fields elim!: wp_mono)
  show "wp (kfree p) (\<lambda>_ t. (KmemLock \<notin> held t \<and> free_list t (p # ps)) \<and>
      same_pages (- {p}) (mem s) (mem t)) s"
    if "KmemLock \<notin> held s \<and> free_list s ps" "page_ok s p" "p \<notin> set ps"
    using that kfree_spec [of s ps p] by (auto simp: mem_only_fields elim!: wp_mono)
  show "KmemLock \<notin> held s \<and> free_list s ps \<Longrightarrow> distinct ps"
    by (simp add: free_list_def)
qed

section \<open>Boot\<close>

lemma page_alignedE:
  assumes "page_aligned a" obtains j where "unat a = 4096 * j"
proof -
  have "4096 dvd unat a" using assms by (simp add: page_aligned_unat mod_eq_0_iff_dvd)
  then show ?thesis using that by (elim dvdE)
qed

lemma page_ok_less_next:
  assumes "page_aligned p" "kend s \<le> p" "p < PHYSTOP"
  shows "page_ok s q \<and> q < p + PGSIZE \<longleftrightarrow> page_ok s q \<and> q < p \<or> q = p"
proof -
  have u: "unat (p + PGSIZE) = unat p + 4096"
    using assms(3) unat_add_small [of p 4096] by (simp add: word_less_nat_alt)
  have "q < p + PGSIZE \<longleftrightarrow> q < p \<or> q = p" if q: "page_aligned q"
  proof -
    obtain i j where "unat p = 4096 * i" "unat q = 4096 * j"
      using q assms(1) by (elim page_alignedE)
    then show ?thesis using u by (auto simp: word_less_nat_alt word_unat_eq_iff)
  qed
  then show ?thesis using assms by (auto simp: page_ok_def)
qed

lemma freerange_loop_spec:
  assumes "KmemLock \<notin> held s" "free_list s ps" "set ps = {q. page_ok s q \<and> q < p}"
    and "page_aligned p" "kend s \<le> p" "p \<le> PHYSTOP"
  shows "wp (freerange_loop p PHYSTOP) (\<lambda>_ t. (\<exists>qs. free_list t qs \<and> set qs = {q. page_ok s q}) \<and>
     mem_only s t) s"
  using assms
proof (induction p "PHYSTOP" s arbitrary: ps rule: freerange_loop.induct)
  case (1 p s)
  show ?case
  proof (cases "p = PHYSTOP")
    case True
    then have "freerange_loop p PHYSTOP s = Ret () s" by (simp add: freerange_loop.simps)
    moreover have "set ps = {q. page_ok s q}" using "1.prems"(3) True by (auto simp: page_ok_def)
    ultimately show ?thesis using "1.prems"(2)
      by (auto simp: wp_def)
  next
    case False
    then have lt: "p < PHYSTOP" using "1.prems"(6) by simp
    have u: "unat (p + PGSIZE) = unat p + 4096"
      using lt unat_add_small [of p 4096] by (simp add: word_less_nat_alt)
    have le: "p + PGSIZE \<le> PHYSTOP"
    proof -
      obtain j where "unat p = 4096 * j" using "1.prems"(4) by (elim page_alignedE)
      then show ?thesis using u lt by (simp add: word_le_nat_alt word_less_nat_alt)
    qed
    have ok: "page_ok s p" using "1.prems" lt by (simp add: page_ok_def)
    have "p \<notin> set ps" using "1.prems"(3) by simp
    from kfree_spec [OF "1.prems"(1,2) ok this] obtain t where
      t: "kfree p s = Ret () t" "free_list t (p # ps)" "mem_only s t"
      by (auto simp: wp_iff)
    note keep = mem_only_fields [OF t(3)]
    have "wp (freerange_loop (p + PGSIZE) PHYSTOP) (\<lambda>_ u. (\<exists>qs. free_list u qs \<and> set qs = {q. page_ok t q}) \<and>
       mem_only t u) t"
    proof (rule "1.hyps" [OF le t(1) _ t(2)])
      show "set (p # ps) = {q. page_ok t q \<and> q < p + PGSIZE}"
        using "1.prems"(3) page_ok_less_next [of p s] "1.prems"(4,5) lt by (auto simp: keep)
      show "page_aligned (p + PGSIZE)" using "1.prems"(4) u by (simp add: page_aligned_unat)
      show "kend t \<le> p + PGSIZE" using keep "1.prems"(5) u by (simp add: word_le_nat_alt)
    qed (use keep "1.prems" le in auto)
    then have "wp (freerange_loop (p + PGSIZE) PHYSTOP)
       (\<lambda>_ u. (\<exists>qs. free_list u qs \<and> set qs = {q. page_ok s q}) \<and>
         mem_only s u) t"
      by (rule wp_mono) (use mem_only_trans [OF t(3)] keep in auto)
    moreover have "freerange_loop p PHYSTOP s = freerange_loop (p + PGSIZE) PHYSTOP t"
      using le t(1) by (simp add: freerange_loop.simps [of p] kexec)
    ultimately show ?thesis by (simp add: wp_def)
  qed
qed

section \<open>Properties\<close>

text \<open>
  C4: booting (\<open>kinit\<close>) puts exactly the usable pages on the free list: every page-aligned address
  from the end of the kernel up to \<open>PHYSTOP\<close>, each once; it returns without a panic.
\<close>

theorem kinit_frees_all_pages:
  assumes "KmemLock \<notin> held s" "freelist s = 0" "KERNBASE \<le> kend s" "kend s \<le> PHYSTOP"
  shows "wp kinit (\<lambda>_ t. \<exists>ps. free_list t ps \<and> set ps = {p. page_ok s p}) s"
proof -
  let ?p = "PGROUNDUP (kend s)"
  have e: "unat (kend s) \<le> 2281701376" using assms(4) by (simp add: word_le_nat_alt)
  have p: "unat ?p = 4096 * ((unat (kend s) + 4095) div 4096)"
    using e by (intro unat_PGROUNDUP) simp
  have al: "page_aligned ?p" using p by (simp add: page_aligned_unat)
  have low: "kend s \<le> ?p" using p by (simp add: word_le_nat_alt)
  have high: "?p \<le> PHYSTOP" using p e by (simp add: word_le_nat_alt)
  have "q \<ge> ?p" if q: "page_ok s q" for q
  proof -
    obtain j where "unat q = 4096 * j"
      using q by (auto simp: page_ok_def elim: page_alignedE)
    moreover have "unat (kend s) \<le> unat q" using q by (simp add: page_ok_def word_le_nat_alt)
    ultimately show ?thesis using p by (simp add: word_le_nat_alt)
  qed
  then have "set [] = {q. page_ok s q \<and> q < ?p}" by force
  moreover have "free_list s []" using assms by (simp add: free_list_def)
  ultimately have "wp (freerange_loop ?p PHYSTOP) (\<lambda>_ t. (\<exists>qs. free_list t qs \<and> set qs = {q. page_ok s q}) \<and>
     mem_only s t) s"
    using assms(1) al low high by (intro freerange_loop_spec [of s "[]"])
  then show ?thesis
    by (auto simp: kinit_def freerange_def wp_simps elim!: wp_mono)
qed

text \<open>A machine whose kernel ends one page before \<open>PHYSTOP\<close>.\<close>

definition one_page :: "u64 \<Rightarrow> kmem" where
  "one_page fl = \<lparr>held = {}, mem = (\<lambda>_. 0), freelist = fl, kend = 0x87FFF000\<rparr>"

theorem kinit_frees_all_pages_witness:
  "wp kinit (\<lambda>_ t. \<exists>ps. free_list t ps \<and> 0x87FFF000 \<in> set ps) (one_page 0)"
  by (rule wp_mono [OF kinit_frees_all_pages])
    (auto simp: one_page_def page_ok_def page_aligned_def)

text \<open>
  C5: \<open>kalloc\<close> returns 0 and changes nothing exactly when no page is free; otherwise it returns the
  first free page, which is usable, no longer on the free list and filled with the junk value 5, and
  it changes no other page.
\<close>

theorem kalloc_returns_free_page:
  assumes "KmemLock \<notin> held s" "free_list s ps"
  shows "wp kalloc (\<lambda>r t. if ps = [] then r = 0 \<and> t = s else
    r = hd ps \<and> r \<noteq> 0 \<and> page_ok s r \<and> free_list t (tl ps) \<and> r \<notin> set (tl ps) \<and>
    bytes_of (mem t) r 4096 = replicate 4096 5 \<and> same_pages (- {r}) (mem s) (mem t) \<and>
    held t = held s) s"
proof (rule wp_mono [OF kalloc_spec [OF assms]])
  fix r t
  assume "kalloc_post ps s r t"
  then show "if ps = [] then r = 0 \<and> t = s else
      r = hd ps \<and> r \<noteq> 0 \<and> page_ok s r \<and> free_list t (tl ps) \<and> r \<notin> set (tl ps) \<and>
      bytes_of (mem t) r 4096 = replicate 4096 5 \<and> same_pages (- {r}) (mem s) (mem t) \<and>
      held t = held s"
    using assms(2) by (cases ps) (auto simp: kalloc_post_def free_list_def mem_only_fields)
qed

lemma one_page_free: "free_list (one_page 0x87FFF000) [0x87FFF000]"
  by (simp add: free_list_def one_page_def page_ok_def page_aligned_def load64_def get_bytes_def
      mem_at_def upt_rec)

theorem kalloc_returns_free_page_witness:
  "wp kalloc (\<lambda>r t. r = 0x87FFF000 \<and> free_list t []) (one_page 0x87FFF000)"
  by (rule wp_mono [OF kalloc_returns_free_page [OF _ one_page_free]]) (simp_all add: one_page_def)

text \<open>
  C6: freeing a page that \<open>kalloc\<close> returned gives back the free list it was taken from; nothing but that
  page's contents changes. Any other address, unaligned or outside the pool, stops the kernel.
\<close>

theorem kalloc_kfree_roundtrip:
  assumes "KmemLock \<notin> held s" "free_list s (p # ps)"
  shows "wp (kbind kalloc kfree) (\<lambda>_ t. free_list t (p # ps) \<and> same_pages (- {p}) (mem s) (mem t)) s \<and>
    (\<forall>a. \<not> page_ok s a \<longrightarrow> kfree a s = Panic ''kfree'')"
  using kalloc.alloc_dealloc [of s p ps] assms by (auto simp: kfree_panic elim!: wp_mono)

theorem kalloc_kfree_roundtrip_witness:
  "wp (kbind kalloc kfree) (\<lambda>_ t. free_list t [0x87FFF000]) (one_page 0x87FFF000)"
  using kalloc_kfree_roundtrip [OF _ one_page_free] by (auto simp: one_page_def elim!: wp_mono)

end
