(* ===== verification/Vm.thy ===== *)
theory Vm
  imports Kalloc
begin

text \<open>
  src/kernel/vm.c: Sv39 page tables in physical memory, one definition per function, and one per loop.
  Loops over pages that the code bounds only through \<open>walk\<close> (which panics from \<open>MAXVA\<close> on) terminate
  by that bound. Theory Vm_Correct has the invariants and the theorems.
\<close>

section \<open>Walking a page table\<close>

definition pte_addr :: "u64 \<Rightarrow> nat \<Rightarrow> u64 \<Rightarrow> u64" where
  "pte_addr pagetable level va = pagetable + 8 * PX level va"

definition read_pte :: "u64 \<Rightarrow> (u64, 'z kmem_scheme) kop" where
  "read_pte pte = kget (\<lambda>s. load64 (mem s) pte)"

definition write_pte :: "u64 \<Rightarrow> u64 \<Rightarrow> (unit, 'z kmem_scheme) kop" where
  "write_pte pte v = kmodify (\<lambda>s. s\<lparr>mem := store64 (mem s) pte v\<rparr>)"

definition fill_page :: "u64 \<Rightarrow> u32 \<Rightarrow> (unit, 'z kmem_scheme) kop" where
  "fill_page pa c = kmodify (\<lambda>s. s\<lparr>mem := memset (mem s) pa c 4096\<rparr>)"

fun walk_loop :: "u64 \<Rightarrow> u64 \<Rightarrow> bool \<Rightarrow> nat \<Rightarrow> (u64, 'z kmem_scheme) kop" where
  "walk_loop pagetable va alloc 0 = kreturn (pte_addr pagetable 0 va)"
| "walk_loop pagetable va alloc (Suc level) =
     (let pte = pte_addr pagetable (Suc level) va in
      kbind (read_pte pte) (\<lambda>e.
        if e AND PTE_V \<noteq> 0 then walk_loop (PTE2PA e) va alloc level
        else if \<not> alloc then kreturn 0
        else kbind kalloc (\<lambda>new.
          if new = 0 then kreturn 0
          else kthen (fill_page new 0)
            (kthen (write_pte pte (PA2PTE new OR PTE_V)) (walk_loop new va alloc level)))))"

definition walk :: "u64 \<Rightarrow> u64 \<Rightarrow> bool \<Rightarrow> (u64, 'z kmem_scheme) kop" where
  "walk pagetable va alloc = (if va \<ge> MAXVA then kpanic ''walk'' else walk_loop pagetable va alloc 2)"

definition walkaddr :: "u64 \<Rightarrow> u64 \<Rightarrow> (u64, 'z kmem_scheme) kop" where
  "walkaddr pagetable va =
     (if va \<ge> MAXVA then kreturn 0
      else kbind (walk pagetable va False) (\<lambda>pte.
        if pte = 0 then kreturn 0
        else kbind (read_pte pte) (\<lambda>e.
          if e AND PTE_V = 0 then kreturn 0
          else if e AND PTE_U = 0 then kreturn 0
          else kreturn (PTE2PA e))))"

lemma walk_Ret_bound: "walk pagetable va alloc s = Ret r t \<Longrightarrow> va < MAXVA"
  by (auto simp: walk_def kexec not_le split: if_splits)

lemma next_page_progress:
  "a < MAXVA \<Longrightarrow> unat MAXVA - unat (a + PGSIZE) < unat MAXVA - unat a"
  using unat_add_small [of a 4096] by (simp add: word_less_nat_alt)

section \<open>Mapping and unmapping\<close>

function mappages_loop :: "u64 \<Rightarrow> u64 \<Rightarrow> u64 \<Rightarrow> u64 \<Rightarrow> u64 \<Rightarrow> (int, 'z kmem_scheme) kop" where
  "mappages_loop pagetable a last_page pa perm s =
     kbind (walk pagetable a True) (\<lambda>pte.
       if pte = 0 then kreturn (- 1)
       else kbind (read_pte pte) (\<lambda>e.
         if e AND PTE_V \<noteq> 0 then kpanic ''remap''
         else kthen (write_pte pte (PA2PTE pa OR perm OR PTE_V))
           (if a = last_page then kreturn 0
            else mappages_loop pagetable (a + PGSIZE) last_page (pa + PGSIZE) perm))) s"
  by pat_completeness auto
termination
  by (relation "measure (\<lambda>(pagetable, a, last_page, pa, perm, s). unat MAXVA - unat a)")
    (simp, simp only: in_measure prod.case, erule next_page_progress [OF walk_Ret_bound])

definition mappages :: "u64 \<Rightarrow> u64 \<Rightarrow> u64 \<Rightarrow> u64 \<Rightarrow> u64 \<Rightarrow> (int, 'z kmem_scheme) kop" where
  "mappages pagetable va sz pa perm =
     mappages_loop pagetable (PGROUNDDOWN va) (PGROUNDDOWN (va + sz - 1)) pa perm"

lemma mappages_Ret_bound: "mappages pagetable va sz pa perm s = Ret r t \<Longrightarrow> va < MAXVA"
proof -
  assume "mappages pagetable va sz pa perm s = Ret r t"
  then have "PGROUNDDOWN va < MAXVA"
    by (auto simp: mappages_def mappages_loop.simps [of pagetable "PGROUNDDOWN va"] kbind_eq_Ret
        dest: walk_Ret_bound)
  then show "va < MAXVA"
    by (simp add: word_less_nat_alt unat_PGROUNDDOWN)
qed

function uvmunmap_loop :: "u64 \<Rightarrow> u64 \<Rightarrow> u64 \<Rightarrow> bool \<Rightarrow> (unit, 'z kmem_scheme) kop" where
  "uvmunmap_loop pagetable a stop do_free s =
     (if a < stop then
        kbind (walk pagetable a False) (\<lambda>pte.
          if pte = 0 then kpanic ''uvmunmap: walk''
          else kbind (read_pte pte) (\<lambda>e.
            if e AND PTE_V = 0 then kpanic ''uvmunmap: not mapped''
            else if PTE_FLAGS e = PTE_V then kpanic ''uvmunmap: not a leaf''
            else kthen (kwhen do_free (kfree (PTE2PA e)))
              (kthen (write_pte pte 0)
                (uvmunmap_loop pagetable (a + PGSIZE) stop do_free)))) s
      else Ret () s)"
  by pat_completeness auto
termination
  by (relation "measure (\<lambda>(pagetable, a, stop, do_free, s). unat MAXVA - unat a)")
    (simp, simp only: in_measure prod.case, erule next_page_progress [OF walk_Ret_bound])

definition uvmunmap :: "u64 \<Rightarrow> u64 \<Rightarrow> u64 \<Rightarrow> bool \<Rightarrow> (unit, 'z kmem_scheme) kop" where
  "uvmunmap pagetable va npages do_free =
     kthen (kpanic_if (va mod PGSIZE \<noteq> 0) ''uvmunmap: not aligned'')
       (uvmunmap_loop pagetable va (va + npages * PGSIZE) do_free)"

section \<open>The kernel page table\<close>

record kvm = kmem +
  kernel_pagetable :: u64
  satp :: u64

abbreviation (input) UART0 :: u64 where "UART0 \<equiv> 0x10000000"
abbreviation (input) VIRTIO0 :: u64 where "VIRTIO0 \<equiv> 0x10001000"
abbreviation (input) CLINT :: u64 where "CLINT \<equiv> 0x2000000"
abbreviation (input) PLIC :: u64 where "PLIC \<equiv> 0x0c000000"

definition kvmmap :: "u64 \<Rightarrow> u64 \<Rightarrow> u64 \<Rightarrow> u64 \<Rightarrow> (unit, 'z kvm_scheme) kop" where
  "kvmmap va pa sz perm = kbind (kget kernel_pagetable) (\<lambda>kpt.
     kbind (mappages kpt va sz pa perm) (\<lambda>r. kpanic_if (r \<noteq> 0) ''kvmmap''))"

text \<open>\<open>etext\<close> and \<open>trampoline\<close> are addresses the linker provides.\<close>

definition kvminit :: "u64 \<Rightarrow> u64 \<Rightarrow> (unit, 'z kvm_scheme) kop" where
  "kvminit etext trampoline = kbind kalloc (\<lambda>kpt. kseq [
     kmodify (\<lambda>s. s\<lparr>kernel_pagetable := kpt\<rparr>),
     fill_page kpt 0,
     kvmmap UART0 UART0 PGSIZE (PTE_R OR PTE_W),
     kvmmap VIRTIO0 VIRTIO0 PGSIZE (PTE_R OR PTE_W),
     kvmmap CLINT CLINT 0x10000 (PTE_R OR PTE_W),
     kvmmap PLIC PLIC 0x400000 (PTE_R OR PTE_W),
     kvmmap KERNBASE KERNBASE (etext - KERNBASE) (PTE_R OR PTE_X),
     kvmmap etext etext (PHYSTOP - etext) (PTE_R OR PTE_W),
     kvmmap TRAMPOLINE trampoline PGSIZE (PTE_R OR PTE_X)])"

definition MAKE_SATP :: "u64 \<Rightarrow> u64" where
  "MAKE_SATP pagetable = push_bit 60 8 OR drop_bit 12 pagetable"

definition kvminithart :: "(unit, 'z kvm_scheme) kop" where
  "kvminithart = kmodify (\<lambda>s. s\<lparr>satp := MAKE_SATP (kernel_pagetable s)\<rparr>)"

definition kvmpa :: "u64 \<Rightarrow> (u64, 'z kvm_scheme) kop" where
  "kvmpa va = (let off = va mod PGSIZE in
     kbind (kget kernel_pagetable) (\<lambda>kpt.
     kbind (walk kpt va False) (\<lambda>pte.
       if pte = 0 then kpanic ''kvmpa''
       else kbind (read_pte pte) (\<lambda>e.
         if e AND PTE_V = 0 then kpanic ''kvmpa''
         else kreturn (PTE2PA e + off)))))"

section \<open>User memory\<close>

definition uvmcreate :: "(u64, 'z kmem_scheme) kop" where
  "uvmcreate = kbind kalloc (\<lambda>pagetable.
     if pagetable = 0 then kreturn 0
     else kthen (fill_page pagetable 0) (kreturn pagetable))"

text \<open>
  Kernel-side buffers (static data, the stack, a buffer of the block cache) are not in the pages of
  the pool: a source is passed as the bytes it holds, and \<open>memmove\<close> from it is a block write.
\<close>

definition uvminit :: "u64 \<Rightarrow> u8 list \<Rightarrow> (unit, 'z kmem_scheme) kop" where
  "uvminit pagetable src =
     kthen (kpanic_if (length src \<ge> 4096) ''inituvm: more than a page'')
       (kbind kalloc (\<lambda>pg.
         kthen (fill_page pg 0)
           (kbind (mappages pagetable 0 PGSIZE pg (PTE_W OR PTE_R OR PTE_X OR PTE_U)) (\<lambda>_.
             kmodify (\<lambda>s. s\<lparr>mem := bytes_put (mem s) pg src\<rparr>)))))"

definition uvmdealloc :: "u64 \<Rightarrow> u64 \<Rightarrow> u64 \<Rightarrow> (u64, 'z kmem_scheme) kop" where
  "uvmdealloc pagetable oldsz newsz =
     (if newsz \<ge> oldsz then kreturn oldsz
      else kthen
        (if PGROUNDUP newsz < PGROUNDUP oldsz then
           (let npages = ucast ((PGROUNDUP oldsz - PGROUNDUP newsz) div PGSIZE) :: u32 in
            uvmunmap pagetable (PGROUNDUP newsz) (scast npages) True)
         else kreturn ())
        (kreturn newsz))"

function uvmalloc_loop :: "u64 \<Rightarrow> u64 \<Rightarrow> u64 \<Rightarrow> u64 \<Rightarrow> (u64, 'z kmem_scheme) kop" where
  "uvmalloc_loop pagetable oldsz newsz a s =
     (if a < newsz then
        kbind kalloc (\<lambda>pg.
          if pg = 0 then kthen (uvmdealloc pagetable a oldsz) (kreturn 0)
          else kthen (fill_page pg 0)
            (kbind (mappages pagetable a PGSIZE pg (PTE_W OR PTE_X OR PTE_R OR PTE_U)) (\<lambda>r.
              if r \<noteq> 0 then
                kthen (kfree pg) (kthen (uvmdealloc pagetable a oldsz) (kreturn 0))
              else uvmalloc_loop pagetable oldsz newsz (a + PGSIZE)))) s
      else Ret newsz s)"
  by pat_completeness auto
termination
  by (relation "measure (\<lambda>(pagetable, oldsz, newsz, a, s). unat MAXVA - unat a)")
    (simp, simp only: in_measure prod.case, erule next_page_progress [OF mappages_Ret_bound])

definition uvmalloc :: "u64 \<Rightarrow> u64 \<Rightarrow> u64 \<Rightarrow> (u64, 'z kmem_scheme) kop" where
  "uvmalloc pagetable oldsz newsz =
     (if newsz < oldsz then kreturn oldsz
      else uvmalloc_loop pagetable (PGROUNDUP oldsz) newsz (PGROUNDUP oldsz))"

text \<open>
  \<open>freewalk\<close> recurses once per level; a page table has three. The number allows for that depth: an
  entry that still points to a table below the third level gives \<open>Diverge\<close>.
\<close>

definition freewalk_entry :: "(u64 \<Rightarrow> (unit, 'z kmem_scheme) kop) \<Rightarrow> u64 \<Rightarrow> nat \<Rightarrow> (unit, 'z kmem_scheme) kop" where
  "freewalk_entry free pagetable i =
     (let a = pagetable + 8 * of_nat i in
      kbind (read_pte a) (\<lambda>pte.
        if pte AND PTE_V \<noteq> 0 \<and> pte AND (PTE_R OR PTE_W OR PTE_X) = 0 then
          kthen (free (PTE2PA pte)) (write_pte a 0)
        else kpanic_if (pte AND PTE_V \<noteq> 0) ''freewalk: leaf''))"

primrec freewalk :: "nat \<Rightarrow> u64 \<Rightarrow> (unit, 'z kmem_scheme) kop" where
  "freewalk 0 pagetable = kdiverge"
| "freewalk (Suc n) pagetable =
     kthen (kfor [0..<512] (freewalk_entry (freewalk n) pagetable)) (kfree pagetable)"

definition uvmfree :: "u64 \<Rightarrow> u64 \<Rightarrow> (unit, 'z kmem_scheme) kop" where
  "uvmfree pagetable sz =
     kthen (kwhen (sz > 0) (uvmunmap pagetable 0 (PGROUNDUP sz div PGSIZE) True))
       (freewalk 3 pagetable)"

function uvmcopy_loop :: "u64 \<Rightarrow> u64 \<Rightarrow> u64 \<Rightarrow> u64 \<Rightarrow> (int, 'z kmem_scheme) kop" where
  "uvmcopy_loop old new sz i s =
     (if i < sz then
        kbind (walk old i False) (\<lambda>pte.
          if pte = 0 then kpanic ''uvmcopy: pte should exist''
          else kbind (read_pte pte) (\<lambda>e.
            if e AND PTE_V = 0 then kpanic ''uvmcopy: page not present''
            else kbind kalloc (\<lambda>pg.
              if pg = 0 then kthen (uvmunmap new 0 (i div PGSIZE) True) (kreturn (- 1))
              else kthen (kmodify (\<lambda>s. s\<lparr>mem := memmove (mem s) pg (PTE2PA e) 4096\<rparr>))
                (kbind (mappages new i PGSIZE pg (PTE_FLAGS e)) (\<lambda>r.
                  if r \<noteq> 0 then
                    kthen (kfree pg) (kthen (uvmunmap new 0 (i div PGSIZE) True) (kreturn (- 1)))
                  else uvmcopy_loop old new sz (i + PGSIZE)))))) s
      else Ret 0 s)"
  by pat_completeness auto
termination
  by (relation "measure (\<lambda>(old, new, sz, i, s). unat MAXVA - unat i)")
    (simp, simp only: in_measure prod.case, erule next_page_progress [OF walk_Ret_bound])

definition uvmcopy :: "u64 \<Rightarrow> u64 \<Rightarrow> u64 \<Rightarrow> (int, 'z kmem_scheme) kop" where
  "uvmcopy old new sz = uvmcopy_loop old new sz 0"

definition uvmclear :: "u64 \<Rightarrow> u64 \<Rightarrow> (unit, 'z kmem_scheme) kop" where
  "uvmclear pagetable va = kbind (walk pagetable va False) (\<lambda>pte.
     if pte = 0 then kpanic ''uvmclear''
     else kbind (read_pte pte) (\<lambda>e. write_pte pte (e AND NOT PTE_U)))"

section \<open>Copying between kernel and user\<close>

text \<open>The bytes of one chunk: up to the end of the page of \<open>va\<close>, and at most \<open>len\<close>.\<close>

definition chunk :: "u64 \<Rightarrow> u64 \<Rightarrow> u64" where
  "chunk va len = (let n = PGSIZE - (va - PGROUNDDOWN va) in if n > len then len else n)"

lemma chunk_bounds:
  assumes "len > 0"
  shows "0 < chunk va len" "chunk va len \<le> len" "unat (va - PGROUNDDOWN va) + unat (chunk va len) \<le> 4096"
proof -
  have off: "unat (va - PGROUNDDOWN va) < 4096" by (simp add: in_page_iff)
  then have "va - PGROUNDDOWN va \<le> PGSIZE" by (simp add: word_le_nat_alt)
  then have n: "unat (PGSIZE - (va - PGROUNDDOWN va)) = 4096 - unat (va - PGROUNDDOWN va)"
    by (simp add: unat_sub)
  show "0 < chunk va len" "chunk va len \<le> len" "unat (va - PGROUNDDOWN va) + unat (chunk va len) \<le> 4096"
    using assms off n by (auto simp: chunk_def Let_def word_less_nat_alt word_le_nat_alt not_less)
qed

lemma chunk_progress: "len > 0 \<Longrightarrow> unat (len - chunk va len) < unat len"
  using chunk_bounds [of len va] by (simp add: unat_sub word_less_nat_alt word_le_nat_alt)

function copyout :: "u64 \<Rightarrow> u64 \<Rightarrow> u8 list \<Rightarrow> u64 \<Rightarrow> (int, 'z kmem_scheme) kop" where
  "copyout pagetable dstva src len s =
     (if len > 0 then
        (let va0 = PGROUNDDOWN dstva; n = chunk dstva len in
         kbind (walkaddr pagetable va0) (\<lambda>pa0.
           if pa0 = 0 then kreturn (- 1)
           else kthen (kmodify (\<lambda>s. s\<lparr>mem := bytes_put (mem s) (pa0 + (dstva - va0)) (take (unat n) src)\<rparr>))
             (copyout pagetable (va0 + PGSIZE) (drop (unat n) src) (len - n))) s)
      else Ret 0 s)"
  by pat_completeness auto
termination
  by (relation "measure (\<lambda>(pagetable, dstva, src, len, s). unat len)")
    (simp, simp only: in_measure prod.case chunk_progress)

text \<open>The result carries the bytes written to the kernel buffer, also when the copy fails part-way.\<close>

function copyin :: "u64 \<Rightarrow> u64 \<Rightarrow> u64 \<Rightarrow> (int \<times> u8 list, 'z kmem_scheme) kop" where
  "copyin pagetable srcva len s =
     (if len > 0 then
        (let va0 = PGROUNDDOWN srcva; n = chunk srcva len in
         kbind (walkaddr pagetable va0) (\<lambda>pa0.
           if pa0 = 0 then kreturn (- 1, [])
           else kbind (kget (\<lambda>s. bytes_of (mem s) (pa0 + (srcva - va0)) (unat n))) (\<lambda>bs.
             kbind (copyin pagetable (va0 + PGSIZE) (len - n)) (\<lambda>(r, rest).
               kreturn (r, bs @ rest)))) s)
      else Ret (0, []) s)"
  by pat_completeness auto
termination
  by (relation "measure (\<lambda>(pagetable, srcva, len, s). unat len)")
    (simp, simp only: in_measure prod.case chunk_progress)

text \<open>The inner loop of \<open>copyinstr\<close>: the bytes copied from one page, and whether they end in the NUL.\<close>

fun copystr :: "mem \<Rightarrow> u64 \<Rightarrow> nat \<Rightarrow> u8 list \<times> bool" where
  "copystr m p 0 = ([], False)"
| "copystr m p (Suc n) =
     (if m p = 0 then ([0], True)
      else (case copystr m (p + 1) n of (bs, got_null) \<Rightarrow> (m p # bs, got_null)))"

function copyinstr :: "u64 \<Rightarrow> u64 \<Rightarrow> u64 \<Rightarrow> (int \<times> u8 list, 'z kmem_scheme) kop" where
  "copyinstr pagetable srcva mx s =
     (if mx > 0 then
        (let va0 = PGROUNDDOWN srcva; n = chunk srcva mx in
         kbind (walkaddr pagetable va0) (\<lambda>pa0.
           if pa0 = 0 then kreturn (- 1, [])
           else kbind (kget (\<lambda>s. copystr (mem s) (pa0 + (srcva - va0)) (unat n))) (\<lambda>(bs, got_null).
             if got_null then kreturn (0, bs)
             else kbind (copyinstr pagetable (va0 + PGSIZE) (mx - n)) (\<lambda>(r, rest).
               kreturn (r, bs @ rest)))) s)
      else Ret (- 1, []) s)"
  by pat_completeness auto
termination
  by (relation "measure (\<lambda>(pagetable, srcva, mx, s). unat mx)")
    (simp, simp only: in_measure prod.case chunk_progress)

lemmas vm_loops = mappages_loop.simps uvmunmap_loop.simps uvmalloc_loop.simps uvmcopy_loop.simps
  copyout.simps copyin.simps copyinstr.simps

declare vm_loops [simp del]

end
