(* ===== verification/Vm_Tables.thy ===== *)
theory Vm_Tables
  imports Vm
begin

text \<open>
  Page tables as trees, and what \<open>walk\<close> (src/kernel/vm.c) does to them. \<open>lookups m l pt va\<close> is the translation
  the hardware performs: the leaf entry reached from the level-\<open>l\<close> table \<open>pt\<close>, or 0. \<open>tpages\<close> is the
  set of pages the tables occupy, and \<open>twf\<close> says that they form a tree, so that no store to one table
  is seen through another.
\<close>

section \<open>Page tables as trees\<close>

definition entry :: "mem \<Rightarrow> u64 \<Rightarrow> nat \<Rightarrow> u64" where
  "entry m pt i = load64 m (pt + 8 * of_nat i)"

definition valid :: "u64 \<Rightarrow> bool" where
  "valid e \<longleftrightarrow> e AND PTE_V \<noteq> 0"

definition idx :: "nat \<Rightarrow> u64 \<Rightarrow> nat" where
  "idx l va = unat (PX l va)"

lemma idx_bound [simp]: "idx l va < 512"
  by (simp add: idx_def PX_bound)

lemma pte_addr_idx: "pte_addr pt l va = pt + 8 * of_nat (idx l va)"
  by (simp add: pte_addr_def idx_def)

fun lookups :: "mem \<Rightarrow> nat \<Rightarrow> u64 \<Rightarrow> u64 \<Rightarrow> u64" where
  "lookups m 0 pt va = entry m pt (idx 0 va)"
| "lookups m (Suc l) pt va =
     (let e = entry m pt (idx (Suc l) va) in if valid e then lookups m l (PTE2PA e) va else 0)"

fun leaf_addr :: "mem \<Rightarrow> nat \<Rightarrow> u64 \<Rightarrow> u64 \<Rightarrow> u64 option" where
  "leaf_addr m 0 pt va = Some (pte_addr pt 0 va)"
| "leaf_addr m (Suc l) pt va =
     (let e = entry m pt (idx (Suc l) va) in if valid e then leaf_addr m l (PTE2PA e) va else None)"

fun tpages :: "mem \<Rightarrow> nat \<Rightarrow> u64 \<Rightarrow> u64 set" where
  "tpages m 0 pt = {pt}"
| "tpages m (Suc l) pt =
     insert pt (\<Union>i \<in> {i. i < 512 \<and> valid (entry m pt i)}. tpages m l (PTE2PA (entry m pt i)))"

fun twf :: "mem \<Rightarrow> nat \<Rightarrow> u64 \<Rightarrow> bool" where
  "twf m 0 pt \<longleftrightarrow> page_aligned pt"
| "twf m (Suc l) pt \<longleftrightarrow> page_aligned pt \<and>
     (\<forall>i < 512. valid (entry m pt i) \<longrightarrow>
        twf m l (PTE2PA (entry m pt i)) \<and> pt \<notin> tpages m l (PTE2PA (entry m pt i))) \<and>
     (\<forall>i < 512. \<forall>j < 512. i \<noteq> j \<and> valid (entry m pt i) \<and> valid (entry m pt j) \<longrightarrow>
        tpages m l (PTE2PA (entry m pt i)) \<inter> tpages m l (PTE2PA (entry m pt j)) = {})"

lemma twf_aligned: "twf m l pt \<Longrightarrow> page_aligned pt"
  by (cases l) auto

lemma root_in_tpages [simp]: "pt \<in> tpages m l pt"
  by (cases l) auto

lemma entry_same:
  "same_pages P m m' \<Longrightarrow> pt \<in> P \<Longrightarrow> page_aligned pt \<Longrightarrow> i < 512 \<Longrightarrow> entry m' pt i = entry m pt i"
  by (simp add: entry_def same_pages_load64)

lemma tables_same:
  assumes "same_pages (tpages m l pt) m m'" "twf m l pt"
  shows "tpages m' l pt = tpages m l pt" "twf m' l pt"
    "lookups m' l pt va = lookups m l pt va" "leaf_addr m' l pt va = leaf_addr m l pt va"
proof -
  have "tpages m' l pt = tpages m l pt \<and> twf m' l pt \<and>
      lookups m' l pt va = lookups m l pt va \<and> leaf_addr m' l pt va = leaf_addr m l pt va"
    using assms
  proof (induction l arbitrary: pt)
    case 0
    then show ?case by (simp add: entry_same [OF 0(1)])
  next
    case (Suc l)
    have e: "entry m' pt i = entry m pt i" if "i < 512" for i
      using entry_same [OF Suc.prems(1)] that twf_aligned [OF Suc.prems(2)] by simp
    have IH: "tpages m' l (PTE2PA (entry m pt i)) = tpages m l (PTE2PA (entry m pt i)) \<and>
        twf m' l (PTE2PA (entry m pt i)) \<and>
        lookups m' l (PTE2PA (entry m pt i)) va = lookups m l (PTE2PA (entry m pt i)) va \<and>
        leaf_addr m' l (PTE2PA (entry m pt i)) va = leaf_addr m l (PTE2PA (entry m pt i)) va"
      if "i < 512" "valid (entry m pt i)" for i
    proof (rule Suc.IH)
      show "same_pages (tpages m l (PTE2PA (entry m pt i))) m m'"
        using Suc.prems(1) by (rule same_pages_mono) (use that in auto)
      show "twf m l (PTE2PA (entry m pt i))" using Suc.prems(2) that by simp
    qed
    show ?case
    proof (intro conjI)
      show "tpages m' (Suc l) pt = tpages m (Suc l) pt" using e IH by auto
      show "twf m' (Suc l) pt" using Suc.prems(2) e IH by simp
    qed (use e IH in \<open>simp_all add: Let_def\<close>)
  qed
  then show "tpages m' l pt = tpages m l pt" "twf m' l pt"
    "lookups m' l pt va = lookups m l pt va" "leaf_addr m' l pt va = leaf_addr m l pt va" by auto
qed

lemma tables_zero:
  assumes "page_aligned pt" "\<And>i. i < 512 \<Longrightarrow> entry m pt i = 0"
  shows "tpages m l pt = {pt}" "twf m l pt" "lookups m l pt va = 0"
  using assms by (cases l; simp add: valid_def Let_def)+

text \<open>A store to the leaf entry of \<open>va\<close> changes the translation of its page only.\<close>

lemma leaf_addr_page:
  assumes "leaf_addr m l pt va = Some r" "twf m l pt"
  shows "\<exists>p \<in> tpages m l pt. page_aligned p \<and> r = p + 8 * of_nat (idx 0 va)"
  using assms
proof (induction l arbitrary: pt)
  case (Suc l)
  let ?e = "entry m pt (idx (Suc l) va)"
  have e: "valid ?e" "leaf_addr m l (PTE2PA ?e) va = Some r"
    using Suc.prems(1) by (auto simp: Let_def split: if_splits)
  moreover have "twf m l (PTE2PA ?e)" using Suc.prems(2) e(1) by simp
  ultimately have "\<exists>p \<in> tpages m l (PTE2PA ?e). page_aligned p \<and> r = p + 8 * of_nat (idx 0 va)"
    by (intro Suc.IH)
  moreover have "tpages m l (PTE2PA ?e) \<subseteq> tpages m (Suc l) pt"
    using e(1) by auto
  ultimately show ?case by blast
qed (auto simp: pte_addr_idx)

lemma leaf_addr_lookups:
  "leaf_addr m l pt va = Some r \<Longrightarrow> lookups m l pt va = load64 m r"
  by (induction l arbitrary: pt) (auto simp: entry_def pte_addr_idx Let_def split: if_splits)

lemma leaf_addr_None: "leaf_addr m l pt va = None \<Longrightarrow> lookups m l pt va = 0"
  by (induction l arbitrary: pt) (auto simp: Let_def split: if_splits)

definition child :: "mem \<Rightarrow> nat \<Rightarrow> u64 \<Rightarrow> nat \<Rightarrow> u64 set" where
  "child m l pt i = (if valid (entry m pt i) then tpages m l (PTE2PA (entry m pt i)) else {})"

lemma tpages_child: "tpages m (Suc l) pt = insert pt (\<Union>i < 512. child m l pt i)"
  by (auto simp: child_def)

lemma twf_child: "twf m (Suc l) pt \<longleftrightarrow> page_aligned pt \<and>
   (\<forall>i < 512. (valid (entry m pt i) \<longrightarrow> twf m l (PTE2PA (entry m pt i))) \<and> pt \<notin> child m l pt i) \<and>
   (\<forall>i < 512. \<forall>j < 512. i \<noteq> j \<longrightarrow> child m l pt i \<inter> child m l pt j = {})"
  by (auto simp: child_def)

lemma twf_subtree:
  "twf m (Suc l) pt \<Longrightarrow> i < 512 \<Longrightarrow> valid (entry m pt i) \<Longrightarrow>
   twf m l (PTE2PA (entry m pt i)) \<and> pt \<notin> tpages m l (PTE2PA (entry m pt i))"
  by simp

lemma twf_disjoint:
  "twf m (Suc l) pt \<Longrightarrow> i < 512 \<Longrightarrow> j < 512 \<Longrightarrow> i \<noteq> j \<Longrightarrow> child m l pt i \<inter> child m l pt j = {}"
  unfolding twf_child by blast

declare tpages.simps(2) [simp del] twf.simps(2) [simp del]

text \<open>Replacing or changing one subtree, in pages of that subtree and in pages \<open>F\<close> that no table uses.\<close>

lemma child_update:
  assumes wf: "twf m (Suc l) pt" and i: "i < 512"
    and others: "\<And>j. j < 512 \<Longrightarrow> j \<noteq> i \<Longrightarrow> entry m' pt j = entry m pt j \<and> same_pages (child m l pt j) m m'"
    and new: "valid (entry m' pt i)" "twf m' l (PTE2PA (entry m' pt i))"
    and sub: "tpages m' l (PTE2PA (entry m' pt i)) \<subseteq> child m l pt i \<union> F"
    and F: "F \<inter> tpages m (Suc l) pt = {}"
  shows "twf m' (Suc l) pt"
    and "tpages m' (Suc l) pt =
      insert pt (\<Union>j \<in> {..<512} - {i}. child m l pt j) \<union> tpages m' l (PTE2PA (entry m' pt i))"
    and "lookups m' (Suc l) pt va =
      (if idx (Suc l) va = i then lookups m' l (PTE2PA (entry m' pt i)) va else lookups m (Suc l) pt va)"
proof -
  let ?c = "PTE2PA (entry m' pt i)"
  have j: "child m' l pt j = child m l pt j \<and> (valid (entry m pt j) \<longrightarrow> twf m' l (PTE2PA (entry m pt j)) \<and>
      lookups m' l (PTE2PA (entry m pt j)) va = lookups m l (PTE2PA (entry m pt j)) va)"
    if "j < 512" "j \<noteq> i" for j
  proof (cases "valid (entry m pt j)")
    case True
    then have w: "twf m l (PTE2PA (entry m pt j))" using twf_subtree [OF wf that(1)] by blast
    have s: "same_pages (tpages m l (PTE2PA (entry m pt j))) m m'"
      using others [OF that] True by (simp add: child_def)
    show ?thesis using tables_same [OF s w] others [OF that] True by (simp add: child_def)
  qed (use others [OF that] in \<open>simp add: child_def\<close>)
  have ci: "child m' l pt i = tpages m' l ?c" using new by (simp add: child_def)
  have wfm: "page_aligned pt" "\<And>a. a < 512 \<Longrightarrow> pt \<notin> child m l pt a"
    "\<And>a b. a < 512 \<Longrightarrow> b < 512 \<Longrightarrow> a \<noteq> b \<Longrightarrow> child m l pt a \<inter> child m l pt b = {}"
    using wf unfolding twf_child by blast+
  have Fpt: "pt \<notin> F" "\<And>a. a < 512 \<Longrightarrow> F \<inter> child m l pt a = {}"
    using F by (auto simp: tpages_child)
  have notin: "pt \<notin> tpages m' l ?c" using sub wfm(2) [OF i] Fpt(1) by blast
  have disj: "tpages m' l ?c \<inter> child m l pt a = {}" if "a < 512" "a \<noteq> i" for a
    using sub wfm(3) [OF i that(1)] Fpt(2) [OF that(1)] that(2) by blast
  show "twf m' (Suc l) pt"
    unfolding twf_child
  proof (intro conjI allI impI)
    fix a assume a: "a < (512 :: nat)"
    show "valid (entry m' pt a) \<Longrightarrow> twf m' l (PTE2PA (entry m' pt a))"
      using new j [OF a] others [OF a] by (cases "a = i") auto
    show "pt \<notin> child m' l pt a"
      using notin ci j [OF a] wfm(2) [OF a] by (cases "a = i") auto
    fix b assume b: "b < (512 :: nat)" "a \<noteq> b"
    show "child m' l pt a \<inter> child m' l pt b = {}"
      using ci j [OF a] j [OF b(1)] wfm(3) [OF a b] disj [OF a] disj [OF b(1)] b(2)
      by (cases "a = i"; cases "b = i") auto
  qed (rule wfm)
  have "(\<Union>j < 512. child m' l pt j) = (\<Union>j \<in> {..<512} - {i}. child m l pt j) \<union> tpages m' l ?c"
    using ci j i by fastforce
  then show "tpages m' (Suc l) pt =
      insert pt (\<Union>j \<in> {..<512} - {i}. child m l pt j) \<union> tpages m' l ?c"
    by (simp add: tpages_child)
  show "lookups m' (Suc l) pt va =
      (if idx (Suc l) va = i then lookups m' l ?c va else lookups m (Suc l) pt va)"
    using new(1) j [of "idx (Suc l) va"] others [of "idx (Suc l) va"] by (simp add: Let_def)
qed

lemma entry_store:
  assumes "page_aligned p" "i < 512" "page_aligned q" "j < 512"
  shows "entry (store64 m (p + 8 * of_nat i) v) q j = (if p = q \<and> i = j then v else entry m q j)"
  using load_store64_other [OF assms] by (auto simp: entry_def)

lemma leaf_store:
  assumes "leaf_addr m l pt va = Some r" "twf m l pt"
  shows "twf (store64 m r v) l pt" "tpages (store64 m r v) l pt = tpages m l pt"
    "lookups (store64 m r v) l pt vb =
      (if \<forall>k \<le> l. idx k vb = idx k va then v else lookups m l pt vb)"
proof -
  have "twf (store64 m r v) l pt \<and> tpages (store64 m r v) l pt = tpages m l pt \<and>
    lookups (store64 m r v) l pt vb = (if \<forall>k \<le> l. idx k vb = idx k va then v else lookups m l pt vb)"
    using assms
  proof (induction l arbitrary: pt)
    case 0
    then show ?case by (auto simp: pte_addr_idx entry_store)
  next
    case (Suc l)
    let ?i = "idx (Suc l) va" and ?m = "store64 m r v"
    let ?c = "PTE2PA (entry m pt ?i)"
    have e: "valid (entry m pt ?i)" "leaf_addr m l ?c va = Some r"
      using Suc.prems(1) by (auto simp: Let_def split: if_splits)
    have al: "page_aligned pt" using Suc.prems(2) by (rule twf_aligned)
    have c: "twf m l ?c" "pt \<notin> tpages m l ?c"
      using twf_subtree [OF Suc.prems(2) idx_bound e(1)] by auto
    obtain p where p: "p \<in> tpages m l ?c" "page_aligned p" "r = p + 8 * of_nat (idx 0 va)"
      using leaf_addr_page [OF e(2) c(1)] by blast
    have ent: "entry ?m pt j = entry m pt j" if "j < 512" for j
      using that p al c(2) by (auto simp: entry_store)
    have IH: "twf ?m l ?c" "tpages ?m l ?c = tpages m l ?c"
      "lookups ?m l ?c vb = (if \<forall>k \<le> l. idx k vb = idx k va then v else lookups m l ?c vb)"
      using Suc.IH [OF e(2) c(1)] by auto
    have others: "entry ?m pt j = entry m pt j \<and> same_pages (child m l pt j) m ?m"
      if "j < 512" "j \<noteq> ?i" for j
    proof -
      have "p \<notin> child m l pt j"
        using twf_disjoint [OF Suc.prems(2) idx_bound [of "Suc l" va] that(1)] that(2) p(1) e(1)
        by (auto simp: child_def)
      then show ?thesis
        using ent [OF that(1)] p(2,3) by (auto intro: same_pages_store)
    qed
    note upd = child_update [OF Suc.prems(2) idx_bound others, where F = "{}", unfolded ent [OF idx_bound],
        OF _ _ e(1) IH(1)]
    have "twf ?m (Suc l) pt" "tpages ?m (Suc l) pt = tpages m (Suc l) pt"
      "lookups ?m (Suc l) pt vb = (if idx (Suc l) vb = ?i then lookups ?m l ?c vb else lookups m (Suc l) pt vb)"
      using upd e(1) IH(2) by (auto simp: child_def tpages_child)
    moreover have "(\<forall>k \<le> Suc l. idx k vb = idx k va) \<longleftrightarrow>
        idx (Suc l) vb = ?i \<and> (\<forall>k \<le> l. idx k vb = idx k va)"
      by (auto simp: le_Suc_eq)
    ultimately show ?case
      using IH(3) e(1) by (auto simp: Let_def)
  qed
  then show "twf (store64 m r v) l pt" "tpages (store64 m r v) l pt = tpages m l pt"
    "lookups (store64 m r v) l pt vb = (if \<forall>k \<le> l. idx k vb = idx k va then v else lookups m l pt vb)"
    by auto
qed

section \<open>walk\<close>

lemma walk_loop_find:
  "walk_loop pt va False l s = Ret (case leaf_addr (mem s) l pt va of None \<Rightarrow> 0 | Some r \<Rightarrow> r) s"
  by (induction l arbitrary: pt)
    (simp_all add: kexec read_pte_def entry_def valid_def pte_addr_idx Let_def)

text \<open>
  \<open>ptab s ps l pt\<close>: the tables below \<open>pt\<close> form a tree in usable pages, none of them on the free list
  \<open>ps\<close>. \<open>walked\<close>: tables were only added, in pages taken from the free list, and no translation changed.
\<close>

definition ptab :: "'z kmem_scheme \<Rightarrow> u64 list \<Rightarrow> nat \<Rightarrow> u64 \<Rightarrow> bool" where
  "ptab s ps l pt \<longleftrightarrow> KmemLock \<notin> held s \<and> free_list s ps \<and> twf (mem s) l pt \<and>
     (\<forall>p \<in> tpages (mem s) l pt. page_ok s p) \<and> set ps \<inter> tpages (mem s) l pt = {}"

definition walked :: "u64 list \<Rightarrow> mem \<Rightarrow> nat \<Rightarrow> u64 \<Rightarrow> mem \<Rightarrow> u64 list \<Rightarrow> bool" where
  "walked ps m l pt m' qs \<longleftrightarrow> set qs \<subseteq> set ps \<and>
     tpages m l pt \<subseteq> tpages m' l pt \<and> tpages m' l pt \<subseteq> tpages m l pt \<union> (set ps - set qs) \<and>
     (\<forall>va. lookups m' l pt va = lookups m l pt va) \<and>
     same_pages (- (tpages m l pt \<union> (set ps - set qs))) m m'"

definition walk_post :: "u64 list \<Rightarrow> 'z kmem_scheme \<Rightarrow> nat \<Rightarrow> u64 \<Rightarrow> u64 \<Rightarrow> u64 \<Rightarrow> 'z kmem_scheme \<Rightarrow> bool" where
  "walk_post ps s l pt va r t \<longleftrightarrow> mem_only s t \<and>
     (\<exists>qs. ptab t qs l pt \<and> walked ps (mem s) l pt (mem t) qs \<and>
        (if r = 0 then qs = [] else leaf_addr (mem t) l pt va = Some r))"

lemma walked_refl [simp]: "walked ps m l pt m ps"
  by (simp add: walked_def)

lemma pte_nonzero:
  assumes "free_list s ps" "page_ok s p" "i < 512"
  shows "p + 8 * of_nat i \<noteq> 0"
proof -
  have "unat (p + of_nat (8 * i)) = unat p + 8 * i"
    using assms(2,3) by (intro unat_in_page) (auto simp: page_ok_def)
  moreover have "unat p \<noteq> 0"
    using assms(1,2) page_ok_nonzero [of s p] by (auto simp: free_list_def unat_eq_0)
  ultimately show ?thesis by (auto simp: word_unat_eq_iff)
qed

lemma leaf_addr_nonzero:
  assumes "ptab s ps l pt" "leaf_addr (mem s) l pt va = Some r"
  shows "r \<noteq> 0"
  using leaf_addr_page [OF assms(2)] assms(1) pte_nonzero [of s ps]
  by (auto simp: ptab_def)

lemma walk_find:
  assumes "ptab s ps 2 pt" "va < MAXVA"
  shows "walk pt va False s = Ret (case leaf_addr (mem s) 2 pt va of None \<Rightarrow> 0 | Some r \<Rightarrow> r) s"
  using assms by (simp add: walk_def walk_loop_find not_le [symmetric])

lemma ptab_child:
  assumes "ptab s ps (Suc l) pt" "i < 512" "valid (entry (mem s) pt i)"
  shows "ptab s ps l (PTE2PA (entry (mem s) pt i))"
proof -
  have "tpages (mem s) l (PTE2PA (entry (mem s) pt i)) \<subseteq> tpages (mem s) (Suc l) pt"
    using assms(2,3) by (auto simp: tpages.simps)
  then show ?thesis
    using assms twf_subtree [of "mem s" l pt i] unfolding ptab_def by blast
qed

text \<open>Growing the subtree below entry \<open>i\<close> of \<open>pt\<close> grows the tree at \<open>pt\<close>.\<close>

lemma grow_child:
  assumes pt: "ptab s ps (Suc l) pt" and i: "i < 512"
    and st: "mem_only s t" and sub: "ptab t qs l c" and qs: "set qs \<subseteq> set ps"
    and c: "entry (mem t) pt i = e" "valid e" "c = PTE2PA e"
    and ents: "\<And>j. j < 512 \<Longrightarrow> j \<noteq> i \<Longrightarrow> entry (mem t) pt j = entry (mem s) pt j"
    and same: "same_pages (- insert pt (child (mem s) l pt i \<union> (set ps - set qs))) (mem s) (mem t)"
    and old: "child (mem s) l pt i \<subseteq> tpages (mem t) l c"
    and new: "tpages (mem t) l c \<subseteq> child (mem s) l pt i \<union> (set ps - set qs)"
    and trans: "\<And>va. idx (Suc l) va = i \<Longrightarrow> lookups (mem t) l c va = lookups (mem s) (Suc l) pt va"
  shows "ptab t qs (Suc l) pt \<and> walked ps (mem s) (Suc l) pt (mem t) qs"
proof -
  let ?F = "set ps - set qs"
  have wf: "twf (mem s) (Suc l) pt" and free: "set ps \<inter> tpages (mem s) (Suc l) pt = {}"
    and ok: "\<forall>p \<in> tpages (mem s) (Suc l) pt. page_ok s p" and flp: "free_list s ps"
    using pt by (auto simp: ptab_def)
  have F: "?F \<inter> tpages (mem s) (Suc l) pt = {}" using free by blast
  have sp: "same_pages (child (mem s) l pt j) (mem s) (mem t)" if "j < 512" "j \<noteq> i" for j
  proof (rule same_pages_mono [OF same])
    have "pt \<notin> child (mem s) l pt j" using wf that unfolding twf_child by blast
    moreover have "child (mem s) l pt j \<inter> child (mem s) l pt i = {}"
      using twf_disjoint [OF wf that(1) i that(2)] .
    moreover have "child (mem s) l pt j \<subseteq> tpages (mem s) (Suc l) pt"
      using that by (auto simp: tpages_child)
    ultimately show "child (mem s) l pt j \<subseteq> - insert pt (child (mem s) l pt i \<union> ?F)"
      using F by blast
  qed
  have sub': "twf (mem t) l c" "free_list t qs" "\<forall>p \<in> tpages (mem t) l c. page_ok t p"
      "set qs \<inter> tpages (mem t) l c = {}" "KmemLock \<notin> held t"
    using sub by (auto simp: ptab_def)
  have others: "entry (mem t) pt j = entry (mem s) pt j \<and> same_pages (child (mem s) l pt j) (mem s) (mem t)"
    if "j < 512" "j \<noteq> i" for j
    using sp [OF that] ents [OF that] by simp
  have nw: "valid (entry (mem t) pt i)" "twf (mem t) l (PTE2PA (entry (mem t) pt i))"
    "tpages (mem t) l (PTE2PA (entry (mem t) pt i)) \<subseteq> child (mem s) l pt i \<union> ?F"
    using c sub'(1) new by simp_all
  note upd = child_update [OF wf i _ nw F, unfolded c(1), folded c(3)]
  have wf': "twf (mem t) (Suc l) pt" by (rule upd(1)) (rule others)
  have tp: "tpages (mem t) (Suc l) pt =
      insert pt (\<Union>j \<in> {..<512} - {i}. child (mem s) l pt j) \<union> tpages (mem t) l c"
    by (rule upd(2)) (rule others)
  have lk: "lookups (mem t) (Suc l) pt va =
      (if idx (Suc l) va = i then lookups (mem t) l c va else lookups (mem s) (Suc l) pt va)" for va
    by (rule upd(3)) (rule others)
  have ts: "tpages (mem s) (Suc l) pt =
      insert pt (\<Union>j \<in> {..<512} - {i}. child (mem s) l pt j) \<union> child (mem s) l pt i"
    using i by (auto simp: tpages_child)
  have up: "tpages (mem s) (Suc l) pt \<subseteq> tpages (mem t) (Suc l) pt"
    unfolding ts tp using old by (rule Un_mono [OF subset_refl])
  have down: "tpages (mem t) (Suc l) pt \<subseteq> tpages (mem s) (Suc l) pt \<union> ?F"
    unfolding ts tp Un_assoc using new by (rule Un_mono [OF subset_refl])
  have "same_pages (- (tpages (mem s) (Suc l) pt \<union> ?F)) (mem s) (mem t)"
    by (rule same_pages_mono [OF same]) (use i in \<open>auto simp: tpages_child\<close>)
  moreover have "\<forall>p \<in> ?F. page_ok t p"
    using flp mem_only_fields(3) [OF st] by (auto simp: free_list_def)
  then have "\<forall>p \<in> tpages (mem t) (Suc l) pt. page_ok t p"
    using down ok mem_only_fields(3) [OF st] by auto
  moreover have "set qs \<inter> tpages (mem t) (Suc l) pt = {}"
    using down qs free by blast
  ultimately show ?thesis
    using wf' up down lk trans sub'(2,5) qs unfolding ptab_def walked_def by simp
qed

lemma walk_post_child:
  assumes pt: "ptab s ps (Suc l) pt" and v: "valid (entry (mem s) pt (idx (Suc l) va))"
    and post: "walk_post ps s l (PTE2PA (entry (mem s) pt (idx (Suc l) va))) va r t"
  shows "walk_post ps s (Suc l) pt va r t"
proof -
  let ?i = "idx (Suc l) va"
  let ?e = "entry (mem s) pt ?i"
  obtain qs where st: "mem_only s t" and q: "ptab t qs l (PTE2PA ?e)"
    and w: "walked ps (mem s) l (PTE2PA ?e) (mem t) qs"
    and r: "if r = 0 then qs = [] else leaf_addr (mem t) l (PTE2PA ?e) va = Some r"
    using post by (auto simp: walk_post_def)
  have ch: "child (mem s) l pt ?i = tpages (mem s) l (PTE2PA ?e)" using v by (simp add: child_def)
  have same: "same_pages (- (tpages (mem s) l (PTE2PA ?e) \<union> (set ps - set qs))) (mem s) (mem t)"
    using w by (simp add: walked_def)
  have wf: "twf (mem s) (Suc l) pt" using pt by (simp add: ptab_def)
  have "pt \<notin> tpages (mem s) l (PTE2PA ?e)" using twf_subtree [OF wf idx_bound v] by simp
  moreover have "pt \<notin> set ps" using pt root_in_tpages by (auto simp: ptab_def)
  ultimately have ent: "entry (mem t) pt j = entry (mem s) pt j" if "j < 512" for j
    using that entry_same [OF same, of pt] twf_aligned [OF wf] by simp
  have "ptab t qs (Suc l) pt \<and> walked ps (mem s) (Suc l) pt (mem t) qs"
  proof (rule grow_child [OF pt idx_bound st q _ ent [OF idx_bound] v refl])
    show "same_pages (- insert pt (child (mem s) l pt ?i \<union> (set ps - set qs))) (mem s) (mem t)"
      unfolding ch by (rule same_pages_mono [OF same]) blast
    show "lookups (mem t) l (PTE2PA ?e) vb = lookups (mem s) (Suc l) pt vb"
      if "idx (Suc l) vb = ?i" for vb
      using w v that by (simp add: walked_def)
  qed (use w ent in \<open>auto simp: walked_def ch\<close>)
  moreover have "leaf_addr (mem t) (Suc l) pt va = leaf_addr (mem t) l (PTE2PA ?e) va"
    using ent v by simp
  ultimately show ?thesis using st r by (auto simp: walk_post_def)
qed

lemma zero_page_entry:
  assumes "page_aligned q" "i < 512"
  shows "entry (bytes_put m q (replicate 4096 0)) q i = 0"
proof -
  have "load64 (bytes_put m q (replicate 4096 0)) (q + 8 * of_nat i) = load64 (\<lambda>_. 0) (q + 8 * of_nat i)"
  proof (rule load64_cong)
    fix k :: nat assume "k < 8"
    then have "PGROUNDDOWN (mem_at q (8 * i + k)) = q" using assms by simp
    moreover from this have "unat (mem_at q (8 * i + k) - q) < 4096"
      using assms(1) by (simp add: in_page_iff)
    ultimately show "bytes_put m q (replicate 4096 0) (mem_at (q + 8 * of_nat i) k) = 0"
      using assms(1) by (simp add: slot_at bytes_put_page)
  qed
  also have "\<dots> = 0" by (simp add: load64_def get_bytes_def upt_rec)
  finally show ?thesis by (simp add: entry_def)
qed

text \<open>A zeroed page installed as the table below an invalid entry.\<close>

definition install :: "mem \<Rightarrow> u64 \<Rightarrow> nat \<Rightarrow> u64 \<Rightarrow> mem" where
  "install m pt i q = store64 (bytes_put m q (replicate 4096 0)) (pt + 8 * of_nat i) (PA2PTE q OR PTE_V)"

lemma install_entries:
  assumes "page_aligned pt" "page_aligned q" "pt \<noteq> q" "i < 512"
  shows "j < 512 \<Longrightarrow> entry (install m pt i q) pt j = (if j = i then PA2PTE q OR PTE_V else entry m pt j)"
    "j < 512 \<Longrightarrow> entry (install m pt i q) q j = 0"
    "same_pages (- {pt, q}) m (install m pt i q)"
proof -
  let ?z = "bytes_put m q (replicate 4096 0)"
  have z: "same_pages (- {q}) m ?z" using assms(2) by (intro same_pages_put) simp_all
  have "same_pages (- {pt}) ?z (install m pt i q)"
    unfolding install_def using assms(1,4) by (intro same_pages_store) simp_all
  with z show "same_pages (- {pt, q}) m (install m pt i q)" by (auto simp: same_pages_def)
  assume j: "j < 512"
  then have "entry ?z pt j = entry m pt j" using entry_same [OF z, of pt j] assms by simp
  then show "entry (install m pt i q) pt j = (if j = i then PA2PTE q OR PTE_V else entry m pt j)"
    using assms j by (auto simp: install_def entry_store)
  show "entry (install m pt i q) q j = 0"
    using assms j by (simp add: install_def entry_store zero_page_entry)
qed

lemma install_same:
  assumes "page_aligned q" "same_pages (- {q}) m m'"
  shows "install m' pt i q = install m pt i q"
proof -
  have "bytes_put m' q (replicate 4096 0) = bytes_put m q (replicate 4096 0)"
    using assms by (auto simp: fun_eq_iff bytes_put_page same_pages_def)
  then show ?thesis by (simp add: install_def)
qed

lemma valid_new [simp]: "valid (x OR PTE_V)"
  unfolding valid_def
proof
  assume "(x OR PTE_V) AND PTE_V = 0"
  moreover have "bit ((x OR PTE_V) AND PTE_V) 0" by (simp add: bit_simps bit_1_iff)
  ultimately show False by simp
qed

lemma walk_post_fresh:
  assumes pt: "ptab s (q # ps) (Suc l) pt" and v: "\<not> valid (entry (mem s) pt (idx (Suc l) va))"
    and s1: "mem_only s s1" "mem s1 = install (mem s) pt (idx (Suc l) va) q"
    and post: "walk_post ps s1 l q va r t"
  shows "walk_post (q # ps) s (Suc l) pt va r t"
proof -
  let ?i = "idx (Suc l) va"
  obtain qs where st: "mem_only s1 t" and q: "ptab t qs l q"
    and w: "walked ps (mem s1) l q (mem t) qs"
    and r: "if r = 0 then qs = [] else leaf_addr (mem t) l q va = Some r"
    using post by (auto simp: walk_post_def)
  have wf: "twf (mem s) (Suc l) pt" and nin: "pt \<notin> set (q # ps)" and fl: "free_list s (q # ps)"
    using pt root_in_tpages by (auto simp: ptab_def)
  have al: "page_aligned pt" "page_aligned q" "pt \<noteq> q" "q \<notin> set ps"
    using twf_aligned [OF wf] fl nin by (auto simp: free_list_def page_ok_def)
  note ins = install_entries [OF al(1-3) idx_bound [of "Suc l" va], where m = "mem s", folded s1(2)]
  have z: "tpages (mem s1) l q = {q}" "lookups (mem s1) l q vb = 0" for vb
    using tables_zero [OF al(2) ins(2)] by auto
  have w': "set qs \<subseteq> set ps" "q \<in> tpages (mem t) l q" "tpages (mem t) l q \<subseteq> insert q (set ps - set qs)"
      "lookups (mem t) l q vb = 0" for vb
    using w by (auto simp: walked_def z)
  have same: "same_pages (- (insert q (set ps - set qs))) (mem s1) (mem t)"
    using w by (simp add: walked_def z)
  have ent: "entry (mem t) pt j = (if j = ?i then PA2PTE q OR PTE_V else entry (mem s) pt j)" if "j < 512" for j
    using that entry_same [OF same, of pt j] al nin ins(1) by simp
  have F: "set (q # ps) - set qs = insert q (set ps - set qs)" using al(4) w'(1) by auto
  have ch: "child (mem s) l pt ?i = {}" using v by (simp add: child_def)
  have "ptab t qs (Suc l) pt \<and> walked (q # ps) (mem s) (Suc l) pt (mem t) qs"
  proof (rule grow_child [OF pt idx_bound mem_only_trans [OF s1(1) st] q])
    show "entry (mem t) pt ?i = PA2PTE q OR PTE_V" using ent by simp
    show "q = PTE2PA (PA2PTE q OR PTE_V)" using al(2) by simp
    show "same_pages (- insert pt (child (mem s) l pt ?i \<union> (set (q # ps) - set qs))) (mem s) (mem t)"
      unfolding ch F using ins(3) same by (auto simp: same_pages_def)
    show "lookups (mem t) l q vb = lookups (mem s) (Suc l) pt vb" if "idx (Suc l) vb = ?i" for vb
      using w'(4) v that by simp
  qed (use w' ent F in \<open>auto simp: ch\<close>)
  moreover have "leaf_addr (mem t) (Suc l) pt va = leaf_addr (mem t) l q va"
    using ent [OF idx_bound [of "Suc l" va]] al(2) by simp
  ultimately show ?thesis
    using mem_only_trans [OF s1(1) st] r by (auto simp: walk_post_def)
qed

lemma ptab_fresh:
  assumes pt: "ptab s (q # ps) (Suc l) pt" and free: "free_list s1 ps" and s1: "mem_only s s1"
    and i: "i < 512"
  shows "ptab (s1\<lparr>mem := install (mem s1) pt i q\<rparr>) ps l q"
proof -
  have wf: "twf (mem s) (Suc l) pt" and nin: "pt \<notin> set (q # ps)" and fl: "free_list s (q # ps)"
    and h: "KmemLock \<notin> held s"
    using pt root_in_tpages by (auto simp: ptab_def)
  have al: "page_aligned pt" "page_aligned q" "pt \<noteq> q" "q \<notin> set ps" and ok: "page_ok s q"
    using twf_aligned [OF wf] fl nin by (auto simp: free_list_def page_ok_def)
  let ?m = "install (mem s1) pt i q"
  note ins = install_entries [OF al(1-3) i, where m = "mem s1"]
  have "same_pages (set ps) (mem s1) ?m"
    by (rule same_pages_mono [OF ins(3)]) (use al nin in auto)
  then have "free_list (s1\<lparr>mem := ?m\<rparr>) ps"
    using free is_list_frame [of ps "mem s1" ?m] by (simp add: free_list_def page_ok_def)
  moreover have "page_ok (s1\<lparr>mem := ?m\<rparr>) q"
    using ok mem_only_fields(2) [OF s1] by (simp add: page_ok_def)
  ultimately show ?thesis
    using tables_zero [OF al(2) ins(2)] h al(4) mem_only_fields(1) [OF s1]
    by (simp add: ptab_def)
qed

lemma walk_loop_alloc:
  assumes "ptab s ps l pt"
  shows "wp (walk_loop pt va True l) (walk_post ps s l pt va) s"
  using assms
proof (induction l arbitrary: pt s ps)
  case 0
  then have "leaf_addr (mem s) 0 pt va = Some (pte_addr pt 0 va)" by simp
  with leaf_addr_nonzero [OF 0 this] 0 show ?case
    by (auto simp: wp_simps walk_post_def intro: exI [of _ ps])
next
  case (Suc l)
  let ?i = "idx (Suc l) va"
  let ?e = "entry (mem s) pt ?i"
  have rd: "wp (read_pte (pte_addr pt (Suc l) va)) Q s \<longleftrightarrow> Q ?e s" for Q
    by (simp add: read_pte_def wp_simps entry_def pte_addr_idx)
  show ?case
  proof (cases "valid ?e")
    case True
    have "wp (walk_loop (PTE2PA ?e) va True l) (walk_post ps s l (PTE2PA ?e) va) s"
      by (rule Suc.IH [OF ptab_child [OF Suc.prems idx_bound True]])
    then have "wp (walk_loop (PTE2PA ?e) va True l) (walk_post ps s (Suc l) pt va) s"
      by (rule wp_mono) (rule walk_post_child [OF Suc.prems True])
    then show ?thesis using True by (simp add: wp_kbind rd Let_def valid_def)
  next
    case False
    have h: "KmemLock \<notin> held s" "free_list s ps" using Suc.prems by (auto simp: ptab_def)
    have "wp kalloc (\<lambda>r. wp (if r = 0 then kreturn 0
          else kthen (fill_page r 0) (kthen (write_pte (pte_addr pt (Suc l) va) (PA2PTE r OR PTE_V))
            (walk_loop r va True l))) (walk_post ps s (Suc l) pt va)) s"
      using kalloc_spec [OF h]
    proof (rule wp_mono)
      fix q s1 assume a: "kalloc_post ps s q s1"
      show "wp (if q = 0 then kreturn 0
          else kthen (fill_page q 0) (kthen (write_pte (pte_addr pt (Suc l) va) (PA2PTE q OR PTE_V))
            (walk_loop q va True l))) (walk_post ps s (Suc l) pt va) s1"
      proof (cases ps)
        case Nil
        with a Suc.prems show ?thesis
          by (auto simp: kalloc_post_def wp_simps walk_post_def intro!: exI [of _ "[]"])
      next
        case (Cons q' qs)
        have q: "q' = q" "q \<noteq> 0" "page_aligned q" "free_list s1 qs" "mem_only s s1"
          "same_pages (- {q}) (mem s) (mem s1)"
          using a by (auto simp: kalloc_post_def Cons page_ok_def)
        let ?s2 = "s1\<lparr>mem := install (mem s1) pt ?i q\<rparr>"
        have st: "mem_only s ?s2" by (rule mem_only_trans [OF q(5) mem_only_upd(1)])
        have m: "mem ?s2 = install (mem s) pt ?i q"
          using install_same [OF q(3,6)] by simp
        have "wp (walk_loop q va True l) (walk_post qs ?s2 l q va) ?s2"
          using Suc.prems unfolding Cons q(1)
          by (intro Suc.IH) (rule ptab_fresh [OF _ q(4,5) idx_bound])
        then have "wp (walk_loop q va True l) (walk_post ps s (Suc l) pt va) ?s2"
          unfolding Cons q(1) using Suc.prems False
          by (elim wp_mono) (auto simp: Cons q(1) intro: walk_post_fresh [OF _ _ st m])
        then show ?thesis
          using q(2) by (simp add: wp_simps fill_page_def write_pte_def install_def memset_page pte_addr_idx)
      qed
    qed
    then show ?thesis using False by (simp add: wp_kbind rd Let_def valid_def)
  qed
qed

section \<open>Translations\<close>

text \<open>The entry the hardware finds for \<open>va\<close> in the page table \<open>pt\<close>; 0, so invalid, if there is none.\<close>

definition lookup :: "mem \<Rightarrow> u64 \<Rightarrow> u64 \<Rightarrow> u64" where
  "lookup m pt va = lookups m 2 pt va"

lemma PX_PGROUNDDOWN: "PX l (PGROUNDDOWN va) = PX l va"
  by (rule bit_word_eqI)
    (auto simp: PX_def PGROUNDDOWN_def mask_12 mask_9 bit_simps dest: bit_imp_le_length)

lemma same_idx_iff:
  assumes "va < MAXVA" "vb < MAXVA"
  shows "(\<forall>k \<le> 2. idx k vb = idx k va) \<longleftrightarrow> PGROUNDDOWN vb = PGROUNDDOWN va"
proof
  assume "\<forall>k \<le> 2. idx k vb = idx k va"
  then have "\<forall>k \<le> 2. PX k vb = PX k va" by (simp add: idx_def word_unat_eq_iff)
  then show "PGROUNDDOWN vb = PGROUNDDOWN va" using assms by (intro PX_eq_page)
next
  assume "PGROUNDDOWN vb = PGROUNDDOWN va"
  then have "PX k vb = PX k va" for k using PX_PGROUNDDOWN by metis
  then show "\<forall>k \<le> 2. idx k vb = idx k va" by (simp add: idx_def)
qed

text \<open>\<open>grown ps s pt qs t\<close>: tables were only added, in pages taken from the free list.\<close>

definition grown :: "u64 list \<Rightarrow> 'z kmem_scheme \<Rightarrow> u64 \<Rightarrow> u64 list \<Rightarrow> 'z kmem_scheme \<Rightarrow> bool" where
  "grown ps s pt qs t \<longleftrightarrow> ptab t qs 2 pt \<and> mem_only s t \<and> set qs \<subseteq> set ps \<and>
     tpages (mem s) 2 pt \<subseteq> tpages (mem t) 2 pt \<and>
     tpages (mem t) 2 pt \<subseteq> tpages (mem s) 2 pt \<union> (set ps - set qs) \<and>
     same_pages (- (tpages (mem s) 2 pt \<union> (set ps - set qs))) (mem s) (mem t)"

lemma grown_refl: "ptab s ps 2 pt \<Longrightarrow> grown ps s pt ps s"
  by (simp add: grown_def)

lemma grown_trans:
  assumes "grown ps s pt qs t" "grown qs t pt rs u"
  shows "grown ps s pt rs u"
proof -
  have sub: "set qs \<subseteq> set ps" "set rs \<subseteq> set qs"
    "tpages (mem t) 2 pt \<subseteq> tpages (mem s) 2 pt \<union> (set ps - set qs)"
    "tpages (mem u) 2 pt \<subseteq> tpages (mem t) 2 pt \<union> (set qs - set rs)"
    using assms by (auto simp: grown_def)
  have "same_pages (- (tpages (mem s) 2 pt \<union> (set ps - set rs))) (mem s) (mem t)"
    by (rule same_pages_mono [of "- (tpages (mem s) 2 pt \<union> (set ps - set qs))"])
      (use assms(1) sub in \<open>auto simp: grown_def\<close>)
  moreover have "same_pages (- (tpages (mem s) 2 pt \<union> (set ps - set rs))) (mem t) (mem u)"
    by (rule same_pages_mono [of "- (tpages (mem t) 2 pt \<union> (set qs - set rs))"])
      (use assms(2) sub in \<open>auto simp: grown_def\<close>)
  ultimately have "same_pages (- (tpages (mem s) 2 pt \<union> (set ps - set rs))) (mem s) (mem u)"
    by (rule same_pages_trans)
  moreover have "tpages (mem u) 2 pt \<subseteq> tpages (mem s) 2 pt \<union> (set ps - set rs)"
    using sub by blast
  ultimately show ?thesis
    using assms sub(1,2) mem_only_trans [of s t u] by (auto simp: grown_def)
qed

lemma free_list_frame:
  assumes "free_list s ps" "same_pages (set ps) (mem s) m"
  shows "free_list (s\<lparr>mem := m\<rparr>) ps"
  using assms is_list_frame [of ps "mem s" m] by (simp add: free_list_def page_ok_def)

lemma store_leaf:
  fixes v :: u64
  assumes pt: "ptab s ps 2 pt" and r: "leaf_addr (mem s) 2 pt va = Some r" and va: "va < MAXVA"
  defines "t \<equiv> s\<lparr>mem := store64 (mem s) r v\<rparr>"
  shows "grown ps s pt ps t" "\<And>vb. vb < MAXVA \<Longrightarrow>
    lookup (mem t) pt vb = (if PGROUNDDOWN vb = PGROUNDDOWN va then v else lookup (mem s) pt vb)"
proof -
  have wf: "twf (mem s) 2 pt" using pt by (simp add: ptab_def)
  obtain p where p: "p \<in> tpages (mem s) 2 pt" "page_aligned p" "r = p + 8 * of_nat (idx 0 va)"
    using leaf_addr_page [OF r wf] by blast
  have same: "same_pages (- {p}) (mem s) (mem t)"
    unfolding t_def using p(2,3) by (simp add: same_pages_store)
  have "same_pages (set ps) (mem s) (mem t)"
    by (rule same_pages_mono [OF same]) (use pt p(1) in \<open>auto simp: ptab_def\<close>)
  then have "free_list t ps" using pt free_list_frame [of s ps] by (simp add: ptab_def t_def)
  moreover have "same_pages (- tpages (mem s) 2 pt) (mem s) (mem t)"
    by (rule same_pages_mono [OF same]) (use p(1) in auto)
  ultimately show "grown ps s pt ps t"
    using leaf_store [OF r wf] pt by (simp add: grown_def ptab_def t_def page_ok_def)
  fix vb :: u64 assume "vb < MAXVA"
  then show "lookup (mem t) pt vb = (if PGROUNDDOWN vb = PGROUNDDOWN va then v else lookup (mem s) pt vb)"
    using leaf_store(3) [OF r wf] same_idx_iff [OF va] by (simp add: lookup_def t_def)
qed

lemma walk_alloc:
  assumes "ptab s ps 2 pt" "va < MAXVA"
  shows "wp (walk pt va True) (\<lambda>r t. \<exists>qs. grown ps s pt qs t \<and>
     (\<forall>vb. lookup (mem t) pt vb = lookup (mem s) pt vb) \<and>
     (if r = 0 then qs = [] else leaf_addr (mem t) 2 pt va = Some r)) s"
proof -
  have "wp (walk_loop pt va True 2) (walk_post ps s 2 pt va) s"
    by (rule walk_loop_alloc [OF assms(1)])
  then have "wp (walk_loop pt va True 2) (\<lambda>r t. \<exists>qs. grown ps s pt qs t \<and>
     (\<forall>vb. lookup (mem t) pt vb = lookup (mem s) pt vb) \<and>
     (if r = 0 then qs = [] else leaf_addr (mem t) 2 pt va = Some r)) s"
    by (rule wp_mono) (auto simp: walk_post_def grown_def walked_def lookup_def)
  then show ?thesis using assms(2) by (simp add: walk_def not_le [symmetric])
qed

end
