(* ===== verification/Vm_Correct.thy ===== *)
theory Vm_Correct
  imports Vm_Tables
begin

text \<open>
  What the functions of src/kernel/vm.c (theory Vm) do to translations and to user memory.
\<close>

section \<open>mappages\<close>

text \<open>The pages from \<open>a\<close> up to \<open>b\<close> are mapped to consecutive pages from \<open>pa\<close>, the others as before.\<close>

definition mapped :: "u64 \<Rightarrow> u64 \<Rightarrow> u64 \<Rightarrow> u64 \<Rightarrow> u64 \<Rightarrow> mem \<Rightarrow> mem \<Rightarrow> bool" where
  "mapped pt a b pa perm m m' \<longleftrightarrow> (\<forall>va < MAXVA. lookup m' pt va =
     (if a \<le> PGROUNDDOWN va \<and> PGROUNDDOWN va < b
      then PA2PTE (pa + (PGROUNDDOWN va - a)) OR perm OR PTE_V else lookup m pt va))"

lemma page_step:
  assumes "page_aligned a" "page_aligned b" "a < MAXVA"
  shows "a \<le> b \<longleftrightarrow> b = a \<or> a + PGSIZE \<le> b" "page_aligned (a + PGSIZE)" "a < a + PGSIZE"
proof -
  obtain i j where ij: "unat a = 4096 * i" "unat b = 4096 * j"
    using assms(1,2) by (elim page_alignedE)
  have u: "unat (a + PGSIZE) = unat a + 4096"
    using assms(3) unat_add_small [of a 4096] by (simp add: word_less_nat_alt)
  show "a \<le> b \<longleftrightarrow> b = a \<or> a + PGSIZE \<le> b" "page_aligned (a + PGSIZE)" "a < a + PGSIZE"
    using ij u by (auto simp: word_le_nat_alt word_less_nat_alt word_unat_eq_iff page_aligned_unat)
qed

definition mappages_post :: "u64 list \<Rightarrow> 'z kmem_scheme \<Rightarrow> u64 \<Rightarrow> u64 \<Rightarrow> u64 \<Rightarrow> u64 \<Rightarrow> u64 \<Rightarrow> int \<Rightarrow> 'z kmem_scheme \<Rightarrow> bool" where
  "mappages_post ps s pt a last_page pa perm r t \<longleftrightarrow> (\<exists>qs. grown ps s pt qs t \<and>
     (r = 0 \<and> mapped pt a (last_page + PGSIZE) pa perm (mem s) (mem t) \<or>
      r = - 1 \<and> qs = [] \<and> (\<exists>b. page_aligned b \<and> a \<le> b \<and> b \<le> last_page \<and> mapped pt a b pa perm (mem s) (mem t))))"

lemma mapped_one:
  assumes "page_aligned a" "a < MAXVA"
    and "\<And>va. va < MAXVA \<Longrightarrow> lookup m' pt va =
      (if PGROUNDDOWN va = a then PA2PTE pa OR perm OR PTE_V else lookup m pt va)"
  shows "mapped pt a (a + PGSIZE) pa perm m m'"
  unfolding mapped_def
proof (intro allI impI)
  fix va assume "va < MAXVA"
  moreover have "a \<le> PGROUNDDOWN va \<and> PGROUNDDOWN va < a + PGSIZE \<longleftrightarrow> PGROUNDDOWN va = a"
    using page_step [OF assms(1) page_aligned_PGROUNDDOWN [of va] assms(2)] by auto
  ultimately show "lookup m' pt va = (if a \<le> PGROUNDDOWN va \<and> PGROUNDDOWN va < a + PGSIZE
      then PA2PTE (pa + (PGROUNDDOWN va - a)) OR perm OR PTE_V else lookup m pt va)"
    using assms(3) by auto
qed

lemma mapped_append:
  assumes "page_aligned a" "a < MAXVA" "a + PGSIZE \<le> b"
    and "mapped pt a (a + PGSIZE) pa perm m m'"
    and "mapped pt (a + PGSIZE) b (pa + PGSIZE) perm m' m''"
  shows "mapped pt a b pa perm m m''"
  unfolding mapped_def
proof (intro allI impI)
  fix va assume va: "va < MAXVA"
  let ?p = "PGROUNDDOWN va"
  have step: "a \<le> ?p \<longleftrightarrow> ?p = a \<or> a + PGSIZE \<le> ?p"
    and lt: "a < a + PGSIZE"
    using page_step [OF assms(1) page_aligned_PGROUNDDOWN [of va] assms(2)] by auto
  have "pa + PGSIZE + (?p - (a + PGSIZE)) = pa + (?p - a)" by simp
  then have l: "lookup m'' pt va = (if a + PGSIZE \<le> ?p \<and> ?p < b
      then PA2PTE (pa + (?p - a)) OR perm OR PTE_V else lookup m' pt va)"
    "lookup m' pt va = (if a \<le> ?p \<and> ?p < a + PGSIZE
      then PA2PTE (pa + (?p - a)) OR perm OR PTE_V else lookup m pt va)"
    using assms(4,5) va by (auto simp: mapped_def)
  consider "?p = a" | "a + PGSIZE \<le> ?p" | "\<not> a \<le> ?p" using step by blast
  then show "lookup m'' pt va = (if a \<le> ?p \<and> ?p < b
      then PA2PTE (pa + (?p - a)) OR perm OR PTE_V else lookup m pt va)"
    using l step lt assms(3) by cases auto
qed

lemma mapped_none: "mapped pt a a pa perm m m' \<longleftrightarrow> (\<forall>va < MAXVA. lookup m' pt va = lookup m pt va)"
proof -
  have "(a \<le> p \<and> p < a) = False" for p :: u64 by auto
  then show ?thesis unfolding mapped_def by (simp only: if_False)
qed

text \<open>One round of the loop: the walk, and the store of the new entry where there is one.\<close>

lemma mappages_round:
  assumes pt: "ptab s ps 2 pt" and a: "page_aligned a" "a < MAXVA"
    and inv: "\<not> valid (lookup (mem s) pt a)"
  obtains t where "walk pt a True s = Ret 0 t" "grown ps s pt [] t" "mapped pt a a pa perm (mem s) (mem t)"
  | r t qs where "r \<noteq> 0" "walk pt a True s = Ret r t" "load64 (mem t) r AND PTE_V = 0"
      "grown ps s pt qs (t\<lparr>mem := store64 (mem t) r (PA2PTE pa OR perm OR PTE_V)\<rparr>)"
      "mapped pt a (a + PGSIZE) pa perm (mem s) (store64 (mem t) r (PA2PTE pa OR perm OR PTE_V))"
proof -
  obtain r t qs where w: "walk pt a True s = Ret r t" and g: "grown ps s pt qs t"
    and l: "\<And>vb. lookup (mem t) pt vb = lookup (mem s) pt vb"
    and r: "if r = 0 then qs = [] else leaf_addr (mem t) 2 pt a = Some r"
    using walk_alloc [OF pt a(2)] by (auto simp: wp_iff)
  show ?thesis
  proof (cases "r = 0")
    case True
    then show ?thesis using w g l r by (intro that(1)) (auto simp: mapped_none)
  next
    case False
    then have lf: "leaf_addr (mem t) 2 pt a = Some r" using r by simp
    have ptt: "ptab t qs 2 pt" using g by (simp add: grown_def)
    have al: "PGROUNDDOWN a = a" using a(1) by (simp add: page_aligned_iff)
    note st = store_leaf [OF ptt lf a(2), where v = "PA2PTE pa OR perm OR PTE_V"]
    have "load64 (mem t) r = lookup (mem t) pt a"
      using leaf_addr_lookups [OF lf] by (simp add: lookup_def)
    then have "load64 (mem t) r AND PTE_V = 0" using inv l by (simp add: valid_def)
    moreover have "mapped pt a (a + PGSIZE) pa perm (mem s) (store64 (mem t) r (PA2PTE pa OR perm OR PTE_V))"
      using st(2) l al by (intro mapped_one [OF a]) simp
    ultimately show ?thesis
      using False w grown_trans [OF g st(1)] by (intro that(2))
  qed
qed

lemma mappages_loop_spec:
  fixes s :: "'z kmem_scheme"
  assumes "ptab s ps 2 pt" "page_aligned a" "page_aligned last_page" "a \<le> last_page" "last_page < MAXVA"
    and "\<And>p. page_aligned p \<Longrightarrow> a \<le> p \<Longrightarrow> p \<le> last_page \<Longrightarrow> \<not> valid (lookup (mem s) pt p)"
  shows "wp (mappages_loop pt a last_page pa perm) (mappages_post ps s pt a last_page pa perm) s"
  using assms
proof (induction pt a last_page pa perm s arbitrary: ps rule: mappages_loop.induct)
  case (1 pt a last_page pa perm s)
  have a: "a < MAXVA" using "1.prems"(4,5) by simp
  have lt: "a < a + PGSIZE" "page_aligned (a + PGSIZE)"
    using page_step [OF "1.prems"(2,3) a] by auto
  note unf = mappages_loop.simps [of pt a last_page pa perm s]
  show ?case
  proof (rule mappages_round [OF "1.prems"(1,2) a "1.prems"(6) [OF "1.prems"(2) order_refl "1.prems"(4)]])
    fix t
    assume "walk pt a True s = Ret 0 t" "grown ps s pt [] t" "mapped pt a a pa perm (mem s) (mem t)"
    then have "mappages_loop pt a last_page pa perm s = Ret (- 1) t"
      "mappages_post ps s pt a last_page pa perm (- 1) t"
      using "1.prems"(2,4) by (auto simp: unf kexec mappages_post_def)
    then show ?thesis by (rule wpI)
  next
    fix r :: u64 and t :: "'z kmem_scheme" and qs
    let ?t = "t\<lparr>mem := store64 (mem t) r (PA2PTE pa OR perm OR PTE_V)\<rparr>"
    assume r: "r \<noteq> 0" "walk pt a True s = Ret r t" "load64 (mem t) r AND PTE_V = 0"
      and g: "grown ps s pt qs ?t"
      and m: "mapped pt a (a + PGSIZE) pa perm (mem s) (store64 (mem t) r (PA2PTE pa OR perm OR PTE_V))"
    have ptt: "ptab ?t qs 2 pt" using g by (simp add: grown_def)
    show ?thesis
    proof (cases "a = last_page")
      case True
      then have "mappages_loop pt a last_page pa perm s = Ret 0 ?t"
        unfolding unf using r by (simp add: kexec read_pte_def write_pte_def)
      moreover have "mappages_post ps s pt a last_page pa perm 0 ?t"
        using g m True by (auto simp: mappages_post_def)
      ultimately show ?thesis by (rule wpI)
    next
      case False
      then have le: "a + PGSIZE \<le> last_page"
        using page_step(1) [OF "1.prems"(2,3) a] "1.prems"(4) by auto
      have IH: "wp (mappages_loop pt (a + PGSIZE) last_page (pa + PGSIZE) perm)
          (mappages_post qs ?t pt (a + PGSIZE) last_page (pa + PGSIZE) perm) ?t"
      proof (rule "1.IH" [OF r(2) r(1) _ _ _ False ptt])
        fix p assume p: "page_aligned p" "a + PGSIZE \<le> p" "p \<le> last_page"
        then have "PGROUNDDOWN p = p" "p < MAXVA" "\<not> p < a + PGSIZE"
          using "1.prems"(5) by (auto simp: page_aligned_iff)
        then have "lookup (mem ?t) pt p = lookup (mem s) pt p" using m by (simp add: mapped_def)
        then show "\<not> valid (lookup (mem ?t) pt p)" using "1.prems"(6) [OF p(1)] p lt(1) by simp
      qed (use r lt le "1.prems" in \<open>auto simp: read_pte_def write_pte_def kexec\<close>)
      have "wp (mappages_loop pt (a + PGSIZE) last_page (pa + PGSIZE) perm)
          (mappages_post ps s pt a last_page pa perm) ?t"
        using IH
      proof (rule wp_mono)
        fix v u assume "mappages_post qs ?t pt (a + PGSIZE) last_page (pa + PGSIZE) perm v u"
        then obtain rs where rs: "grown qs ?t pt rs u" and
          v: "v = 0 \<and> mapped pt (a + PGSIZE) (last_page + PGSIZE) (pa + PGSIZE) perm (mem ?t) (mem u) \<or>
            v = - 1 \<and> rs = [] \<and> (\<exists>b. page_aligned b \<and> a + PGSIZE \<le> b \<and> b \<le> last_page \<and>
              mapped pt (a + PGSIZE) b (pa + PGSIZE) perm (mem ?t) (mem u))"
          by (auto simp: mappages_post_def)
        have app: "mapped pt a b pa perm (mem s) (mem u)"
          if "mapped pt (a + PGSIZE) b (pa + PGSIZE) perm (mem ?t) (mem u)" "a + PGSIZE \<le> b" for b
          using mapped_append [OF "1.prems"(2) a that(2) m, of "mem u"] that(1) by simp
        have "a + PGSIZE \<le> last_page + PGSIZE"
          using le page_step(3) [OF "1.prems"(3,3,5)] by simp
        moreover have "a \<le> b" if "a + PGSIZE \<le> b" for b using that lt(1) by simp
        ultimately show "mappages_post ps s pt a last_page pa perm v u"
          using v app grown_trans [OF g rs] unfolding mappages_post_def by blast
      qed
      moreover have "mappages_loop pt a last_page pa perm s =
          mappages_loop pt (a + PGSIZE) last_page (pa + PGSIZE) perm ?t"
        unfolding unf using False r by (simp add: kexec read_pte_def write_pte_def)
      ultimately show ?thesis by (simp add: wp_def)
    qed
  qed
qed

section \<open>User memory\<close>

text \<open>The physical address a user access to \<open>va\<close> reaches, and the byte there.\<close>

definition user_page :: "mem \<Rightarrow> u64 \<Rightarrow> u64 \<Rightarrow> bool" where
  "user_page m pt va \<longleftrightarrow> va < MAXVA \<and> valid (lookup m pt va) \<and> lookup m pt va AND PTE_U \<noteq> 0"

definition user_pa :: "mem \<Rightarrow> u64 \<Rightarrow> u64 \<Rightarrow> u64" where
  "user_pa m pt va = PTE2PA (lookup m pt va) + (va - PGROUNDDOWN va)"

definition uget :: "mem \<Rightarrow> u64 \<Rightarrow> u64 \<Rightarrow> u8 option" where
  "uget m pt va = (if user_page m pt va then Some (m (user_pa m pt va)) else None)"

text \<open>User pages are distinct, not tables, not free and not page 0.\<close>

definition uspace :: "'z kmem_scheme \<Rightarrow> u64 list \<Rightarrow> u64 \<Rightarrow> bool" where
  "uspace s ps pt \<longleftrightarrow> ptab s ps 2 pt \<and>
     (\<forall>va. user_page (mem s) pt va \<longrightarrow> PTE2PA (lookup (mem s) pt va) \<noteq> 0 \<and>
        PTE2PA (lookup (mem s) pt va) \<notin> tpages (mem s) 2 pt \<union> set ps) \<and>
     (\<forall>va vb. user_page (mem s) pt va \<and> user_page (mem s) pt vb \<and>
        PTE2PA (lookup (mem s) pt va) = PTE2PA (lookup (mem s) pt vb) \<longrightarrow>
        PGROUNDDOWN va = PGROUNDDOWN vb)"

lemma uspace_inj:
  "uspace s ps pt \<Longrightarrow> user_page (mem s) pt va \<Longrightarrow> user_page (mem s) pt vb \<Longrightarrow>
   PTE2PA (lookup (mem s) pt va) = PTE2PA (lookup (mem s) pt vb) \<Longrightarrow> PGROUNDDOWN va = PGROUNDDOWN vb"
  unfolding uspace_def by blast

lemma lookup_PGROUNDDOWN: "lookup m pt (PGROUNDDOWN va) = lookup m pt va"
proof -
  have "idx l (PGROUNDDOWN va) = idx l va" for l by (simp add: idx_def PX_PGROUNDDOWN)
  then have "lookups m l pt (PGROUNDDOWN va) = lookups m l pt va" for l
    by (induction l arbitrary: pt) (simp_all add: Let_def)
  then show ?thesis by (simp add: lookup_def)
qed

lemma PGROUNDDOWN_less_MAXVA: "PGROUNDDOWN va < MAXVA \<longleftrightarrow> va < MAXVA"
  unfolding word_less_nat_alt unat_PGROUNDDOWN by auto

lemma user_page_PGROUNDDOWN: "user_page m pt (PGROUNDDOWN va) = user_page m pt va"
  by (simp add: user_page_def lookup_PGROUNDDOWN PGROUNDDOWN_less_MAXVA)

lemma walkaddr_exec:
  assumes "ptab s ps 2 pt"
  shows "walkaddr pt va s = Ret (if user_page (mem s) pt va then PTE2PA (lookup (mem s) pt va) else 0) s"
proof (cases "va < MAXVA")
  case True
  then have nle: "\<not> MAXVA \<le> va" by simp
  show ?thesis
  proof (cases "leaf_addr (mem s) 2 pt va")
    case None
    then have "lookup (mem s) pt va = 0" by (simp add: lookup_def leaf_addr_None)
    with None True nle show ?thesis
      by (simp add: walkaddr_def kexec walk_find [OF assms] user_page_def valid_def)
  next
    case (Some r)
    then have "load64 (mem s) r = lookup (mem s) pt va" "r \<noteq> 0"
      using leaf_addr_lookups [OF Some] leaf_addr_nonzero [OF assms Some] by (simp_all add: lookup_def)
    with Some True nle show ?thesis
      by (simp add: walkaddr_def kexec walk_find [OF assms] read_pte_def user_page_def valid_def)
  qed
qed (auto simp: walkaddr_def kexec user_page_def not_less)

text \<open>The bytes of a chunk lie in the page of its first byte.\<close>

lemma chunk_page:
  assumes "len > 0" "k < unat (chunk va len)"
  shows "PGROUNDDOWN (va + of_nat k) = PGROUNDDOWN va"
    "unat (va - PGROUNDDOWN va) + k < 4096"
proof -
  let ?o = "unat (va - PGROUNDDOWN va)"
  show lt: "?o + k < 4096" using chunk_bounds(3) [OF assms(1), of va] assms(2) by linarith
  have "va + of_nat k = mem_at (PGROUNDDOWN va) (?o + k)" by (simp add: mem_at_def)
  then show "PGROUNDDOWN (va + of_nat k) = PGROUNDDOWN va" using lt by simp
qed

lemma chunk_next:
  assumes "len > 0" "chunk va len \<noteq> len"
  shows "va + chunk va len = PGROUNDDOWN va + PGSIZE"
  using assms by (auto simp: chunk_def Let_def)

lemma user_pa_chunk:
  assumes "len > 0" "k < unat (chunk va len)"
  shows "user_page m pt (va + of_nat k) = user_page m pt va"
    "user_pa m pt (va + of_nat k) = PTE2PA (lookup m pt va) + (va - PGROUNDDOWN va) + of_nat k"
proof -
  have p: "PGROUNDDOWN (va + of_nat k) = PGROUNDDOWN va" by (rule chunk_page(1) [OF assms])
  then have "lookup m pt (va + of_nat k) = lookup m pt va"
    using lookup_PGROUNDDOWN by metis
  then show "user_pa m pt (va + of_nat k) = PTE2PA (lookup m pt va) + (va - PGROUNDDOWN va) + of_nat k"
    using p by (simp add: user_pa_def)
  show "user_page m pt (va + of_nat k) = user_page m pt va"
    using p user_page_PGROUNDDOWN by metis
qed

lemma copyin_spec:
  assumes "uspace s ps pt"
  shows "\<exists>r bs. copyin pt srcva len s = Ret (r, bs) s \<and>
    (\<forall>k < length bs. uget (mem s) pt (srcva + of_nat k) = Some (bs ! k)) \<and>
    (if r = 0 then length bs = unat len
     else r = - 1 \<and> length bs < unat len \<and> uget (mem s) pt (srcva + of_nat (length bs)) = None)"
  using assms
proof (induction pt srcva len s rule: copyin.induct)
  case (1 pt srcva len s)
  have pt: "ptab s ps 2 pt" using "1.prems" by (simp add: uspace_def)
  let ?va0 = "PGROUNDDOWN srcva" and ?n = "chunk srcva len"
  have wa: "walkaddr pt ?va0 s = Ret (if user_page (mem s) pt srcva then PTE2PA (lookup (mem s) pt srcva) else 0) s"
    using walkaddr_exec [OF pt] by (simp add: user_page_PGROUNDDOWN lookup_PGROUNDDOWN)
  consider "len = 0" | "len > 0" "\<not> user_page (mem s) pt srcva" | "len > 0" "user_page (mem s) pt srcva"
    by (auto simp: word_gt_0)
  then show ?case
  proof cases
    case 1
    then show ?thesis by (simp add: copyin.simps)
  next
    case 2
    then have "copyin pt srcva len s = Ret (- 1, []) s"
      by (simp add: copyin.simps [of pt srcva len s] wa kexec Let_def)
    with 2 show ?thesis by (simp add: uget_def word_less_nat_alt)
  next
    case 3
    let ?pa = "PTE2PA (lookup (mem s) pt srcva)"
    let ?bs = "bytes_of (mem s) (?pa + (srcva - ?va0)) (unat ?n)"
    have nz: "?pa \<noteq> 0" using "1.prems" 3(2) by (auto simp: uspace_def)
    obtain r rest where IH: "copyin pt (?va0 + PGSIZE) (len - ?n) s = Ret (r, rest) s"
        "\<forall>k < length rest. uget (mem s) pt (?va0 + PGSIZE + of_nat k) = Some (rest ! k)"
        "if r = 0 then length rest = unat (len - ?n)
         else r = - 1 \<and> length rest < unat (len - ?n) \<and> uget (mem s) pt (?va0 + PGSIZE + of_nat (length rest)) = None"
      using "1.IH" [OF 3(1) refl refl wa] nz 3(2) "1.prems" by (auto simp: kexec)
    have eq: "copyin pt srcva len s = Ret (r, ?bs @ rest) s"
      using 3 nz IH(1) by (simp add: copyin.simps [of pt srcva len s] wa kexec Let_def)
    have b: "0 < ?n" "?n \<le> len" using chunk_bounds [OF 3(1)] by auto
    have un: "unat (len - ?n) = unat len - unat ?n" "unat ?n \<le> unat len"
      using b(2) by (auto simp: unat_sub word_le_nat_alt)
    have nx: "srcva + of_nat (unat ?n + k) = ?va0 + PGSIZE + of_nat k" if "unat ?n < unat len" for k
    proof -
      have "?n \<noteq> len" using that by auto
      then show ?thesis using chunk_next [OF 3(1), of srcva] by (simp add: add.assoc [symmetric])
    qed
    have lo: "uget (mem s) pt (srcva + of_nat k) = Some (?bs ! k)" if "k < unat ?n" for k
      using user_pa_chunk [OF 3(1) that] that 3(2) by (simp add: uget_def mem_at_def)
    have full: "unat ?n < unat len" if "length rest > 0 \<or> r \<noteq> 0"
      using that IH(3) un by (auto split: if_splits simp del: length_greater_0_conv)
    have get: "uget (mem s) pt (srcva + of_nat k) = Some ((?bs @ rest) ! k)" if "k < length (?bs @ rest)" for k
    proof (cases "k < unat ?n")
      case False
      then have k: "k = unat ?n + (k - unat ?n)" "k - unat ?n < length rest" using that by auto
      then have "0 < length rest" by linarith
      then have "unat ?n < unat len" using full by blast
      then have "srcva + of_nat k = ?va0 + PGSIZE + of_nat (k - unat ?n)"
        using nx [of "k - unat ?n"] k(1) by metis
      then show ?thesis using IH(2) k(2) False by (simp only: nth_append) simp
    qed (use lo in \<open>simp add: nth_append\<close>)
    have "if r = 0 then length (?bs @ rest) = unat len
       else r = - 1 \<and> length (?bs @ rest) < unat len \<and> uget (mem s) pt (srcva + of_nat (length (?bs @ rest))) = None"
      using IH(3) un nx [OF full] by (auto simp: add.assoc [symmetric] split: if_splits)
    with eq get show ?thesis by blast
  qed
qed

text \<open>Writing inside one user page.\<close>

lemma user_write:
  assumes us: "uspace s ps pt" and up: "user_page (mem s) pt va" and n: "len > 0" "length bs = unat (chunk va len)"
  defines "t \<equiv> s\<lparr>mem := bytes_put (mem s) (user_pa (mem s) pt va) bs\<rparr>"
  shows "uspace t ps pt" "\<And>vb. lookup (mem t) pt vb = lookup (mem s) pt vb"
    "same_pages (- {PTE2PA (lookup (mem s) pt va)}) (mem s) (mem t)"
    "\<And>vb. uget (mem t) pt vb =
      (if unat (vb - va) < length bs then Some (bs ! unat (vb - va)) else uget (mem s) pt vb)"
proof -
  let ?e = "lookup (mem s) pt va" and ?off = "unat (va - PGROUNDDOWN va)"
  have pt: "ptab s ps 2 pt" and wf: "twf (mem s) 2 pt" using us by (auto simp: uspace_def ptab_def)
  have nin: "PTE2PA ?e \<notin> tpages (mem s) 2 pt \<union> set ps" using us up by (auto simp: uspace_def)
  have off: "?off + length bs \<le> 4096" using chunk_bounds(3) [OF n(1)] n(2) by simp
  have mt: "mem t x = (if unat (x - user_pa (mem s) pt va) < length bs
      then bs ! unat (x - user_pa (mem s) pt va) else mem s x)" for x
    by (simp add: t_def put_bytes_def mem_off_def)
  have pg: "PGROUNDDOWN x = PTE2PA ?e" if "unat (x - user_pa (mem s) pt va) < length bs" for x
  proof -
    let ?j = "unat (x - user_pa (mem s) pt va)"
    have "x = mem_at (PTE2PA ?e) (?off + ?j)" by (simp add: mem_at_def user_pa_def)
    moreover have "?off + ?j < 4096" using off that by linarith
    ultimately show ?thesis using PGROUNDDOWN_at [OF page_aligned_PTE2PA, of "?off + ?j" ?e] by simp
  qed
  then show same: "same_pages (- {PTE2PA ?e}) (mem s) (mem t)" by (auto simp: same_pages_def mt)
  have sp: "same_pages P (mem s) (mem t)" if "PTE2PA ?e \<notin> P" for P
    by (rule same_pages_mono [OF same]) (use that in auto)
  note tab = tables_same [OF sp wf]
  show lk: "lookup (mem t) pt vb = lookup (mem s) pt vb" for vb
    using tab(3) nin by (simp add: lookup_def)
  then have upt: "user_page (mem t) pt = user_page (mem s) pt" "user_pa (mem t) pt = user_pa (mem s) pt"
    by (simp_all add: user_page_def user_pa_def fun_eq_iff)
  have "free_list t ps" using free_list_frame [of s ps "mem t"] sp nin pt by (simp add: t_def ptab_def)
  then have "ptab t ps 2 pt" using pt tab(1,2) nin by (simp add: ptab_def t_def page_ok_def)
  then show "uspace t ps pt" using us upt lk tab(1) nin by (simp add: uspace_def)
  fix vb
  show "uget (mem t) pt vb =
      (if unat (vb - va) < length bs then Some (bs ! unat (vb - va)) else uget (mem s) pt vb)"
  proof (cases "PGROUNDDOWN vb = PGROUNDDOWN va")
    case True
    then have "lookup (mem s) pt vb = ?e" "user_page (mem s) pt vb"
      using lookup_PGROUNDDOWN user_page_PGROUNDDOWN up by metis+
    moreover from this True have "user_pa (mem s) pt vb - user_pa (mem s) pt va = vb - va"
      by (simp add: user_pa_def)
    ultimately show ?thesis by (simp add: uget_def upt mt)
  next
    case False
    have "\<not> unat (vb - va) < length bs"
    proof
      assume "unat (vb - va) < length bs"
      then have "PGROUNDDOWN (va + of_nat (unat (vb - va))) = PGROUNDDOWN va"
        using n by (intro chunk_page(1)) auto
      then show False using False by simp
    qed
    moreover have "uget (mem t) pt vb = uget (mem s) pt vb"
    proof (cases "user_page (mem s) pt vb")
      case True
      then have "PTE2PA (lookup (mem s) pt vb) \<noteq> PTE2PA ?e"
        using uspace_inj [OF us True up] False by blast
      moreover have "PGROUNDDOWN (user_pa (mem s) pt vb) = PTE2PA (lookup (mem s) pt vb)"
        using PGROUNDDOWN_at [of "PTE2PA (lookup (mem s) pt vb)" "unat (vb - PGROUNDDOWN vb)"]
        by (simp add: user_pa_def mem_at_def in_page_iff)
      ultimately show ?thesis using pg by (auto simp: uget_def upt mt)
    qed (simp add: uget_def upt)
    ultimately show ?thesis by simp
  qed
qed

lemma unat_shift:
  assumes "n + j \<le> 2 ^ 64" "0 < j"
  shows "unat (x - of_nat n :: u64) < j \<longleftrightarrow> n \<le> unat x \<and> unat x < n + j"
    "n \<le> unat x \<Longrightarrow> unat (x - of_nat n :: u64) = unat x - n"
proof -
  have "unat (of_nat n :: u64) = n" using assms by (intro unat_of_nat_small) simp
  then have eq: "unat (x - of_nat n) = (if n \<le> unat x then unat x - n else unat x + 2 ^ 64 - n)"
    by (simp add: unat_sub_if_size word_size)
  show "unat (x - of_nat n :: u64) < j \<longleftrightarrow> n \<le> unat x \<and> unat x < n + j"
    "n \<le> unat x \<Longrightarrow> unat (x - of_nat n :: u64) = unat x - n"
    using assms unfolding eq by auto
qed

definition user_frames :: "mem \<Rightarrow> u64 \<Rightarrow> u64 set" where
  "user_frames m pt = {PTE2PA (lookup m pt va) | va. user_page m pt va}"

definition copyout_post :: "u64 list \<Rightarrow> 'z kmem_scheme \<Rightarrow> u64 \<Rightarrow> u64 \<Rightarrow> u8 list \<Rightarrow> int \<Rightarrow> 'z kmem_scheme \<Rightarrow> bool" where
  "copyout_post ps s pt dstva src r t \<longleftrightarrow> mem_only s t \<and> uspace t ps pt \<and>
     lookup (mem t) pt = lookup (mem s) pt \<and>
     same_pages (- user_frames (mem s) pt) (mem s) (mem t) \<and>
     (\<exists>j \<le> length src. (\<forall>va. uget (mem t) pt va =
          (if unat (va - dstva) < j then Some (src ! unat (va - dstva)) else uget (mem s) pt va)) \<and>
        (if r = 0 then j = length src
         else r = - 1 \<and> j < length src \<and> uget (mem s) pt (dstva + of_nat j) = None))"

lemma copyout_post_step:
  assumes post: "copyout_post ps t pt (dstva + of_nat n) (drop n src) r u"
    and n: "0 < n" "n \<le> length src" "length src < 2 ^ 64"
    and t: "mem_only s t" "lookup (mem t) pt = lookup (mem s) pt" "same_pages (- user_frames (mem s) pt) (mem s) (mem t)"
    and get: "\<And>va. uget (mem t) pt va =
      (if unat (va - dstva) < n then Some (src ! unat (va - dstva)) else uget (mem s) pt va)"
  shows "copyout_post ps s pt dstva src r u"
proof -
  obtain j where j: "j \<le> length src - n" and
    g: "\<And>va. uget (mem u) pt va = (if unat (va - (dstva + of_nat n)) < j
        then Some (drop n src ! unat (va - (dstva + of_nat n))) else uget (mem t) pt va)" and
    r: "if r = 0 then j = length src - n
        else r = - 1 \<and> j < length src - n \<and> uget (mem t) pt (dstva + of_nat n + of_nat j) = None"
    using post unfolding copyout_post_def length_drop by blast
  have bound: "n + j \<le> 2 ^ 64" using j n by linarith
  have assoc: "va - (dstva + of_nat n) = va - dstva - of_nat n" for va by simp
  have u: "uget (mem u) pt va = (if unat (va - dstva) < n + j
      then Some (src ! unat (va - dstva)) else uget (mem s) pt va)" for va
  proof (cases "j = 0")
    case True
    then show ?thesis using g [of va] get [of va] by simp
  next
    case False
    note sh = unat_shift [OF bound, of "va - dstva"]
    show ?thesis
      using g [of va] get [of va] sh False n(2) unfolding assoc by auto
  qed
  have "uget (mem s) pt (dstva + of_nat (n + j)) = None" if "r \<noteq> 0"
  proof -
    have "n + j < 2 ^ 64" using that r n by auto
    then have "unat (of_nat (n + j) :: u64) = n + j" by (intro unat_of_nat_small) simp
    then have "\<not> unat (dstva + of_nat (n + j) - dstva) < n" by simp
    then show ?thesis using get [of "dstva + of_nat (n + j)"] that r by (simp add: add.assoc)
  qed
  moreover have fr: "user_frames (mem t) pt = user_frames (mem s) pt"
    using t(2) by (simp add: user_frames_def user_page_def)
  ultimately show ?thesis
    using post t u j r n(2) mem_only_trans [OF t(1)] same_pages_trans [OF t(3)]
    unfolding copyout_post_def fr by (auto intro!: exI [of _ "n + j"])
qed

lemma copyout_spec:
  fixes s :: "'z kmem_scheme"
  assumes "uspace s ps pt" "length src = unat len"
  shows "wp (copyout pt dstva src len) (copyout_post ps s pt dstva src) s"
  using assms
proof (induction pt dstva src len s rule: copyout.induct)
  case (1 pt dstva src len s)
  have pt: "ptab s ps 2 pt" using "1.prems" by (simp add: uspace_def)
  let ?va0 = "PGROUNDDOWN dstva" and ?n = "chunk dstva len" and ?up = "user_page (mem s) pt dstva"
  have wa: "walkaddr pt ?va0 s = Ret (if ?up then PTE2PA (lookup (mem s) pt dstva) else 0) s"
    using walkaddr_exec [OF pt] by (simp add: user_page_PGROUNDDOWN lookup_PGROUNDDOWN)
  consider "len = 0" | "len > 0" "\<not> ?up" | "len > 0" "?up" by (auto simp: word_gt_0)
  then show ?case
  proof cases
    case 1
    then show ?thesis using "1.prems" by (simp add: wp_def copyout.simps copyout_post_def)
  next
    case 2
    then have "copyout pt dstva src len s = Ret (- 1) s"
      by (simp add: copyout.simps [of pt dstva src len s] wa kexec Let_def)
    moreover have "copyout_post ps s pt dstva src (- 1) s"
      using 2 "1.prems" by (auto simp: copyout_post_def uget_def word_less_nat_alt intro!: exI [of _ 0])
    ultimately show ?thesis by (rule wpI)
  next
    case 3
    let ?pa = "PTE2PA (lookup (mem s) pt dstva)" and ?bs = "take (unat ?n) src"
    define t where "t = s\<lparr>mem := bytes_put (mem s) (user_pa (mem s) pt dstva) ?bs\<rparr>"
    have nz: "?pa \<noteq> 0" using "1.prems" 3(2) by (auto simp: uspace_def)
    have b: "0 < ?n" "?n \<le> len" using chunk_bounds [OF 3(1)] by auto
    have n: "0 < unat ?n" "unat ?n \<le> length src" "length ?bs = unat ?n"
      using b "1.prems"(2) by (auto simp: word_less_nat_alt word_le_nat_alt)
    note wr = user_write [OF "1.prems"(1) 3(2) 3(1) n(3), folded t_def]
    have exec: "copyout pt dstva src len s = copyout pt (?va0 + PGSIZE) (drop (unat ?n) src) (len - ?n) t"
      using 3 nz by (simp add: copyout.simps [of pt dstva src len s] wa kexec Let_def t_def user_pa_def)
    have IH: "wp (copyout pt (?va0 + PGSIZE) (drop (unat ?n) src) (len - ?n))
        (copyout_post ps t pt (?va0 + PGSIZE) (drop (unat ?n) src)) t"
      by (rule "1.IH" [OF 3(1) refl refl wa])
        (use 3 nz wr(1) "1.prems"(2) b in \<open>auto simp: kexec t_def user_pa_def unat_sub\<close>)
    have "copyout_post ps s pt dstva src r u"
      if p: "copyout_post ps t pt (?va0 + PGSIZE) (drop (unat ?n) src) r u" for r u
    proof (rule copyout_post_step [of ps t pt dstva "unat ?n"])
      show "copyout_post ps t pt (dstva + of_nat (unat ?n)) (drop (unat ?n) src) r u"
      proof (cases "?n = len")
        case False
        then show ?thesis using p chunk_next [OF 3(1) False] by simp
      next
        case True
        then have "drop (unat ?n) src = []" using "1.prems"(2) by simp
        then show ?thesis using p by (cases "r = 0") (simp_all add: copyout_post_def)
      qed
      show "same_pages (- user_frames (mem s) pt) (mem s) (mem t)"
        by (rule same_pages_mono [OF wr(3)]) (use 3(2) in \<open>auto simp: user_frames_def\<close>)
      show "uget (mem t) pt va = (if unat (va - dstva) < unat ?n then Some (src ! unat (va - dstva))
          else uget (mem s) pt va)" for va
        using wr(4) [of va] n(2,3) by simp
    qed (use n wr(2) "1.prems"(2) unat_bound [of len] in \<open>auto simp: t_def fun_eq_iff\<close>)
    with IH show ?thesis by (auto simp: wp_def exec split: outcome.splits)
  qed
qed

lemma copystr_spec:
  assumes "copystr m p n = (bs, got)"
  shows "length bs \<le> n" "k < length bs \<Longrightarrow> bs ! k = m (mem_at p k)"
    "got \<Longrightarrow> \<exists>xs. bs = xs @ [0] \<and> 0 \<notin> set xs" "\<not> got \<Longrightarrow> length bs = n \<and> 0 \<notin> set bs"
proof -
  have "length bs \<le> n \<and> (\<forall>k < length bs. bs ! k = m (mem_at p k)) \<and>
      (if got then \<exists>xs. bs = xs @ [0] \<and> 0 \<notin> set xs else length bs = n \<and> 0 \<notin> set bs)"
    using assms
  proof (induction n arbitrary: p bs got)
    case (Suc n)
    show ?case
    proof (cases "m p = 0")
      case True
      then show ?thesis using Suc.prems by auto
    next
      case False
      obtain bs' where r: "copystr m (p + 1) n = (bs', got)" "bs = m p # bs'"
        using Suc.prems False by (auto split: prod.splits)
      note IH = Suc.IH [OF r(1)]
      have "bs ! k = m (mem_at p k)" if "k < length bs" for k
        using that IH r(2) by (cases k) auto
      moreover have "\<exists>xs. bs = xs @ [0] \<and> 0 \<notin> set xs" if g: "got"
      proof -
        obtain xs where "bs' = xs @ [0]" "0 \<notin> set xs" using IH g by auto
        then show ?thesis using r(2) False by (intro exI [of _ "m p # xs"]) auto
      qed
      ultimately show ?thesis using IH r(2) False by auto
    qed
  qed simp
  then show "length bs \<le> n" "k < length bs \<Longrightarrow> bs ! k = m (mem_at p k)"
    "got \<Longrightarrow> \<exists>xs. bs = xs @ [0] \<and> 0 \<notin> set xs" "\<not> got \<Longrightarrow> length bs = n \<and> 0 \<notin> set bs"
    by auto
qed

definition copyinstr_post :: "mem \<Rightarrow> u64 \<Rightarrow> u64 \<Rightarrow> nat \<Rightarrow> int \<Rightarrow> u8 list \<Rightarrow> bool" where
  "copyinstr_post m pt srcva n r bs \<longleftrightarrow> length bs \<le> n \<and>
     (\<forall>k < length bs. uget m pt (srcva + of_nat k) = Some (bs ! k)) \<and>
     (if r = 0 then \<exists>xs. bs = xs @ [0] \<and> 0 \<notin> set xs
      else r = - 1 \<and> 0 \<notin> set bs \<and>
        (length bs = n \<or> uget m pt (srcva + of_nat (length bs)) = None))"

lemma copyinstr_post_append:
  assumes "\<And>k. k < length bs \<Longrightarrow> uget m pt (srcva + of_nat k) = Some (bs ! k)" "0 \<notin> set bs"
    and "copyinstr_post m pt (srcva + of_nat (length bs)) n r rest"
  shows "copyinstr_post m pt srcva (length bs + n) r (bs @ rest)"
proof -
  have "uget m pt (srcva + of_nat k) = Some ((bs @ rest) ! k)" if "k < length (bs @ rest)" for k
  proof (cases "k < length bs")
    case False
    then obtain j where "k = length bs + j" using le_Suc_ex not_less by blast
    then show ?thesis using assms(3) that by (simp add: copyinstr_post_def add.assoc)
  qed (use assms(1) in \<open>simp add: nth_append\<close>)
  moreover have "\<exists>xs. bs @ rest = xs @ [0] \<and> 0 \<notin> set xs" if r: "r = 0"
  proof -
    obtain xs where "rest = xs @ [0]" "0 \<notin> set xs"
      using assms(3) r by (auto simp: copyinstr_post_def)
    then show ?thesis using assms(2) by (intro exI [of _ "bs @ xs"]) auto
  qed
  ultimately show ?thesis
    using assms(2,3) by (auto simp: copyinstr_post_def add.assoc)
qed

lemma copyinstr_spec:
  assumes "uspace s ps pt"
  shows "\<exists>r bs. copyinstr pt srcva mx s = Ret (r, bs) s \<and> copyinstr_post (mem s) pt srcva (unat mx) r bs"
  using assms
proof (induction pt srcva mx s rule: copyinstr.induct)
  case (1 pt srcva mx s)
  have pt: "ptab s ps 2 pt" using "1.prems" by (simp add: uspace_def)
  let ?va0 = "PGROUNDDOWN srcva" and ?n = "chunk srcva mx" and ?up = "user_page (mem s) pt srcva"
  have wa: "walkaddr pt ?va0 s = Ret (if ?up then PTE2PA (lookup (mem s) pt srcva) else 0) s"
    using walkaddr_exec [OF pt] by (simp add: user_page_PGROUNDDOWN lookup_PGROUNDDOWN)
  consider "mx = 0" | "mx > 0" "\<not> ?up" | "mx > 0" "?up" by (auto simp: word_gt_0)
  then show ?case
  proof cases
    case 1
    then show ?thesis by (simp add: copyinstr.simps copyinstr_post_def)
  next
    case 2
    then have "copyinstr pt srcva mx s = Ret (- 1, []) s"
      by (simp add: copyinstr.simps [of pt srcva mx s] wa kexec Let_def)
    with 2 show ?thesis by (simp add: copyinstr_post_def uget_def)
  next
    case 3
    let ?pa = "PTE2PA (lookup (mem s) pt srcva)"
    obtain bs got where c: "copystr (mem s) (?pa + (srcva - ?va0)) (unat ?n) = (bs, got)" by fastforce
    note cs = copystr_spec [OF c]
    have nz: "?pa \<noteq> 0" using "1.prems" 3(2) by (auto simp: uspace_def)
    have b: "?n \<le> mx" using chunk_bounds [OF 3(1)] by auto
    have get: "uget (mem s) pt (srcva + of_nat k) = Some (bs ! k)" if "k < length bs" for k
      using user_pa_chunk [OF 3(1), of k srcva] that cs(1,2) 3(2) by (simp add: uget_def mem_at_def)
    show ?thesis
    proof (cases got)
      case True
      then have "copyinstr pt srcva mx s = Ret (0, bs) s"
        using 3 nz c by (simp add: copyinstr.simps [of pt srcva mx s] wa kexec Let_def)
      moreover have "copyinstr_post (mem s) pt srcva (unat mx) 0 bs"
        using get cs(1,3) True b by (simp add: copyinstr_post_def word_le_nat_alt)
      ultimately show ?thesis by blast
    next
      case False
      have "\<exists>r bs. copyinstr pt (?va0 + PGSIZE) (mx - ?n) s = Ret (r, bs) s \<and>
          copyinstr_post (mem s) pt (?va0 + PGSIZE) (unat (mx - ?n)) r bs"
        by (rule "1.IH" [OF 3(1) refl refl wa]) (use nz 3(2) "1.prems" c False in \<open>auto simp: kexec\<close>)
      then obtain r rest where IH: "copyinstr pt (?va0 + PGSIZE) (mx - ?n) s = Ret (r, rest) s"
          "copyinstr_post (mem s) pt (?va0 + PGSIZE) (unat (mx - ?n)) r rest"
        by blast
      have eq: "copyinstr pt srcva mx s = Ret (r, bs @ rest) s"
        using 3 nz IH(1) c False by (simp add: copyinstr.simps [of pt srcva mx s] wa kexec Let_def)
      have l: "length bs = unat ?n" "0 \<notin> set bs" using cs(4) False by auto
      have un: "unat mx = length bs + unat (mx - ?n)" using b l by (simp add: unat_sub word_le_nat_alt)
      have "copyinstr_post (mem s) pt (srcva + of_nat (length bs)) (unat (mx - ?n)) r rest"
      proof (cases "?n = mx")
        case False
        then show ?thesis using IH(2) chunk_next [OF 3(1) False] l by simp
      next
        case True
        then show ?thesis using IH(2) by (cases "r = 0") (auto simp: copyinstr_post_def)
      qed
      then have "copyinstr_post (mem s) pt srcva (unat mx) r (bs @ rest)"
        unfolding un using get l(2) by (intro copyinstr_post_append)
      with eq show ?thesis by blast
    qed
  qed
qed

section \<open>Properties\<close>

text \<open>
  A machine with one user page: the tables 0x87FFC000, 0x87FFD000 and 0x87FFE000 map virtual page 0
  to 0x87FFF000, with all user permissions. No page is free.
\<close>

definition demo_entry :: "u64 \<Rightarrow> u64 \<Rightarrow> mem \<Rightarrow> mem" where
  "demo_entry pt e m = store64 m pt e"

definition demo_mem :: mem where
  "demo_mem = demo_entry 0x87FFC000 (PA2PTE 0x87FFD000 OR PTE_V)
     (demo_entry 0x87FFD000 (PA2PTE 0x87FFE000 OR PTE_V)
       (demo_entry 0x87FFE000 (PA2PTE 0x87FFF000 OR 0x1F) (\<lambda>_. 0)))"

definition demo :: kmem where
  "demo = \<lparr>held = {}, mem = demo_mem, freelist = 0, kend = 0x87FFC000\<rparr>"

lemma entry_zero: "entry (\<lambda>_. 0) p i = 0"
  by (simp add: entry_def load64_def get_bytes_def upt_rec)

lemma demo_entries:
  assumes "i < 512"
  shows "entry demo_mem 0x87FFC000 i = (if i = 0 then PA2PTE 0x87FFD000 OR PTE_V else 0)"
    "entry demo_mem 0x87FFD000 i = (if i = 0 then PA2PTE 0x87FFE000 OR PTE_V else 0)"
    "entry demo_mem 0x87FFE000 i = (if i = 0 then PA2PTE 0x87FFF000 OR 0x1F else 0)"
proof -
  have e: "entry (demo_entry p v m) q i = (if p = q \<and> i = 0 then v else entry m q i)"
    if "page_aligned p" "page_aligned q" for p q v m
    using entry_store [of p 0 q i m v] that assms by (auto simp: demo_entry_def)
  have al: "page_aligned 0x87FFC000" "page_aligned 0x87FFD000" "page_aligned 0x87FFE000"
    by (simp_all add: page_aligned_def)
  show "entry demo_mem 0x87FFC000 i = (if i = 0 then PA2PTE 0x87FFD000 OR PTE_V else 0)"
    "entry demo_mem 0x87FFD000 i = (if i = 0 then PA2PTE 0x87FFE000 OR PTE_V else 0)"
    "entry demo_mem 0x87FFE000 i = (if i = 0 then PA2PTE 0x87FFF000 OR 0x1F else 0)"
    by (simp_all add: demo_mem_def e al entry_zero)
qed

lemma demo_valid:
  "valid (PA2PTE p OR PTE_V)" "valid (PA2PTE p OR 0x1F)" "\<not> valid 0"
  "(PA2PTE p OR 0x1F) AND PTE_U \<noteq> 0"
  "PTE2PA (PA2PTE 0x87FFD000 OR PTE_V) = 0x87FFD000" "PTE2PA (PA2PTE 0x87FFE000 OR PTE_V) = 0x87FFE000"
  "PTE2PA (PA2PTE 0x87FFF000 OR 0x1F) = 0x87FFF000"
proof -
  have b: "bit ((PA2PTE p OR 0x1F) AND PTE_U) 4" "bit ((PA2PTE p OR 0x1F) AND PTE_V) 0"
    by (simp_all add: bit_simps)
  show "(PA2PTE p OR 0x1F) AND PTE_U \<noteq> 0"
  proof
    assume "(PA2PTE p OR 0x1F) AND PTE_U = 0"
    with b(1) show False by simp
  qed
  show "valid (PA2PTE p OR 0x1F)"
    unfolding valid_def
  proof
    assume "(PA2PTE p OR 0x1F) AND PTE_V = 0"
    with b(2) show False by simp
  qed
qed (simp_all add: valid_def page_aligned_def)

lemma demo_tables:
  "tpages demo_mem 2 0x87FFC000 = {0x87FFC000, 0x87FFD000, 0x87FFE000}" "twf demo_mem 2 0x87FFC000"
proof -
  have v1: "{i. i < 512 \<and> valid (entry demo_mem 0x87FFD000 i)} = {0}"
    and v2: "{i. i < 512 \<and> valid (entry demo_mem 0x87FFC000 i)} = {0}"
    using demo_entries demo_valid by (auto split: if_splits)
  have t1: "tpages demo_mem 1 0x87FFD000 = {0x87FFD000, 0x87FFE000}"
    using demo_entries(2) [of 0] demo_valid(6) by (simp add: One_nat_def tpages.simps(2) v1)
  have c: "child demo_mem 1 0x87FFC000 i = (if i = 0 then {0x87FFD000, 0x87FFE000} else {})"
    "child demo_mem 0 0x87FFD000 i = (if i = 0 then {0x87FFE000} else {})" if "i < 512" for i
    using that t1 by (auto simp: child_def demo_entries demo_valid)
  show "tpages demo_mem 2 0x87FFC000 = {0x87FFC000, 0x87FFD000, 0x87FFE000}"
    using demo_entries(1) [of 0] demo_valid(5) t1 by (simp add: numeral_2_eq_2 tpages.simps v2)
  have al: "page_aligned 0x87FFD000" "page_aligned 0x87FFC000" by (simp_all add: page_aligned_def)
  have w1: "twf demo_mem 1 0x87FFD000"
    using c(2) al by (simp add: One_nat_def twf_child)
  then show "twf demo_mem 2 0x87FFC000"
    unfolding numeral_2_eq_2 twf_child One_nat_def [symmetric]
    using c(1) al by (simp add: demo_entries(1) demo_valid)
qed

lemma demo_lookup:
  assumes "va < MAXVA"
  shows "lookup demo_mem 0x87FFC000 va = (if PGROUNDDOWN va = 0 then PA2PTE 0x87FFF000 OR 0x1F else 0)"
proof -
  have z: "idx k 0 = 0" "PGROUNDDOWN 0 = 0" for k by (simp_all add: idx_def PX_def PGROUNDDOWN_def)
  have "(\<forall>k \<le> 2. idx k va = idx k 0) \<longleftrightarrow> PGROUNDDOWN va = PGROUNDDOWN 0"
    by (rule same_idx_iff) (use assms in simp_all)
  moreover have "(\<forall>k \<le> 2. idx k va = 0) \<longleftrightarrow> idx 0 va = 0 \<and> idx 1 va = 0 \<and> idx 2 va = 0"
    by (auto simp: numeral_2_eq_2 le_Suc_eq)
  ultimately have p: "PGROUNDDOWN va = 0 \<longleftrightarrow> idx 0 va = 0 \<and> idx 1 va = 0 \<and> idx 2 va = 0"
    by (simp add: z)
  have "lookup demo_mem 0x87FFC000 va = lookups demo_mem (Suc (Suc 0)) 0x87FFC000 va"
    by (simp add: lookup_def numeral_2_eq_2)
  also have "\<dots> = (if idx 0 va = 0 \<and> idx 1 va = 0 \<and> idx 2 va = 0 then PA2PTE 0x87FFF000 OR 0x1F else 0)"
    by (simp add: demo_entries demo_valid Let_def numeral_2_eq_2)
  finally show ?thesis by (simp add: p)
qed

lemma demo_uspace: "uspace demo [] 0x87FFC000"
proof -
  have pt: "ptab demo [] 2 0x87FFC000"
    by (auto simp: ptab_def demo_def demo_tables free_list_def page_ok_def page_aligned_def)
  have up: "user_page demo_mem 0x87FFC000 va \<longleftrightarrow> va < MAXVA \<and> PGROUNDDOWN va = 0" for va
    using demo_lookup [of va] demo_valid by (auto simp: user_page_def split: if_splits)
  have "mem demo = demo_mem" by (simp add: demo_def)
  then show ?thesis
    using pt up demo_lookup demo_valid by (auto simp: uspace_def demo_tables)
qed

text \<open>
  C3: \<open>mappages\<close> on an unmapped, page-aligned range maps exactly that range to consecutive physical pages
  with the given permissions: it either succeeds, or returns -1 having run out of memory with a prefix
  of the range mapped. Translations outside the range never change, the tables stay a tree in usable
  pages, and memory other than tables and pages taken from the free list is untouched.
\<close>

theorem mappages_maps_range:
  assumes "ptab s ps 2 pt" "page_aligned va" "0 < n" "unat va + 4096 * unat n \<le> 2 ^ 38"
    and "\<And>p. page_aligned p \<Longrightarrow> va \<le> p \<Longrightarrow> p < va + n * PGSIZE \<Longrightarrow> \<not> valid (lookup (mem s) pt p)"
  shows "wp (mappages pt va (n * PGSIZE) pa perm) (\<lambda>r t. \<exists>qs. grown ps s pt qs t \<and>
     (r = 0 \<and> mapped pt va (va + n * PGSIZE) pa perm (mem s) (mem t) \<or>
      r = - 1 \<and> qs = [] \<and> (\<exists>b. page_aligned b \<and> va \<le> b \<and> b < va + n * PGSIZE \<and>
        mapped pt va b pa perm (mem s) (mem t)))) s"
proof -
  let ?l = "va + n * PGSIZE - PGSIZE"
  have n: "1 \<le> unat n" using assms(3) by (simp add: word_less_nat_alt)
  have "unat (n * PGSIZE) = unat n * 4096"
    using assms(4) unat_mult_lem [of n PGSIZE] by simp
  then have u: "unat (va + n * PGSIZE) = unat va + 4096 * unat n"
    using assms(4) unat_add_lem [of va "n * PGSIZE"] by simp
  have le: "PGSIZE \<le> va + n * PGSIZE" using u n by (simp add: word_le_nat_alt)
  have ul: "unat ?l = unat va + 4096 * unat n - 4096" using u le by (simp add: unat_sub)
  obtain j where j: "unat va = 4096 * j" using assms(2) by (elim page_alignedE)
  have al: "page_aligned ?l" using ul j n by (simp add: page_aligned_unat)
  have last: "PGROUNDDOWN (va + n * PGSIZE - 1) = ?l"
  proof -
    have "va + n * PGSIZE - 1 = mem_at ?l 4095" by (simp add: mem_at_def)
    then show ?thesis using PGROUNDDOWN_at [OF al, of 4095] by simp
  qed
  have "wp (mappages_loop pt va ?l pa perm) (mappages_post ps s pt va ?l pa perm) s"
  proof (rule mappages_loop_spec [OF assms(1,2) al])
    show "va \<le> ?l" using ul n by (simp add: word_le_nat_alt)
    show "?l < MAXVA" using ul n assms(4) by (simp add: word_less_nat_alt)
    fix p assume "page_aligned p" "va \<le> p" "p \<le> ?l"
    moreover have "?l < va + n * PGSIZE" using ul u n by (simp add: word_less_nat_alt)
    ultimately show "\<not> valid (lookup (mem s) pt p)" by (intro assms(5)) auto
  qed
  then have "wp (mappages pt va (n * PGSIZE) pa perm) (mappages_post ps s pt va ?l pa perm) s"
    using last assms(2) by (simp add: mappages_def page_aligned_iff)
  then show ?thesis
  proof (rule wp_mono)
    fix r t assume "mappages_post ps s pt va ?l pa perm r t"
    moreover have "b < va + n * PGSIZE" if "b \<le> ?l" for b
      using that ul u n by (simp add: word_less_nat_alt word_le_nat_alt)
    ultimately show "\<exists>qs. grown ps s pt qs t \<and>
     (r = 0 \<and> mapped pt va (va + n * PGSIZE) pa perm (mem s) (mem t) \<or>
      r = - 1 \<and> qs = [] \<and> (\<exists>b. page_aligned b \<and> va \<le> b \<and> b < va + n * PGSIZE \<and>
        mapped pt va b pa perm (mem s) (mem t)))"
      unfolding mappages_post_def by fastforce
  qed
qed

theorem mappages_maps_range_witness:
  "wp (mappages 0x87FFC000 PGSIZE (1 * PGSIZE) 0x80000000 PTE_R)
     (\<lambda>r t. r \<in> {0, - 1} \<and> lookup (mem t) 0x87FFC000 0 = PA2PTE 0x87FFF000 OR 0x1F) demo"
proof -
  have pt: "ptab demo [] 2 0x87FFC000" using demo_uspace by (simp add: uspace_def)
  have z: "PGROUNDDOWN 0 = 0" by (simp add: PGROUNDDOWN_def)
  show ?thesis
  proof (rule wp_mono [OF mappages_maps_range [OF pt]])
    fix p assume "page_aligned p" "PGSIZE \<le> p" "p < PGSIZE + 1 * PGSIZE"
    then have "PGROUNDDOWN p \<noteq> 0" "p < MAXVA" by (auto simp: page_aligned_iff intro: less_trans [of _ 8192])
    then show "\<not> valid (lookup (mem demo) 0x87FFC000 p)"
      using demo_lookup [of p] demo_valid by (simp add: demo_def)
  qed (use z demo_lookup [of 0] in \<open>auto simp: page_aligned_def mapped_def demo_def\<close>)
qed

text \<open>
  C2: what \<open>copyout\<close> writes at a user address, \<open>copyin\<close> reads back. When \<open>copyout\<close> returns 0, every byte of
  the source is at its place in user memory, no other user byte and no translation changed, and memory
  outside the user's pages is untouched; when it returns -1 some address of the range is not mapped for
  the user. Both calls always return.
\<close>

theorem copyout_copyin:
  assumes "uspace s ps pt" "length src = unat len"
  shows "wp (copyout pt va src len) (\<lambda>r t.
    (\<forall>vb. user_page (mem t) pt vb = user_page (mem s) pt vb) \<and>
    same_pages (- user_frames (mem s) pt) (mem s) (mem t) \<and>
    (if r = 0 then copyin pt va len t = Ret (0, src) t \<and>
       (\<forall>vb. \<not> unat (vb - va) < unat len \<longrightarrow> uget (mem t) pt vb = uget (mem s) pt vb)
     else r = - 1 \<and> (\<exists>k < unat len. uget (mem s) pt (va + of_nat k) = None))) s"
  using copyout_spec [OF assms]
proof (rule wp_mono)
  fix r t assume p: "copyout_post ps s pt va src r t"
  then have us: "uspace t ps pt" and lk: "lookup (mem t) pt = lookup (mem s) pt"
    and fr: "same_pages (- user_frames (mem s) pt) (mem s) (mem t)"
    by (auto simp: copyout_post_def)
  have in_t: "copyin pt va len t = Ret (0, src) t" if r: "r = 0"
  proof -
    have get: "uget (mem t) pt (va + of_nat k) = Some (src ! k)" if "k < unat len" for k
    proof -
      have "unat (of_nat k :: u64) = k" using that unat_bound [of len] by (intro unat_of_nat_small) simp
      then show ?thesis using p r assms(2) that by (simp add: copyout_post_def)
    qed
    obtain q bs where q: "copyin pt va len t = Ret (q, bs) t"
      "\<forall>k < length bs. uget (mem t) pt (va + of_nat k) = Some (bs ! k)"
      "if q = 0 then length bs = unat len
       else q = - 1 \<and> length bs < unat len \<and> uget (mem t) pt (va + of_nat (length bs)) = None"
      using copyin_spec [OF us] by blast
    have "q = 0" using q(3) get by (cases "q = 0") auto
    moreover have "bs = src" using q(2,3) get assms(2) \<open>q = 0\<close> by (intro nth_equalityI) auto
    ultimately show ?thesis using q(1) by simp
  qed
  show "(\<forall>vb. user_page (mem t) pt vb = user_page (mem s) pt vb) \<and>
    same_pages (- user_frames (mem s) pt) (mem s) (mem t) \<and>
    (if r = 0 then copyin pt va len t = Ret (0, src) t \<and>
       (\<forall>vb. \<not> unat (vb - va) < unat len \<longrightarrow> uget (mem t) pt vb = uget (mem s) pt vb)
     else r = - 1 \<and> (\<exists>k < unat len. uget (mem s) pt (va + of_nat k) = None))"
    using p lk fr in_t assms(2) by (auto simp: copyout_post_def user_page_def)
qed

theorem copyout_copyin_witness:
  "wp (copyout 0x87FFC000 4 [7, 8, 9] 3)
     (\<lambda>r t. r = 0 \<and> copyin 0x87FFC000 4 3 t = Ret (0, [7, 8, 9]) t) demo"
proof -
  have g: "uget demo_mem 0x87FFC000 (4 + of_nat k) \<noteq> None" if "k < 3" for k
  proof -
    have "k = 0 \<or> k = 1 \<or> k = 2" using that by linarith
    then have "PGROUNDDOWN (4 + of_nat k) = 0" "(4 + of_nat k :: u64) < MAXVA"
      by (auto simp: PGROUNDDOWN_def)
    then show ?thesis
      using demo_lookup [of "4 + of_nat k"] demo_valid by (simp add: uget_def user_page_def)
  qed
  then have "\<not> (\<exists>k < unat (3 :: u64). uget (mem demo) 0x87FFC000 (4 + of_nat k) = None)"
    by (auto simp: demo_def)
  then show ?thesis
    by (intro wp_mono [OF copyout_copyin [OF demo_uspace]]) (auto split: if_splits)
qed

text \<open>
  C37: \<open>copyinstr\<close> returns 0 only with a NUL-terminated string of at most \<open>max\<close> bytes that is what user
  memory holds, and -1 only if the first \<open>max\<close> bytes have no NUL or an address before one is not mapped
  for the user; it reads nothing else and changes nothing.
\<close>

theorem copyinstr_string:
  assumes "uspace s ps pt"
  shows "wp (copyinstr pt va mx) (\<lambda>(r, bs) t. t = s \<and> length bs \<le> unat mx \<and>
    (\<forall>k < length bs. uget (mem s) pt (va + of_nat k) = Some (bs ! k)) \<and>
    (if r = 0 then \<exists>xs. bs = xs @ [0] \<and> 0 \<notin> set xs
     else r = - 1 \<and> 0 \<notin> set bs \<and>
       (length bs = unat mx \<or> uget (mem s) pt (va + of_nat (length bs)) = None))) s"
  using copyinstr_spec [OF assms, of va mx] by (auto simp: wp_def copyinstr_post_def)

theorem copyinstr_string_witness:
  "wp (copyinstr 0x87FFC000 16 8) (\<lambda>(r, bs) t. length bs \<le> 8) demo"
  by (rule wp_mono [OF copyinstr_string [OF demo_uspace]]) auto

end
