(* ===== verification/Proc_Table.thy ===== *)
theory Proc_Table
  imports Vm
begin

text \<open>
  The process table of src/kernel/proc.h, and the operations of src/kernel/proc.c that block and
  wake threads: \<open>sleep\<close>, \<open>wakeup\<close>, \<open>sched\<close>, \<open>yield\<close>, \<open>kill\<close>. A thread that calls \<open>sched\<close> leaves the
  CPU: its run ends with the outcome \<open>Sleep\<close>. A null process pointer that the code dereferences is a
  page fault in the kernel, which ends in the panic of \<open>kerneltrap\<close>.
\<close>

section \<open>Processes\<close>

abbreviation (input) NPROC :: nat where "NPROC \<equiv> 64"
abbreviation (input) NOFILE :: nat where "NOFILE \<equiv> 16"

datatype procstate = UNUSED | SLEEPING | RUNNABLE | RUNNING | ZOMBIE

record trapframe =
  tf_kernel_satp :: u64
  tf_kernel_sp :: u64
  tf_kernel_trap :: u64
  tf_epc :: u64
  tf_kernel_hartid :: u64
  tf_ra :: u64
  tf_sp :: u64
  tf_gp :: u64
  tf_tp :: u64
  tf_t :: "nat \<Rightarrow> u64"
  tf_s :: "nat \<Rightarrow> u64"
  tf_a :: "nat \<Rightarrow> u64"

record context_regs =
  ctx_ra :: u64
  ctx_sp :: u64
  ctx_s :: "nat \<Rightarrow> u64"

text \<open>Pointers into the tables of processes, files and inodes are indices, the null pointer \<open>None\<close>.\<close>

record proc =
  p_state :: procstate
  p_parent :: "nat option"
  p_chan :: "chan option"
  p_killed :: bool
  p_xstate :: u32
  p_pid :: u32
  p_kstack :: u64
  p_sz :: u64
  p_pagetable :: u64
  p_trapframe :: u64
  p_context :: context_regs
  p_ofile :: "nat \<Rightarrow> nat option"
  p_cwd :: "nat option"
  p_name :: view

record kproc = kvm +
  ptable :: "nat \<Rightarrow> proc"
  trapframes :: "u64 \<Rightarrow> trapframe"
  cur :: "nat option"
  nextpid :: u32
  initproc :: "nat option"

definition set_proc :: "nat \<Rightarrow> (proc \<Rightarrow> proc) \<Rightarrow> (unit, 'z kproc_scheme) kop" where
  "set_proc p f = kmodify (\<lambda>s. s\<lparr>ptable := (ptable s)(p := f (ptable s p))\<rparr>)"

definition get_proc :: "nat \<Rightarrow> (proc \<Rightarrow> 'a) \<Rightarrow> ('a, 'z kproc_scheme) kop" where
  "get_proc p f = kget (\<lambda>s. f (ptable s p))"

text \<open>\<open>myproc\<close> is null on a CPU that runs no process; \<open>the_proc\<close> is \<open>myproc()->...\<close>.\<close>

definition myproc :: "(nat option, 'z kproc_scheme) kop" where
  "myproc = kget cur"

definition the_proc :: "(nat, 'z kproc_scheme) kop" where
  "the_proc = kbind myproc (\<lambda>p. case p of None \<Rightarrow> kpanic ''kerneltrap'' | Some q \<Rightarrow> kreturn q)"

definition allocpid :: "(u32, 'z kproc_scheme) kop" where
  "allocpid = kthen (klock PidLock) (kbind (kget nextpid) (\<lambda>pid.
     kthen (kmodify (\<lambda>s. s\<lparr>nextpid := nextpid s + 1\<rparr>)) (kthen (kunlock PidLock) (kreturn pid))))"

section \<open>Giving up the CPU\<close>

text \<open>
  \<open>sched\<close>: the thread must hold its own process lock and no other (\<open>noff\<close> is the number of locks held,
  by theory Spinlock), and must have changed its state. It then switches to the scheduler. The check
  that interrupts are off cannot fail while a lock is held.
\<close>

definition sched :: "(unit, 'z kproc_scheme) kop" where
  "sched = kbind the_proc (\<lambda>p. kseq [
     kbind (kget held) (\<lambda>h. kpanic_if (ProcLock p \<notin> h) ''sched p->lock''),
     kbind (kget held) (\<lambda>h. kpanic_if (h \<noteq> {ProcLock p}) ''sched locks''),
     kbind (get_proc p p_state) (\<lambda>st. kpanic_if (st = RUNNING) ''sched running''),
     (\<lambda>s. Sleep s)])"

definition sleep :: "chan \<Rightarrow> lockid \<Rightarrow> (unit, 'z kproc_scheme) kop" where
  "sleep c lk = kbind the_proc (\<lambda>p. kseq [
     kwhen (lk \<noteq> ProcLock p) (kthen (klock (ProcLock p)) (kunlock lk)),
     set_proc p (\<lambda>q. q\<lparr>p_chan := Some c\<rparr>),
     set_proc p (\<lambda>q. q\<lparr>p_state := SLEEPING\<rparr>),
     sched])"

definition yield :: "(unit, 'z kproc_scheme) kop" where
  "yield = kbind the_proc (\<lambda>p. kseq [
     klock (ProcLock p),
     set_proc p (\<lambda>q. q\<lparr>p_state := RUNNABLE\<rparr>),
     sched,
     kunlock (ProcLock p)])"

text \<open>What the thread does when the scheduler switches back to it: the rest of \<open>sleep\<close>.\<close>

definition sleep_resume :: "lockid \<Rightarrow> (unit, 'z kproc_scheme) kop" where
  "sleep_resume lk = kbind the_proc (\<lambda>p. kseq [
     set_proc p (\<lambda>q. q\<lparr>p_chan := None\<rparr>),
     kwhen (lk \<noteq> ProcLock p) (kthen (kunlock (ProcLock p)) (klock lk))])"

definition wakeup_one :: "chan \<Rightarrow> nat \<Rightarrow> (unit, 'z kproc_scheme) kop" where
  "wakeup_one c p = kseq [
     klock (ProcLock p),
     kbind (get_proc p id) (\<lambda>q.
       kwhen (p_state q = SLEEPING \<and> p_chan q = Some c) (set_proc p (\<lambda>q. q\<lparr>p_state := RUNNABLE\<rparr>))),
     kunlock (ProcLock p)]"

definition wakeup :: "chan \<Rightarrow> (unit, 'z kproc_scheme) kop" where
  "wakeup c = kfor [0..<NPROC] (wakeup_one c)"

definition wakeup1 :: "nat \<Rightarrow> (unit, 'z kproc_scheme) kop" where
  "wakeup1 p = kseq [
     kbind (kget held) (\<lambda>h. kpanic_if (ProcLock p \<notin> h) ''wakeup1''),
     kbind (get_proc p id) (\<lambda>q.
       kwhen (p_chan q = Some (ChanProc p) \<and> p_state q = SLEEPING)
         (set_proc p (\<lambda>q. q\<lparr>p_state := RUNNABLE\<rparr>)))]"

text \<open>\<open>kill\<close> returns from the middle of its loop: recursion over the processes still to be looked at.\<close>

fun kill_loop :: "u32 \<Rightarrow> nat list \<Rightarrow> (int, 'z kproc_scheme) kop" where
  "kill_loop pid [] = kreturn (- 1)"
| "kill_loop pid (p # ps) = kthen (klock (ProcLock p)) (kbind (get_proc p id) (\<lambda>q.
     if p_pid q = pid then
       kthen (kseq [
         set_proc p (\<lambda>q. q\<lparr>p_killed := True\<rparr>),
         kwhen (p_state q = SLEEPING) (set_proc p (\<lambda>q. q\<lparr>p_state := RUNNABLE\<rparr>)),
         kunlock (ProcLock p)]) (kreturn 0)
     else kthen (kunlock (ProcLock p)) (kill_loop pid ps)))"

definition kill :: "u32 \<Rightarrow> (int, 'z kproc_scheme) kop" where
  "kill pid = kill_loop pid [0..<NPROC]"

lemmas proc_defs = set_proc_def get_proc_def myproc_def the_proc_def

section \<open>wakeup\<close>

definition woken :: "chan \<Rightarrow> nat set \<Rightarrow> (nat \<Rightarrow> proc) \<Rightarrow> (nat \<Rightarrow> proc)" where
  "woken c P pt = (\<lambda>p. if p \<in> P \<and> p_state (pt p) = SLEEPING \<and> p_chan (pt p) = Some c
     then (pt p)\<lparr>p_state := RUNNABLE\<rparr> else pt p)"

lemma wakeup_one_exec:
  assumes "ProcLock p \<notin> held s"
  shows "wakeup_one c p s = Ret () (s\<lparr>ptable := woken c {p} (ptable s)\<rparr>)"
proof -
  have "woken c {p} (ptable s) = (if p_state (ptable s p) = SLEEPING \<and> p_chan (ptable s p) = Some c
      then (ptable s)(p := (ptable s p)\<lparr>p_state := RUNNABLE\<rparr>) else ptable s)"
    by (auto simp: woken_def fun_eq_iff)
  then show ?thesis
    using assms by (cases s) (simp add: wakeup_one_def proc_defs kexec)
qed

lemma wakeup_list:
  assumes "\<forall>p \<in> set ps. ProcLock p \<notin> held s"
  shows "kfor ps (wakeup_one c) s = Ret () (s\<lparr>ptable := woken c (set ps) (ptable s)\<rparr>)"
  using assms
proof (induction ps arbitrary: s)
  case Nil
  then show ?case by (simp add: kexec woken_def)
next
  case (Cons p ps)
  have "woken c (set ps) (woken c {p} (ptable s)) = woken c (set (p # ps)) (ptable s)"
    by (auto simp: woken_def fun_eq_iff)
  then show ?case
    using Cons by (simp add: kexec wakeup_one_exec)
qed

lemma wakeup_exec [kexec]:
  assumes "\<forall>p < NPROC. ProcLock p \<notin> held s"
  shows "wakeup c s = Ret () (s\<lparr>ptable := woken c {..<NPROC} (ptable s)\<rparr>)"
  using assms wakeup_list [of "[0..<NPROC]" s c] by (simp add: wakeup_def atLeast0LessThan)

end
