(* ===== verification/Sleeplock.thy ===== *)
theory Sleeplock
  imports Proc_Table
begin

text \<open>
  src/kernel/sleeplock.c. A sleep lock is a flag and the holder's pid, protected by a spin lock; a
  thread that finds it taken sleeps and, when woken, tests again.
\<close>

section \<open>State and operations\<close>

text \<open>The sleep locks of the kernel: one in each buffer and one in each inode.\<close>

datatype slockid = BufLock nat | InodeLock nat

fun slk :: "slockid \<Rightarrow> lockid" where
  "slk (BufLock i) = BufSleepLk i"
| "slk (InodeLock i) = InodeSleepLk i"

fun slock_chan :: "slockid \<Rightarrow> chan" where
  "slock_chan (BufLock i) = ChanBufLock i"
| "slock_chan (InodeLock i) = ChanInodeLock i"

record sleeplock =
  sl_locked :: u32
  sl_name :: string
  sl_pid :: u32

record ksleep = kproc +
  slocks :: "slockid \<Rightarrow> sleeplock"

definition set_slock :: "slockid \<Rightarrow> (sleeplock \<Rightarrow> sleeplock) \<Rightarrow> (unit, 'z ksleep_scheme) kop" where
  "set_slock l f = kmodify (\<lambda>s. s\<lparr>slocks := (slocks s)(l := f (slocks s l))\<rparr>)"

text \<open>\<open>initlock\<close> on the spin lock inside leaves it free.\<close>

definition initsleeplock :: "slockid \<Rightarrow> string \<Rightarrow> (unit, 'z ksleep_scheme) kop" where
  "initsleeplock l n = kseq [
     set_slock l (\<lambda>k. k\<lparr>sl_name := n\<rparr>),
     set_slock l (\<lambda>k. k\<lparr>sl_locked := 0\<rparr>),
     set_slock l (\<lambda>k. k\<lparr>sl_pid := 0\<rparr>)]"

text \<open>
  The loop of \<open>acquiresleep\<close>, entered with the spin lock held. A thread that sleeps continues, when it
  runs again, with \<open>acquiresleep_resume\<close>: the rest of \<open>sleep\<close>, and the test again.
\<close>

definition acquiresleep_loop :: "slockid \<Rightarrow> (unit, 'z ksleep_scheme) kop" where
  "acquiresleep_loop l = kbind (kget (\<lambda>s. sl_locked (slocks s l))) (\<lambda>v.
     if v \<noteq> 0 then sleep (slock_chan l) (slk l)
     else kseq [
       set_slock l (\<lambda>k. k\<lparr>sl_locked := 1\<rparr>),
       kbind the_proc (\<lambda>p. kbind (get_proc p p_pid) (\<lambda>pid. set_slock l (\<lambda>k. k\<lparr>sl_pid := pid\<rparr>))),
       kunlock (slk l)])"

definition acquiresleep :: "slockid \<Rightarrow> (unit, 'z ksleep_scheme) kop" where
  "acquiresleep l = kthen (klock (slk l)) (acquiresleep_loop l)"

definition acquiresleep_resume :: "slockid \<Rightarrow> (unit, 'z ksleep_scheme) kop" where
  "acquiresleep_resume l = kthen (sleep_resume (slk l)) (acquiresleep_loop l)"

definition releasesleep :: "slockid \<Rightarrow> (unit, 'z ksleep_scheme) kop" where
  "releasesleep l = kseq [
     klock (slk l),
     set_slock l (\<lambda>k. k\<lparr>sl_locked := 0\<rparr>),
     set_slock l (\<lambda>k. k\<lparr>sl_pid := 0\<rparr>),
     wakeup (slock_chan l),
     kunlock (slk l)]"

definition holdingsleep :: "slockid \<Rightarrow> (bool, 'z ksleep_scheme) kop" where
  "holdingsleep l = kthen (klock (slk l)) (kbind (kget (\<lambda>s. slocks s l)) (\<lambda>k.
     kbind (if sl_locked k \<noteq> 0 then kbind the_proc (\<lambda>p. kbind (get_proc p p_pid) (\<lambda>pid. kreturn (sl_pid k = pid)))
            else kreturn False)
       (\<lambda>r. kthen (kunlock (slk l)) (kreturn r))))"

section \<open>Behaviour\<close>

lemma slk_ProcLock [simp]: "slk l \<noteq> ProcLock p" "ProcLock p \<noteq> slk l"
  by (cases l; simp)+

definition slock_free :: "'z ksleep_scheme \<Rightarrow> slockid \<Rightarrow> bool" where
  "slock_free s l \<longleftrightarrow> sl_locked (slocks s l) = 0"

text \<open>The lock is taken by the running process.\<close>

definition slock_mine :: "'z ksleep_scheme \<Rightarrow> slockid \<Rightarrow> bool" where
  "slock_mine s l \<longleftrightarrow> sl_locked (slocks s l) \<noteq> 0 \<and>
     (\<exists>p. cur s = Some p \<and> sl_pid (slocks s l) = p_pid (ptable s p))"

lemma acquiresleep_free [kexec]:
  assumes "slk l \<notin> held s" "slock_free s l" "cur s = Some p"
  shows "acquiresleep l s = Ret () (s\<lparr>slocks := (slocks s)(l := (slocks s l)
     \<lparr>sl_locked := 1, sl_pid := p_pid (ptable s p)\<rparr>)\<rparr>)"
  using assms
  by (cases s) (simp add: acquiresleep_def acquiresleep_loop_def set_slock_def proc_defs kexec slock_free_def)

lemma acquiresleep_taken:
  assumes "held s = {}" "\<not> slock_free s l" "cur s = Some p"
  shows "acquiresleep l s = Sleep (s\<lparr>held := {ProcLock p}, ptable := (ptable s)(p := (ptable s p)
     \<lparr>p_chan := Some (slock_chan l), p_state := SLEEPING\<rparr>)\<rparr>)"
proof -
  have "insert (ProcLock p) {slk l} - {slk l} = {ProcLock p}" by auto
  then show ?thesis
    using assms
    by (simp add: acquiresleep_def acquiresleep_loop_def sleep_def sched_def proc_defs kexec slock_free_def)
qed

lemma holdingsleep_exec [kexec]:
  assumes "slk l \<notin> held s" "cur s = Some p"
  shows "holdingsleep l s = Ret (slock_mine s l) s"
  using assms
  by (cases s) (auto simp: holdingsleep_def set_slock_def proc_defs kexec slock_mine_def)

lemma releasesleep_exec [kexec]:
  assumes "slk l \<notin> held s" "\<forall>p < NPROC. ProcLock p \<notin> held s"
  shows "releasesleep l s = Ret () (s\<lparr>slocks := (slocks s)(l := (slocks s l)\<lparr>sl_locked := 0, sl_pid := 0\<rparr>),
     ptable := woken (slock_chan l) {..<NPROC} (ptable s)\<rparr>)"
  using assms by (cases s) (simp add: releasesleep_def set_slock_def kexec)

end
