(* ===== verification/Block.thy ===== *)
theory Block
  imports Prelude
begin

text \<open>
  Disk blocks: arrays of exactly \<open>BSIZE\<close> bytes (src/kernel/fs.h), so that copying a whole block is
  assignment and two blocks are equal when their bytes are. Integers in a block are little-endian.
\<close>

abbreviation (input) BSIZE :: nat where "BSIZE \<equiv> 1024"

typedef block = "{f :: nat \<Rightarrow> u8. \<forall>k \<ge> BSIZE. f k = 0}"
  by (rule exI [of _ "\<lambda>_. 0"]) simp

setup_lifting type_definition_block

lift_definition byte_at :: "block \<Rightarrow> nat \<Rightarrow> u8" is "\<lambda>(f :: nat \<Rightarrow> u8) k. f k" .

lift_definition zero_block :: block is "\<lambda>_. 0" by simp

definition nat_off :: "nat \<Rightarrow> nat \<Rightarrow> nat option" where
  "nat_off a x = (if a \<le> x then Some (x - a) else None)"

interpretation bs: byte_store "(+) :: nat \<Rightarrow> nat \<Rightarrow> nat" nat_off n for n
  by unfold_locales (auto simp: nat_off_def split: if_splits)

text \<open>Writing at an offset; bytes beyond the end of the block are dropped.\<close>

lift_definition put_block :: "block \<Rightarrow> nat \<Rightarrow> u8 list \<Rightarrow> block" is
  "\<lambda>f off bs k. if k < BSIZE then put_bytes nat_off f off bs k else 0"
  by simp

definition get_block :: "block \<Rightarrow> nat \<Rightarrow> nat \<Rightarrow> u8 list" where
  "get_block b off n = map (\<lambda>k. byte_at b (off + k)) [0..<n]"

lemma block_eqI:
  assumes "\<And>k. k < BSIZE \<Longrightarrow> byte_at a k = byte_at b k"
  shows "a = b"
  using assms
proof transfer
  fix a b :: "nat \<Rightarrow> u8"
  assume "\<forall>k \<ge> BSIZE. a k = 0" "\<forall>k \<ge> BSIZE. b k = 0" "\<And>k. k < BSIZE \<Longrightarrow> a k = b k"
  then have "a k = b k" for k by (cases "k < BSIZE") auto
  then show "a = b" by (rule ext)
qed

lemma byte_at_beyond [simp]: "BSIZE \<le> k \<Longrightarrow> byte_at b k = 0"
  by transfer simp

lemma byte_at_zero [simp]: "byte_at zero_block k = 0"
  by transfer simp

lemma byte_at_put_block:
  "byte_at (put_block b off bs) k =
     (if off \<le> k \<and> k < off + length bs \<and> k < BSIZE then bs ! (k - off) else byte_at b k)"
  by transfer (auto simp: put_bytes_def nat_off_def)

lemma length_get_block [simp]: "length (get_block b off n) = n"
  by (simp add: get_block_def)

lemma nth_get_block [simp]: "k < n \<Longrightarrow> get_block b off n ! k = byte_at b (off + k)"
  by (simp add: get_block_def)

lemma get_put_block: "off + length bs \<le> BSIZE \<Longrightarrow> get_block (put_block b off bs) off (length bs) = bs"
  by (intro nth_equalityI) (simp_all add: byte_at_put_block)

lemma get_put_block_other:
  "off' + n \<le> off \<or> off + length bs \<le> off' \<Longrightarrow> get_block (put_block b off bs) off' n = get_block b off' n"
  by (intro nth_equalityI) (auto simp: byte_at_put_block)

lemma put_block_all: "put_block a 0 (get_block b 0 BSIZE) = b"
  by (rule block_eqI) (simp add: byte_at_put_block)

text \<open>A little-endian integer of \<open>n\<close> bytes at an offset.\<close>

definition int_at :: "nat \<Rightarrow> block \<Rightarrow> nat \<Rightarrow> 'w::len word" where
  "int_at n b off = le_word (get_block b off n)"

definition put_int :: "nat \<Rightarrow> block \<Rightarrow> nat \<Rightarrow> 'w::len word \<Rightarrow> block" where
  "put_int n b off v = put_block b off (le_bytes n v)"

lemma int_at_put_int [simp]:
  "off + n \<le> BSIZE \<Longrightarrow> LENGTH('w) \<le> 8 * n \<Longrightarrow> int_at n (put_int n b off v) off = (v :: 'w::len word)"
  using get_put_block [of off "le_bytes n v" b] by (simp add: int_at_def put_int_def le_word_le_bytes)

lemma int_at_put_int_other:
  "off' + n' \<le> off \<or> off + n \<le> off' \<Longrightarrow> int_at n' (put_int n b off v) off' = int_at n' b off'"
  by (simp add: int_at_def put_int_def get_put_block_other)

lemma byte_at_put_int_other:
  "k < off \<or> off + n \<le> k \<Longrightarrow> byte_at (put_int n b off v) k = byte_at b k"
  by (auto simp: put_int_def byte_at_put_block)

end
