(* ===== verification/Block_Cache.thy ===== *)
theory Block_Cache
  imports Kernel_Monad Block
begin

text \<open>
  What the buffer cache promises to the layers above it (src/kernel/log.c, src/kernel/fs.c): a view of
  the blocks of the disk, and the effect of every operation on it. Theory Bio shows that the code of
  src/kernel/bio.c keeps these promises; here follow from them the steps the layers above are made of.
\<close>

abbreviation (input) NBUF :: nat where "NBUF \<equiv> 30"

text \<open>
  For each block of the disk: how often its buffer is referenced, its current contents, what the disk
  holds, and whether it is locked; and the sequence of block writes that reached the disk.
\<close>

record cview =
  v_refs :: "u32 \<Rightarrow> nat"
  v_blk :: "u32 \<Rightarrow> block"
  v_disk :: "u32 \<Rightarrow> block"
  v_writes :: "(u32 \<times> block) list"
  v_busy :: "u32 set"

definition v_take :: "u32 \<Rightarrow> cview \<Rightarrow> cview" where
  "v_take bn v = v\<lparr>v_refs := (v_refs v)(bn := v_refs v bn + 1), v_busy := insert bn (v_busy v)\<rparr>"

definition v_drop :: "u32 \<Rightarrow> cview \<Rightarrow> cview" where
  "v_drop bn v = v\<lparr>v_refs := (v_refs v)(bn := v_refs v bn - 1), v_busy := v_busy v - {bn}\<rparr>"

definition v_store :: "u32 \<Rightarrow> block \<Rightarrow> cview \<Rightarrow> cview" where
  "v_store bn d v = v\<lparr>v_blk := (v_blk v)(bn := d)\<rparr>"

definition v_flush :: "u32 \<Rightarrow> cview \<Rightarrow> cview" where
  "v_flush bn v = v\<lparr>v_disk := (v_disk v)(bn := v_blk v bn), v_writes := v_writes v @ [(bn, v_blk v bn)]\<rparr>"

definition v_pin :: "u32 \<Rightarrow> cview \<Rightarrow> cview" where
  "v_pin bn v = v\<lparr>v_refs := (v_refs v)(bn := v_refs v bn + 1)\<rparr>"

text \<open>Dropping a pin and releasing: the count goes down by two, as a 32-bit number.\<close>

definition v_unpin_drop :: "u32 \<Rightarrow> cview \<Rightarrow> cview" where
  "v_unpin_drop bn v =
     v\<lparr>v_refs := (v_refs v)(bn := (v_refs v bn + (2 ^ 32 - 2)) mod 2 ^ 32), v_busy := v_busy v - {bn}\<rparr>"

text \<open>A block written through to the disk.\<close>

definition v_write :: "u32 \<Rightarrow> block \<Rightarrow> cview \<Rightarrow> cview" where
  "v_write bn d v = v\<lparr>v_blk := (v_blk v)(bn := d), v_disk := (v_disk v)(bn := d), v_writes := v_writes v @ [(bn, d)]\<rparr>"

lemmas v_defs = v_take_def v_drop_def v_store_def v_flush_def v_pin_def v_unpin_drop_def v_write_def

definition v_room :: "u32 \<Rightarrow> cview \<Rightarrow> bool" where
  "v_room bn v \<longleftrightarrow> v_refs v bn > 0 \<or> card {y. v_refs v y > 0} < NBUF"

text \<open>A block can be read without waiting.\<close>

definition v_ready :: "u32 \<Rightarrow> cview \<Rightarrow> bool" where
  "v_ready bn v \<longleftrightarrow> bn \<notin> v_busy v \<and> v_refs v bn + 1 < 2 ^ 32 \<and> v_room bn v"

lemma card_take:
  "card {y. v_refs (v_take bn v) y > 0} \<le> (if v_refs v bn > 0 then 0 else 1) + card {y. v_refs v y > 0}"
proof -
  have "{y. v_refs (v_take bn v) y > 0} = insert bn {y. v_refs v y > 0}"
    by (auto simp: v_take_def)
  then show ?thesis by (simp add: card_insert_if insert_absorb)
qed

lemma v_ready_other:
  assumes "a \<noteq> b" "v_ready b v" "v_refs v b > 0 \<or> card {y. v_refs v y > 0} + (if v_refs v a > 0 then 0 else 1) < NBUF"
  shows "v_ready b (v_take a v)"
proof -
  have "v_refs (v_take a v) b = v_refs v b" "b \<in> v_busy (v_take a v) \<longleftrightarrow> b \<in> v_busy v"
    using assms(1) by (simp_all add: v_take_def)
  then show ?thesis using assms(2,3) card_take [of a v] by (auto simp: v_ready_def v_room_def)
qed

locale block_cache =
  fixes ok :: "'s \<Rightarrow> bool" and view :: "'s \<Rightarrow> cview" and at :: "'s \<Rightarrow> u32 \<Rightarrow> nat option"
    and keep step :: "'s \<Rightarrow> 's \<Rightarrow> bool"
    and rd :: "u32 \<Rightarrow> (nat, 's) kop" and peek :: "nat \<Rightarrow> (block, 's) kop"
    and store :: "nat \<Rightarrow> (block \<Rightarrow> block) \<Rightarrow> (unit, 's) kop"
    and wr rel pin unpin :: "nat \<Rightarrow> (unit, 's) kop"
  assumes keep_refl: "keep s s" and keep_trans: "keep s t \<Longrightarrow> keep t u \<Longrightarrow> keep s u"
    and stepD: "step s t \<Longrightarrow> ok t \<and> keep s t"
    and step_at: "step s t \<Longrightarrow> v_refs (view s) y > 0 \<Longrightarrow> at t y = at s y"
    and ok_clean: "ok s \<Longrightarrow> v_refs (view s) y = 0 \<Longrightarrow> v_blk (view s) y = v_disk (view s) y"
    and rd_law: "ok s \<Longrightarrow> v_ready bn (view s) \<Longrightarrow>
      \<exists>i t. rd bn s = Ret i t \<and> step s t \<and> at t bn = Some i \<and> view t = v_take bn (view s)"
    and peek_law: "ok s \<Longrightarrow> at s bn = Some i \<Longrightarrow> bn \<in> v_busy (view s) \<Longrightarrow> peek i s = Ret (v_blk (view s) bn) s"
    and store_law: "ok s \<Longrightarrow> at s bn = Some i \<Longrightarrow> bn \<in> v_busy (view s) \<Longrightarrow>
      \<exists>t. store i f s = Ret () t \<and> step s t \<and> view t = v_store bn (f (v_blk (view s) bn)) (view s)"
    and wr_law: "ok s \<Longrightarrow> at s bn = Some i \<Longrightarrow> bn \<in> v_busy (view s) \<Longrightarrow>
      \<exists>t. wr i s = Ret () t \<and> step s t \<and> view t = v_flush bn (view s)"
    and rel_law: "ok s \<Longrightarrow> at s bn = Some i \<Longrightarrow> bn \<in> v_busy (view s) \<Longrightarrow>
      (v_refs (view s) bn = 1 \<longrightarrow> v_blk (view s) bn = v_disk (view s) bn) \<Longrightarrow>
      \<exists>t. rel i s = Ret () t \<and> step s t \<and> view t = v_drop bn (view s)"
    and pin_law: "ok s \<Longrightarrow> at s bn = Some i \<Longrightarrow> v_refs (view s) bn > 0 \<Longrightarrow> v_refs (view s) bn + 1 < 2 ^ 32 \<Longrightarrow>
      \<exists>t. pin i s = Ret () t \<and> step s t \<and> view t = v_pin bn (view s)"
    and unpin_rel_law: "ok s \<Longrightarrow> at s a = Some j \<Longrightarrow> at s b = Some i \<Longrightarrow> a \<noteq> b \<Longrightarrow>
      a \<in> v_busy (view s) \<Longrightarrow> b \<in> v_busy (view s) \<Longrightarrow>
      v_blk (view s) a = v_disk (view s) a \<Longrightarrow> v_blk (view s) b = v_disk (view s) b \<Longrightarrow>
      \<exists>t. kseq [unpin i, rel j, rel i] s = Ret () t \<and> ok t \<and> keep s t \<and>
        view t = v_unpin_drop b (v_drop a (view s))"
begin

text \<open>Reading a block, and releasing it unchanged.\<close>

definition read_block :: "u32 \<Rightarrow> (block, 's) kop" where
  "read_block bn = kbind (rd bn) (\<lambda>i. kbind (peek i) (\<lambda>d. kthen (rel i) (kreturn d)))"

lemma read_block_exec:
  assumes "ok s" "v_ready bn (view s)"
  shows "\<exists>t. read_block bn s = Ret (v_blk (view s) bn) t \<and> ok t \<and> keep s t \<and> view t = view s"
proof -
  have b: "bn \<notin> v_busy (view s)" using assms(2) by (simp add: v_ready_def)
  obtain i s1 where 1: "rd bn s = Ret i s1" "step s s1" "at s1 bn = Some i" "view s1 = v_take bn (view s)"
    using rd_law assms by blast
  have ok1: "ok s1" using stepD [OF 1(2)] by simp
  have p: "peek i s1 = Ret (v_blk (view s) bn) s1"
    using peek_law [OF ok1 1(3)] 1(4) by (simp add: v_defs)
  have cl: "v_refs (view s1) bn = 1 \<longrightarrow> v_blk (view s1) bn = v_disk (view s1) bn"
    using 1(4) ok_clean [OF assms(1), of bn] by (simp add: v_defs)
  obtain t where 2: "rel i s1 = Ret () t" "step s1 t" "view t = v_drop bn (view s1)"
    using rel_law [OF ok1 1(3) _ cl] 1(4) by (auto simp: v_defs)
  have "view t = view s"
    using 2(3) 1(4) b by (simp add: v_defs)
  moreover have "keep s t" using keep_trans stepD 1(2) 2(2) by metis
  ultimately show ?thesis
    using 1(1) p 2(1) stepD [OF 2(2)] by (simp add: read_block_def kexec)
qed

text \<open>Changing a block and writing it through, as \<open>write_head\<close> does.\<close>

lemma update_block_exec:
  assumes ok: "ok s" and r: "v_ready a (view s)"
  shows "\<exists>t. kbind (rd a) (\<lambda>i. kseq [store i f, wr i, rel i]) s = Ret () t \<and> ok t \<and> keep s t \<and>
    view t = v_write a (f (v_blk (view s) a)) (view s)"
proof -
  have b: "a \<notin> v_busy (view s)" using r by (simp add: v_ready_def)
  obtain i s1 where 1: "rd a s = Ret i s1" "step s s1" "at s1 a = Some i" "view s1 = v_take a (view s)"
    using rd_law ok r by blast
  have ok1: "ok s1" using stepD [OF 1(2)] by simp
  obtain s2 where 2: "store i f s1 = Ret () s2" "step s1 s2" "view s2 = v_store a (f (v_blk (view s1) a)) (view s1)"
    using store_law [OF ok1 1(3)] 1(4) by (auto simp: v_defs)
  have ok2: "ok s2" "at s2 a = Some i"
    using stepD [OF 2(2)] step_at [OF 2(2), of a] 1(3,4) by (simp_all add: v_defs)
  obtain s3 where 3: "wr i s2 = Ret () s3" "step s2 s3" "view s3 = v_flush a (view s2)"
    using wr_law [OF ok2] 2(3) 1(4) by (auto simp: v_defs)
  have ok3: "ok s3" "at s3 a = Some i"
    using stepD [OF 3(2)] step_at [OF 3(2), of a] ok2(2) 2(3) 1(4) by (simp_all add: v_defs)
  obtain t where 4: "rel i s3 = Ret () t" "step s3 t" "view t = v_drop a (view s3)"
    using rel_law [OF ok3] 3(3) 2(3) 1(4) by (auto simp: v_defs)
  have "view t = v_write a (f (v_blk (view s) a)) (view s)"
    using 4(3) 3(3) 2(3) 1(4) b by (simp add: v_defs)
  moreover have "keep s t" using keep_trans stepD 1(2) 2(2) 3(2) 4(2) by metis
  ultimately show ?thesis
    using 1(1) 2(1) 3(1) 4(1) stepD [OF 4(2)] by (simp add: kexec)
qed

text \<open>Two different blocks read and locked, the first first.\<close>

lemma rd_two:
  assumes ok: "ok s" and ab: "a \<noteq> b" and r: "v_ready a (view s)" "v_ready b (view s)"
    and room: "v_refs (view s) b > 0 \<or> card {y. v_refs (view s) y > 0} + (if v_refs (view s) a > 0 then 0 else 1) < NBUF"
  shows "\<exists>i j t s1. rd a s = Ret i s1 \<and> rd b s1 = Ret j t \<and> ok t \<and> keep s t \<and> at t a = Some i \<and> at t b = Some j \<and>
    view t = v_take b (v_take a (view s))"
proof -
  obtain i s1 where 1: "rd a s = Ret i s1" "step s s1" "at s1 a = Some i" "view s1 = v_take a (view s)"
    using rd_law ok r by blast
  have ok1: "ok s1" using stepD [OF 1(2)] by simp
  obtain j t where 2: "rd b s1 = Ret j t" "step s1 t" "at t b = Some j" "view t = v_take b (view s1)"
    using rd_law [OF ok1, of b] v_ready_other [OF ab r(2) room] 1(4) by auto
  have "at t a = Some i" using step_at [OF 2(2), of a] 1(3,4) by (simp add: v_defs)
  moreover have "keep s t" using keep_trans stepD 1(2) 2(2) by metis
  ultimately show ?thesis using 1(1,4) 2(1,3,4) stepD [OF 2(2)] by auto
qed

text \<open>The contents of locked block \<open>a\<close> copied to locked block \<open>b\<close> and written through.\<close>

lemma copy_step:
  assumes ok: "ok s" and at: "at s a = Some i" "at s b = Some j" and busy: "a \<in> v_busy (view s)" "b \<in> v_busy (view s)"
    and refs: "v_refs (view s) a > 0" "v_refs (view s) b > 0"
  shows "\<exists>t. kbind (peek i) (\<lambda>d. kthen (store j (\<lambda>_. d)) (wr j)) s = Ret () t \<and> ok t \<and> keep s t \<and>
    at t a = Some i \<and> at t b = Some j \<and> view t = v_write b (v_blk (view s) a) (view s)"
proof -
  have p: "peek i s = Ret (v_blk (view s) a) s" using peek_law [OF ok at(1) busy(1)] .
  obtain s1 where 1: "store j (\<lambda>_. v_blk (view s) a) s = Ret () s1" "step s s1"
      "view s1 = v_store b (v_blk (view s) a) (view s)"
    using store_law [OF ok at(2) busy(2), of "\<lambda>_. v_blk (view s) a"] by blast
  have at1: "ok s1" "at s1 b = Some j" "at s1 a = Some i"
    using stepD [OF 1(2)] step_at [OF 1(2)] at refs by simp_all
  obtain t where 2: "wr j s1 = Ret () t" "step s1 t" "view t = v_flush b (view s1)"
    using wr_law [OF at1(1,2)] 1(3) busy(2) by (auto simp: v_defs)
  have "at t a = Some i" "at t b = Some j"
    using step_at [OF 2(2)] at1(2,3) 1(3) refs by (simp_all add: v_defs)
  moreover have "keep s t" using keep_trans stepD 1(2) 2(2) by metis
  moreover have "view t = v_write b (v_blk (view s) a) (view s)" using 1(3) 2(3) by (simp add: v_defs)
  ultimately show ?thesis using p 1(1) 2(1) stepD [OF 2(2)] by (simp add: kexec)
qed

text \<open>A block copied to one that nobody uses, as \<open>write_log\<close> does.\<close>

lemma copy_block_exec:
  assumes ok: "ok s" and ab: "a \<noteq> b" and r: "v_ready a (view s)" "v_ready b (view s)" and b: "v_refs (view s) b > 0"
  shows "\<exists>t. kbind (rd a) (\<lambda>i. kbind (rd b) (\<lambda>j.
      kthen (kbind (peek j) (\<lambda>d. kthen (store i (\<lambda>_. d)) (wr i))) (kthen (rel j) (rel i)))) s = Ret () t \<and>
    ok t \<and> keep s t \<and> view t = v_write a (v_blk (view s) b) (view s)"
proof -
  obtain i j s1 s0 where 1: "rd a s = Ret i s0" "rd b s0 = Ret j s1" "ok s1" "keep s s1" "at s1 a = Some i" "at s1 b = Some j"
      "view s1 = v_take b (v_take a (view s))"
    using rd_two [OF ok ab r disjI1 [OF b]] by auto
  obtain s2 where 2: "kbind (peek j) (\<lambda>d. kthen (store i (\<lambda>_. d)) (wr i)) s1 = Ret () s2" "ok s2" "keep s1 s2"
      "at s2 b = Some j" "at s2 a = Some i" "view s2 = v_write a (v_blk (view s1) b) (view s1)"
    using copy_step [OF 1(3,6,5)] 1(7) ab by (auto simp: v_defs)
  obtain s3 where 3: "rel j s2 = Ret () s3" "step s2 s3" "view s3 = v_drop b (view s2)"
    using rel_law [OF 2(2,4)] 2(6) 1(7) ab b by (auto simp: v_defs)
  have at3: "ok s3" "at s3 a = Some i"
    using stepD [OF 3(2)] step_at [OF 3(2), of a] 2(5,6) 1(7) ab by (simp_all add: v_defs)
  obtain t where 4: "rel i s3 = Ret () t" "step s3 t" "view t = v_drop a (view s3)"
    using rel_law [OF at3] 3(3) 2(6) 1(7) ab by (auto simp: v_defs)
  have nb: "a \<notin> v_busy (view s)" "b \<notin> v_busy (view s)" using r by (simp_all add: v_ready_def)
  have "view t = v_write a (v_blk (view s) b) (view s)"
    using 4(3) 3(3) 2(6) 1(7) ab nb by (auto simp: v_defs fun_upd_twist)
  moreover have "keep s t" using keep_trans stepD 1(4) 2(3) 3(2) 4(2) by metis
  ultimately show ?thesis
    using 1(1,2) 2(1) 3(1) 4(1) stepD [OF 4(2)] by (simp add: kthen_exec kbind_exec [of "rd a"] kbind_exec [of "rd b"])
qed

text \<open>A block copied home from the log, as \<open>install_trans\<close> does.\<close>

lemma install_block_exec:
  assumes ok: "ok s" and ab: "a \<noteq> b" and r: "v_ready a (view s)" "v_ready b (view s)"
    and room: "v_refs (view s) b > 0 \<or> card {y. v_refs (view s) y > 0} + (if v_refs (view s) a > 0 then 0 else 1) < NBUF"
    and a: "v_blk (view s) a = v_disk (view s) a"
  shows "\<exists>t. kbind (rd a) (\<lambda>i. kbind (rd b) (\<lambda>j.
      kthen (kbind (peek i) (\<lambda>d. kthen (store j (\<lambda>_. d)) (wr j))) (kseq [unpin j, rel i, rel j]))) s = Ret () t \<and>
    ok t \<and> keep s t \<and> view t = v_write b (v_blk (view s) a) (view s)
      \<lparr>v_refs := (v_refs (view s))(b := (v_refs (view s) b + (2 ^ 32 - 1)) mod 2 ^ 32)\<rparr>"
proof -
  obtain i j s1 s0 where 1: "rd a s = Ret i s0" "rd b s0 = Ret j s1" "ok s1" "keep s s1" "at s1 a = Some i" "at s1 b = Some j"
      "view s1 = v_take b (v_take a (view s))"
    using rd_two [OF ok ab r room] by auto
  obtain s2 where 2: "kbind (peek i) (\<lambda>d. kthen (store j (\<lambda>_. d)) (wr j)) s1 = Ret () s2" "ok s2" "keep s1 s2"
      "at s2 a = Some i" "at s2 b = Some j" "view s2 = v_write b (v_blk (view s1) a) (view s1)"
    using copy_step [OF 1(3,5,6)] 1(7) ab by (auto simp: v_defs)
  obtain t where 3: "kseq [unpin j, rel i, rel j] s2 = Ret () t" "ok t" "keep s2 t" "view t = v_unpin_drop b (v_drop a (view s2))"
    using unpin_rel_law [OF 2(2,4,5) ab] 2(6) 1(7) ab a by (auto simp: v_defs)
  have nb: "a \<notin> v_busy (view s)" "b \<notin> v_busy (view s)" using r by (simp_all add: v_ready_def)
  have "view t = v_write b (v_blk (view s) a) (view s)
      \<lparr>v_refs := (v_refs (view s))(b := (v_refs (view s) b + (2 ^ 32 - 1)) mod 2 ^ 32)\<rparr>"
    using 3(4) 2(6) 1(7) ab nb by (intro cview.equality) (auto simp: v_defs fun_upd_twist add.commute)
  moreover have "keep s t" using keep_trans 1(4) 2(3) 3(3) by metis
  ultimately show ?thesis
    using 1(1,2) 2(1) 3(1,2) by (simp add: kthen_exec kbind_exec [of "rd a"] kbind_exec [of "rd b"])
qed

end

end
