(* ===== verification/Bio.thy ===== *)
theory Bio
  imports Sleeplock Block_Cache
begin

text \<open>
  src/kernel/bio.c, the buffer cache: \<open>NBUF\<close> buffers on a circular doubly linked list in order of last
  use, whose head is the extra element \<open>NBUF\<close>. Buffers are indices; the list is modelled through the
  pointers \<open>prev\<close> and \<open>next\<close>, as the code has it. The traversals are bounded by fuel, one more than the
  number of buffers, which is enough when the pointers form the list they should (\<open>lru\<close>).
\<close>

section \<open>State and operations\<close>

abbreviation (input) ROOTDEV :: u32 where "ROOTDEV \<equiv> 1"

record buf =
  b_valid :: bool
  b_dev :: u32
  b_blockno :: u32
  b_refcnt :: u32
  b_prev :: nat
  b_next :: nat
  b_data :: block

text \<open>
  \<open>disk\<close> holds the blocks of the disk. \<open>dwrites\<close> is the sequence of the block writes made so far, in
  the order they reach the disk; no code reads it: it is what a crash can cut short.
\<close>

record kbio = ksleep +
  bufs :: "nat \<Rightarrow> buf"
  disk :: "u32 \<Rightarrow> block"
  dwrites :: "(u32 \<times> block) list"

definition set_buf :: "nat \<Rightarrow> (buf \<Rightarrow> buf) \<Rightarrow> (unit, 'z kbio_scheme) kop" where
  "set_buf b f = kmodify (\<lambda>s. s\<lparr>bufs := (bufs s)(b := f (bufs s b))\<rparr>)"

definition get_buf :: "nat \<Rightarrow> (buf \<Rightarrow> 'a) \<Rightarrow> ('a, 'z kbio_scheme) kop" where
  "get_buf b f = kget (\<lambda>s. f (bufs s b))"

text \<open>
  The transfer that a call of \<open>virtio_disk_rw\<close> has completed when it returns: the buffer's block is read
  from the disk or written to it.
\<close>

definition disk_read :: "nat \<Rightarrow> (unit, 'z kbio_scheme) kop" where
  "disk_read b = kmodify (\<lambda>s. s\<lparr>bufs := (bufs s)(b := (bufs s b)\<lparr>b_data := disk s (b_blockno (bufs s b))\<rparr>)\<rparr>)"

definition disk_write :: "nat \<Rightarrow> (unit, 'z kbio_scheme) kop" where
  "disk_write b = kmodify (\<lambda>s.
     s\<lparr>disk := (disk s)(b_blockno (bufs s b) := b_data (bufs s b)),
       dwrites := dwrites s @ [(b_blockno (bufs s b), b_data (bufs s b))]\<rparr>)"

definition binit_one :: "nat \<Rightarrow> (unit, 'z kbio_scheme) kop" where
  "binit_one b = kbind (get_buf NBUF b_next) (\<lambda>first. kseq [
     set_buf b (\<lambda>x. x\<lparr>b_next := first\<rparr>),
     set_buf b (\<lambda>x. x\<lparr>b_prev := NBUF\<rparr>),
     initsleeplock (BufLock b) ''buffer'',
     set_buf first (\<lambda>x. x\<lparr>b_prev := b\<rparr>),
     set_buf NBUF (\<lambda>x. x\<lparr>b_next := b\<rparr>)])"

definition binit :: "(unit, 'z kbio_scheme) kop" where
  "binit = kseq [
     set_buf NBUF (\<lambda>x. x\<lparr>b_prev := NBUF\<rparr>),
     set_buf NBUF (\<lambda>x. x\<lparr>b_next := NBUF\<rparr>),
     kfor [0..<NBUF] binit_one]"

text \<open>The two loops of \<open>bget\<close>, from buffer \<open>b\<close> on; \<open>None\<close> when they reach the head.\<close>

fun bget_cached :: "nat \<Rightarrow> u32 \<Rightarrow> u32 \<Rightarrow> nat \<Rightarrow> (nat option, 'z kbio_scheme) kop" where
  "bget_cached 0 dev blockno b = kdiverge"
| "bget_cached (Suc n) dev blockno b =
     (if b = NBUF then kreturn None
      else kbind (get_buf b id) (\<lambda>x.
        if b_dev x = dev \<and> b_blockno x = blockno then kreturn (Some b)
        else bget_cached n dev blockno (b_next x)))"

fun bget_unused :: "nat \<Rightarrow> nat \<Rightarrow> (nat option, 'z kbio_scheme) kop" where
  "bget_unused 0 b = kdiverge"
| "bget_unused (Suc n) b =
     (if b = NBUF then kreturn None
      else kbind (get_buf b id) (\<lambda>x.
        if b_refcnt x = 0 then kreturn (Some b) else bget_unused n (b_prev x)))"

definition bget :: "u32 \<Rightarrow> u32 \<Rightarrow> (nat, 'z kbio_scheme) kop" where
  "bget dev blockno = kthen (klock BcacheLock)
     (kbind (get_buf NBUF b_next) (\<lambda>first.
      kbind (bget_cached (Suc NBUF) dev blockno first) (\<lambda>r. case r of
        Some b \<Rightarrow> kthen (kseq [
          set_buf b (\<lambda>x. x\<lparr>b_refcnt := b_refcnt x + 1\<rparr>),
          kunlock BcacheLock,
          acquiresleep (BufLock b)]) (kreturn b)
      | None \<Rightarrow>
          kbind (get_buf NBUF b_prev) (\<lambda>lst.
          kbind (bget_unused (Suc NBUF) lst) (\<lambda>r. case r of
            Some b \<Rightarrow> kthen (kseq [
              set_buf b (\<lambda>x. x\<lparr>b_dev := dev\<rparr>),
              set_buf b (\<lambda>x. x\<lparr>b_blockno := blockno\<rparr>),
              set_buf b (\<lambda>x. x\<lparr>b_valid := False\<rparr>),
              set_buf b (\<lambda>x. x\<lparr>b_refcnt := 1\<rparr>),
              kunlock BcacheLock,
              acquiresleep (BufLock b)]) (kreturn b)
          | None \<Rightarrow> kpanic ''bget: no buffers'')))))"

definition bread :: "u32 \<Rightarrow> u32 \<Rightarrow> (nat, 'z kbio_scheme) kop" where
  "bread dev blockno = kbind (bget dev blockno) (\<lambda>b.
     kthen (kbind (get_buf b b_valid) (\<lambda>v.
       kwhen (\<not> v) (kthen (disk_read b) (set_buf b (\<lambda>x. x\<lparr>b_valid := True\<rparr>)))))
     (kreturn b))"

definition bwrite :: "nat \<Rightarrow> (unit, 'z kbio_scheme) kop" where
  "bwrite b = kthen (kbind (holdingsleep (BufLock b)) (\<lambda>h. kpanic_if (\<not> h) ''bwrite'')) (disk_write b)"

text \<open>No one is waiting for the buffer: it moves to the front of the list.\<close>

definition brelse_front :: "nat \<Rightarrow> (unit, 'z kbio_scheme) kop" where
  "brelse_front b = kseq [
     kbind (get_buf b id) (\<lambda>x. set_buf (b_next x) (\<lambda>y. y\<lparr>b_prev := b_prev x\<rparr>)),
     kbind (get_buf b id) (\<lambda>x. set_buf (b_prev x) (\<lambda>y. y\<lparr>b_next := b_next x\<rparr>)),
     kbind (get_buf NBUF b_next) (\<lambda>first. set_buf b (\<lambda>x. x\<lparr>b_next := first\<rparr>)),
     set_buf b (\<lambda>x. x\<lparr>b_prev := NBUF\<rparr>),
     kbind (get_buf NBUF b_next) (\<lambda>first. set_buf first (\<lambda>x. x\<lparr>b_prev := b\<rparr>)),
     set_buf NBUF (\<lambda>x. x\<lparr>b_next := b\<rparr>)]"

definition brelse :: "nat \<Rightarrow> (unit, 'z kbio_scheme) kop" where
  "brelse b = kseq [
     kbind (holdingsleep (BufLock b)) (\<lambda>h. kpanic_if (\<not> h) ''brelse''),
     releasesleep (BufLock b),
     klock BcacheLock,
     set_buf b (\<lambda>x. x\<lparr>b_refcnt := b_refcnt x - 1\<rparr>),
     kbind (get_buf b b_refcnt) (\<lambda>n. kwhen (n = 0) (brelse_front b)),
     kunlock BcacheLock]"

definition bpin :: "nat \<Rightarrow> (unit, 'z kbio_scheme) kop" where
  "bpin b = kseq [klock BcacheLock, set_buf b (\<lambda>x. x\<lparr>b_refcnt := b_refcnt x + 1\<rparr>), kunlock BcacheLock]"

definition bunpin :: "nat \<Rightarrow> (unit, 'z kbio_scheme) kop" where
  "bunpin b = kseq [klock BcacheLock, set_buf b (\<lambda>x. x\<lparr>b_refcnt := b_refcnt x - 1\<rparr>), kunlock BcacheLock]"

lemmas buf_defs = set_buf_def get_buf_def disk_read_def disk_write_def

section \<open>The list of buffers\<close>

fun chain :: "(nat \<Rightarrow> buf) \<Rightarrow> nat \<Rightarrow> nat list \<Rightarrow> nat \<Rightarrow> bool" where
  "chain B a [] z \<longleftrightarrow> b_next (B a) = z \<and> b_prev (B z) = a"
| "chain B a (x # xs) z \<longleftrightarrow> b_next (B a) = x \<and> b_prev (B x) = a \<and> chain B x xs z"

definition lru :: "(nat \<Rightarrow> buf) \<Rightarrow> nat list \<Rightarrow> bool" where
  "lru B xs \<longleftrightarrow> distinct xs \<and> set xs = {..<NBUF} \<and> chain B NBUF xs NBUF"

lemma chain_append: "chain B a (xs @ y # ys) z \<longleftrightarrow> chain B a xs y \<and> chain B y ys z"
  by (induction xs arbitrary: a) auto

lemma chain_ends:
  "chain B a xs z \<Longrightarrow> b_next (B a) = hd (xs @ [z])" "chain B a xs z \<Longrightarrow> b_prev (B z) = last (a # xs)"
  by (induction xs arbitrary: a) auto

lemma chain_cong:
  assumes "\<And>x. x \<in> set (a # xs) \<Longrightarrow> b_next (B' x) = b_next (B x)"
    and "\<And>x. x \<in> set (xs @ [z]) \<Longrightarrow> b_prev (B' x) = b_prev (B x)"
  shows "chain B' a xs z = chain B a xs z"
  using assms by (induction xs arbitrary: a) auto

lemma chain_join:
  assumes "chain B a ys b" "chain B b zs z" "distinct (a # ys @ zs)" "z \<notin> set (ys @ zs)"
    and "\<And>x. b_next (B' x) = (if x = last (a # ys) then hd (zs @ [z]) else b_next (B x))"
    and "\<And>x. b_prev (B' x) = (if x = hd (zs @ [z]) then last (a # ys) else b_prev (B x))"
  shows "chain B' a (ys @ zs) z"
  using assms
proof (induction ys arbitrary: a)
  case Nil
  show ?case
  proof (cases zs)
    case Nil
    then show ?thesis using Nil.prems(5,6) by simp
  next
    case (Cons n ns)
    have "chain B' n ns z = chain B n ns z"
      using Nil.prems Cons by (intro chain_cong) auto
    then show ?thesis using Nil.prems Cons by simp
  qed
next
  case (Cons y ys)
  have "chain B' y (ys @ zs) z"
    using Cons.prems by (intro Cons.IH) auto
  moreover have "a \<noteq> last (y # ys)" using Cons.prems(3) by (metis distinct.simps(2) in_set_conv_decomp_last last_in_set list.distinct(1) set_append UnCI append_Cons)
  moreover have "y \<noteq> hd (zs @ [z])" using Cons.prems(3,4) by (cases zs) auto
  ultimately show ?case using Cons.prems by auto
qed

lemma chain_front:
  assumes "chain B a xs a" "b \<notin> set (a # xs)" "distinct (a # xs)"
    and "\<And>x. b_next (B' x) = (if x = a then b else if x = b then b_next (B a) else b_next (B x))"
    and "\<And>x. b_prev (B' x) = (if x = b_next (B a) then b else if x = b then a else b_prev (B x))"
  shows "chain B' a (b # xs) a"
proof -
  have f: "b_next (B a) = hd (xs @ [a])" using chain_ends(1) [OF assms(1)] .
  have "chain B' b xs a"
  proof (cases xs)
    case Nil
    then show ?thesis using assms f by simp
  next
    case (Cons x ys)
    have "chain B' x ys a = chain B x ys a"
      using assms(2-5) f Cons by (intro chain_cong) auto
    then show ?thesis using assms f Cons by simp
  qed
  moreover have "b_next (B a) \<noteq> b" using f assms(2) by (cases xs) auto
  ultimately show ?thesis using assms by simp
qed

lemma bget_cached_exec:
  assumes "chain (bufs s) a xs NBUF" "NBUF \<notin> set xs" "length xs < n"
  shows "bget_cached n dev bn (b_next (bufs s a)) s =
    Ret (find (\<lambda>i. b_dev (bufs s i) = dev \<and> b_blockno (bufs s i) = bn) xs) s"
  using assms
proof (induction xs arbitrary: a n)
  case Nil
  then show ?case by (cases n) (auto simp: kexec)
next
  case (Cons x xs)
  then obtain m where n: "n = Suc m" by (cases n) auto
  show ?case using Cons.IH [of x m] Cons.prems by (auto simp: n kexec get_buf_def)
qed

lemma bget_unused_exec:
  assumes "chain (bufs s) NBUF xs z" "NBUF \<notin> set xs" "length xs < n"
  shows "bget_unused n (b_prev (bufs s z)) s = Ret (find (\<lambda>i. b_refcnt (bufs s i) = 0) (rev xs)) s"
  using assms
proof (induction xs arbitrary: z n rule: rev_induct)
  case Nil
  then show ?case by (cases n) (auto simp: kexec)
next
  case (snoc x xs)
  then obtain m where n: "n = Suc m" by (cases n) auto
  have c: "chain (bufs s) NBUF xs x" "b_prev (bufs s z) = x" using snoc.prems(1) by (auto simp: chain_append)
  show ?case using snoc.IH [OF c(1), of m] c snoc.prems by (auto simp: n kexec get_buf_def)
qed

declare bget_cached.simps [simp del] bget_unused.simps [simp del]

text \<open>Unlinking \<open>b\<close> and linking it in again behind the head, as \<open>brelse\<close> does.\<close>

definition put_prev :: "nat \<Rightarrow> nat \<Rightarrow> (nat \<Rightarrow> buf) \<Rightarrow> (nat \<Rightarrow> buf)" where
  "put_prev i v B = B(i := (B i)\<lparr>b_prev := v\<rparr>)"

definition put_next :: "nat \<Rightarrow> nat \<Rightarrow> (nat \<Rightarrow> buf) \<Rightarrow> (nat \<Rightarrow> buf)" where
  "put_next i v B = B(i := (B i)\<lparr>b_next := v\<rparr>)"

definition to_front :: "nat \<Rightarrow> (nat \<Rightarrow> buf) \<Rightarrow> (nat \<Rightarrow> buf)" where
  "to_front b B =
     (let B1 = put_prev (b_next (B b)) (b_prev (B b)) B;
          B2 = put_next (b_prev (B1 b)) (b_next (B1 b)) B1;
          B3 = put_next b (b_next (B2 NBUF)) B2;
          B4 = put_prev b NBUF B3;
          B5 = put_prev (b_next (B4 NBUF)) b B4
      in put_next NBUF b B5)"

lemma put_links [simp]:
  "b_prev (put_prev i v B j) = (if j = i then v else b_prev (B j))"
  "b_next (put_prev i v B j) = b_next (B j)"
  "b_next (put_next i v B j) = (if j = i then v else b_next (B j))"
  "b_prev (put_next i v B j) = b_prev (B j)"
  by (simp_all add: put_prev_def put_next_def)

lemma put_fields [simp]:
  "b_valid (put_prev i v B j) = b_valid (B j)" "b_valid (put_next i v B j) = b_valid (B j)"
  "b_dev (put_prev i v B j) = b_dev (B j)" "b_dev (put_next i v B j) = b_dev (B j)"
  "b_blockno (put_prev i v B j) = b_blockno (B j)" "b_blockno (put_next i v B j) = b_blockno (B j)"
  "b_refcnt (put_prev i v B j) = b_refcnt (B j)" "b_refcnt (put_next i v B j) = b_refcnt (B j)"
  "b_data (put_prev i v B j) = b_data (B j)" "b_data (put_next i v B j) = b_data (B j)"
  by (simp_all add: put_prev_def put_next_def)

lemma to_front_fields [simp]:
  "b_valid (to_front b B i) = b_valid (B i)" "b_dev (to_front b B i) = b_dev (B i)"
  "b_blockno (to_front b B i) = b_blockno (B i)" "b_refcnt (to_front b B i) = b_refcnt (B i)"
  "b_data (to_front b B i) = b_data (B i)"
  by (simp_all add: to_front_def Let_def)

lemma lru_to_front:
  assumes "lru B xs" "b < NBUF"
  shows "\<exists>ys. lru (to_front b B) ys"
proof -
  have d: "distinct xs" "set xs = {..<NBUF}" "chain B NBUF xs NBUF" using assms(1) by (auto simp: lru_def)
  then have nb: "NBUF \<notin> set xs" by simp
  obtain ys zs where xs: "xs = ys @ b # zs" using d(2) assms(2) by (metis in_set_conv_decomp lessThan_iff)
  have c: "chain B NBUF ys b" "chain B b zs NBUF" using d(3) by (auto simp: xs chain_append)
  define p where "p = last (NBUF # ys)"
  define n where "n = hd (zs @ [NBUF])"
  have pn: "b_prev (B b) = p" "b_next (B b) = n"
    using chain_ends(2) [OF c(1)] chain_ends(1) [OF c(2)] by (auto simp: p_def n_def)
  have ne: "p \<noteq> b" "n \<noteq> b" "b \<noteq> NBUF"
    using d(1) nb xs by (auto simp: p_def n_def hd_append)
  define B2 where "B2 = put_next p n (put_prev n p B)"
  have c2: "chain B2 NBUF (ys @ zs) NBUF"
    using d(1) nb xs by (intro chain_join [OF c]) (auto simp: p_def n_def B2_def)
  have f: "b_next (B2 NBUF) \<noteq> b"
    using chain_ends(1) [OF c2] d(1) ne(3) xs by (cases ys; cases zs) auto
  have eq: "to_front b B = put_next NBUF b (put_prev (b_next (B2 NBUF)) b (put_prev b NBUF
      (put_next b (b_next (B2 NBUF)) B2)))"
    using ne by (simp add: to_front_def B2_def Let_def pn)
  have "chain (to_front b B) NBUF (b # ys @ zs) NBUF"
    by (rule chain_front [OF c2]) (use d(1) nb xs ne f in \<open>auto simp: eq\<close>)
  moreover have "distinct (b # ys @ zs)" "set (b # ys @ zs) = {..<NBUF}"
    using d(1,2) by (auto simp: xs)
  ultimately show ?thesis unfolding lru_def by blast
qed

lemma lru_cong:
  assumes "\<And>i. b_next (B' i) = b_next (B i) \<and> b_prev (B' i) = b_prev (B i)"
  shows "lru B' xs = lru B xs"
  using assms chain_cong [of NBUF xs B' B NBUF] by (simp add: lru_def)

section \<open>The cache as its users see it\<close>

definition slot :: "'z kbio_scheme \<Rightarrow> u32 \<Rightarrow> nat option" where
  "slot s bn = find (\<lambda>i. b_dev (bufs s i) = ROOTDEV \<and> b_blockno (bufs s i) = bn) [0..<NBUF]"

definition cview :: "'z kbio_scheme \<Rightarrow> cview" where
  "cview s = \<lparr>
     v_refs = (\<lambda>bn. case slot s bn of None \<Rightarrow> 0 | Some i \<Rightarrow> unat (b_refcnt (bufs s i))),
     v_blk = (\<lambda>bn. case slot s bn of None \<Rightarrow> disk s bn
       | Some i \<Rightarrow> if b_valid (bufs s i) then b_data (bufs s i) else disk s bn),
     v_disk = disk s,
     v_writes = dwrites s,
     v_busy = {bn. \<exists>i. slot s bn = Some i \<and> \<not> slock_free s (BufLock i)}\<rparr>"

lemma cview_cong:
  assumes "bufs t = bufs s" "disk t = disk s" "dwrites t = dwrites s" "slocks t = slocks s"
  shows "cview t = cview s"
  unfolding cview_def slot_def slock_free_def assms ..

text \<open>
  The invariant of the cache: the list is intact, no block has two buffers, a buffer nobody references
  is unlocked and holds what the disk holds, and the locked buffers are those of the running process.
\<close>

definition buf_ok :: "'z kbio_scheme \<Rightarrow> nat \<Rightarrow> bool" where
  "buf_ok s i \<longleftrightarrow>
     b_dev (bufs s i) \<in> {0, ROOTDEV} \<and>
     (b_dev (bufs s i) = 0 \<longrightarrow> b_refcnt (bufs s i) = 0) \<and>
     (b_refcnt (bufs s i) = 0 \<longrightarrow> slock_free s (BufLock i) \<and>
        (b_valid (bufs s i) \<and> b_dev (bufs s i) = ROOTDEV \<longrightarrow> b_data (bufs s i) = disk s (b_blockno (bufs s i)))) \<and>
     (\<not> slock_free s (BufLock i) \<longrightarrow> slock_mine s (BufLock i) \<and> b_valid (bufs s i))"

definition cache_ok :: "'z kbio_scheme \<Rightarrow> bool" where
  "cache_ok s \<longleftrightarrow> held s = {} \<and> cur s \<noteq> None \<and> (\<exists>xs. lru (bufs s) xs) \<and> (\<forall>i < NBUF. buf_ok s i) \<and>
     (\<forall>i < NBUF. \<forall>j < NBUF. i \<noteq> j \<and> b_dev (bufs s i) = ROOTDEV \<and> b_dev (bufs s j) = ROOTDEV \<longrightarrow>
        b_blockno (bufs s i) \<noteq> b_blockno (bufs s j))"

lemma find_SomeD: "find P xs = Some x \<Longrightarrow> P x \<and> x \<in> set xs"
  by (induction xs) (auto split: if_splits)

lemma find_upt_None: "find P [0..<n] = None \<longleftrightarrow> (\<forall>i < n. \<not> P i)"
  by (auto simp: find_None_iff)

lemma find_unique:
  assumes "i \<in> set xs" "P i" "\<And>j. j \<in> set xs \<Longrightarrow> P j \<Longrightarrow> j = i"
  shows "find P xs = Some i"
proof (cases "find P xs")
  case None
  then show ?thesis using assms(1,2) by (auto simp: find_None_iff)
next
  case (Some j)
  then show ?thesis using find_SomeD [OF Some] assms(3) by simp
qed

lemma option_eqI: "(\<And>j. a = Some j \<longleftrightarrow> b = Some j) \<Longrightarrow> a = b"
  by (cases a) (auto, metis option.exhaust)

lemma slot_iff:
  assumes "cache_ok s"
  shows "slot s bn = Some i \<longleftrightarrow> i < NBUF \<and> b_dev (bufs s i) = ROOTDEV \<and> b_blockno (bufs s i) = bn"
proof
  assume "slot s bn = Some i"
  from find_SomeD [OF this [unfolded slot_def]]
  show "i < NBUF \<and> b_dev (bufs s i) = ROOTDEV \<and> b_blockno (bufs s i) = bn"
    unfolding set_upt atLeastLessThan_iff by blast
next
  assume i: "i < NBUF \<and> b_dev (bufs s i) = ROOTDEV \<and> b_blockno (bufs s i) = bn"
  show "slot s bn = Some i"
    unfolding slot_def
  proof (rule find_unique)
    fix j assume "j \<in> set [0..<NBUF]" "b_dev (bufs s j) = ROOTDEV \<and> b_blockno (bufs s j) = bn"
    then show "j = i" using i assms unfolding cache_ok_def set_upt atLeastLessThan_iff by metis
  qed (use i in \<open>simp_all add: set_upt del: upt_rec_numeral\<close>)
qed

lemma slot_None: "slot s bn = None \<longleftrightarrow> (\<forall>i < NBUF. \<not> (b_dev (bufs s i) = ROOTDEV \<and> b_blockno (bufs s i) = bn))"
  unfolding slot_def by (rule find_upt_None)

text \<open>Nothing but the cache, its locks, the disk and the wake-ups of sleepers differs.\<close>

definition bio_frame :: "'z kbio_scheme \<Rightarrow> 'z kbio_scheme \<Rightarrow> bool" where
  "bio_frame s t \<longleftrightarrow>
     t = s\<lparr>bufs := bufs t, slocks := slocks t, disk := disk t, dwrites := dwrites t, ptable := ptable t\<rparr> \<and>
     (\<forall>i. slocks t (InodeLock i) = slocks s (InodeLock i)) \<and>
     (\<forall>p. (ptable t p)\<lparr>p_state := UNUSED\<rparr> = (ptable s p)\<lparr>p_state := UNUSED\<rparr>)"

lemma bio_frame_refl [simp]: "bio_frame s s"
  by (simp add: bio_frame_def)

lemma bio_frame_trans:
  assumes "bio_frame s t" "bio_frame t u" shows "bio_frame s u"
proof -
  have "u = s\<lparr>bufs := bufs u, slocks := slocks u, disk := disk u, dwrites := dwrites u, ptable := ptable u\<rparr>"
    using assms by (cases s, cases t, cases u) (simp add: bio_frame_def)
  then show ?thesis using assms unfolding bio_frame_def by metis
qed

section \<open>Reading a block\<close>

lemma buf_ok_cong:
  assumes "bufs t i = bufs s i" "slocks t (BufLock i) = slocks s (BufLock i)" "cur t = cur s"
    "\<And>p. p_pid (ptable t p) = p_pid (ptable s p)" "disk t (b_blockno (bufs s i)) = disk s (b_blockno (bufs s i))"
  shows "buf_ok t i = buf_ok s i"
  using assms by (simp add: buf_ok_def slock_free_def slock_mine_def)

text \<open>
  Buffer \<open>i\<close> is given to block \<open>bn\<close>: it has it already, or no buffer has it and \<open>i\<close> is unreferenced.
\<close>

lemma give_buf:
  fixes s :: "'z kbio_scheme"
  assumes ok: "cache_ok s" and p: "cur s = Some p" and i: "i < NBUF"
    and old: "slot s bn = Some i \<or> slot s bn = None \<and> b_refcnt (bufs s i) = 0"
    and x: "b_dev x = ROOTDEV" "b_blockno x = bn" "b_valid x" "b_data x = v_blk (cview s) bn"
      "unat (b_refcnt x) = v_refs (cview s) bn + 1" "b_next x = b_next (bufs s i)" "b_prev x = b_prev (bufs s i)"
    and k: "sl_locked k \<noteq> 0" "sl_pid k = p_pid (ptable s p)"
  defines "t \<equiv> s\<lparr>bufs := (bufs s)(i := x), slocks := (slocks s)(BufLock i := k)\<rparr>"
  shows "cache_ok t" "slot t bn = Some i"
    "cview t = (cview s)\<lparr>v_refs := (v_refs (cview s))(bn := v_refs (cview s) bn + 1), v_busy := insert bn (v_busy (cview s))\<rparr>"
    "\<And>y. v_refs (cview s) y > 0 \<Longrightarrow> slot t y = slot s y"
    "bio_frame s t"
proof -
  have others: "b_blockno (bufs s j) \<noteq> bn" if "j < NBUF" "j \<noteq> i" "b_dev (bufs s j) = ROOTDEV" for j
  proof
    assume "b_blockno (bufs s j) = bn"
    then have "slot s bn = Some j" using that slot_iff [OF ok] by simp
    then show False using old that(2) by simp
  qed
  have fr: "\<not> slock_free t (BufLock i)" "slock_mine t (BufLock i)"
    using k p by (auto simp: t_def slock_free_def slock_mine_def)
  have bi: "buf_ok t i"
    using x(1,3,5) fr by (auto simp: buf_ok_def t_def)
  have bj: "buf_ok t j" if "j < NBUF" "j \<noteq> i" for j
    using ok that buf_ok_cong [of t j s] by (auto simp: t_def cache_ok_def)
  have "\<exists>xs. lru (bufs t) xs"
    using ok lru_cong [of "bufs t" "bufs s"] x(6,7) by (auto simp: t_def cache_ok_def)
  moreover have "\<forall>j < NBUF. buf_ok t j" using bi bj by metis
  moreover have "b_blockno (bufs t a) \<noteq> b_blockno (bufs t b)"
    if "a < NBUF" "b < NBUF" "a \<noteq> b" "b_dev (bufs t a) = ROOTDEV" "b_dev (bufs t b) = ROOTDEV" for a b
    using that others [of a] others [of b] ok x(2) by (auto simp: t_def cache_ok_def split: if_splits)
  ultimately show okt: "cache_ok t" using ok by (simp add: cache_ok_def t_def)
  have slot_t: "slot t y = (if y = bn then Some i else if slot s y = Some i then None else slot s y)" for y
  proof -
    have "slot t y = Some j \<longleftrightarrow> (if y = bn then j = i else j \<noteq> i \<and> slot s y = Some j)" for j
      unfolding slot_iff [OF okt] slot_iff [OF ok]
      using x(1,2) i others [of j] by (auto simp: t_def)
    then show ?thesis by (intro option_eqI) (auto split: if_splits)
  qed
  then show "slot t bn = Some i" by simp
  have ev: "b_refcnt (bufs s i) = 0" if "slot s y = Some i" "y \<noteq> bn" for y
    using old that slot_iff [OF ok] by auto
  have clean: "(b_valid (bufs s i) \<longrightarrow> b_data (bufs s i) = disk s y) \<and> slock_free s (BufLock i)"
    if "slot s y = Some i" "y \<noteq> bn" for y
    using ok i ev [OF that] that(1) slot_iff [OF ok] by (auto simp: cache_ok_def buf_ok_def)
  show "\<And>y. v_refs (cview s) y > 0 \<Longrightarrow> slot t y = slot s y"
  proof -
    fix y assume y: "v_refs (cview s) y > 0"
    then obtain j where j: "slot s y = Some j" "b_refcnt (bufs s j) \<noteq> 0"
      by (cases "slot s y") (auto simp: cview_def unat_gt_0)
    then show "slot t y = slot s y" using slot_t [of y] ev [of y] old by (cases "y = bn"; cases "j = i") auto
  qed
  have disk: "disk t = disk s" "dwrites t = dwrites s" by (simp_all add: t_def)
  have ne: "bufs t j = bufs s j" "slock_free t (BufLock j) = slock_free s (BufLock j)" if "j \<noteq> i" for j
    using that by (simp_all add: t_def slock_free_def)
  have at_i: "bufs t i = x" by (simp add: t_def)
  have "v_refs (cview t) y = ((v_refs (cview s))(bn := v_refs (cview s) bn + 1)) y" for y
    using slot_t [of y] x(5) at_i ne ev [of y] by (auto simp: cview_def split: option.splits)
  moreover have "v_blk (cview t) y = v_blk (cview s) y" for y
  proof (cases "y = bn")
    case True
    have "v_blk (cview t) bn = b_data x"
      using slot_t [of bn] x(3) at_i by (simp add: cview_def)
    then show ?thesis using True x(4) by simp
  next
    case False
    then show ?thesis
      using slot_t [of y] ne clean [of y] disk by (auto simp: cview_def split: option.splits)
  qed
  moreover have "y \<in> v_busy (cview t) \<longleftrightarrow> y \<in> insert bn (v_busy (cview s))" for y
    using slot_t [of y] fr(1) ne clean [of y] by (auto simp: cview_def split: if_splits)
  ultimately show "cview t = (cview s)\<lparr>v_refs := (v_refs (cview s))(bn := v_refs (cview s) bn + 1),
      v_busy := insert bn (v_busy (cview s))\<rparr>"
    by (intro cview.equality) (auto simp: disk cview_def)
  show "bio_frame s t" by (simp add: bio_frame_def t_def)
qed

lemma free_buf_exists:
  assumes ok: "cache_ok s" and few: "card {y. v_refs (cview s) y > 0} < NBUF"
  shows "\<exists>i < NBUF. b_refcnt (bufs s i) = 0"
proof (rule ccontr)
  assume "\<not> ?thesis"
  then have used: "b_refcnt (bufs s i) \<noteq> 0" if "i < NBUF" for i using that by blast
  have rd: "b_dev (bufs s i) = ROOTDEV" if "i < NBUF" for i
    using ok used [OF that] that by (auto simp: cache_ok_def buf_ok_def)
  have "inj_on (\<lambda>i. b_blockno (bufs s i)) {..<NBUF}"
    using ok rd by (auto simp: inj_on_def cache_ok_def)
  moreover have "(\<lambda>i. b_blockno (bufs s i)) ` {..<NBUF} \<subseteq> {y. v_refs (cview s) y > 0}"
  proof
    fix y assume "y \<in> (\<lambda>i. b_blockno (bufs s i)) ` {..<NBUF}"
    then obtain i where i: "i < NBUF" "y = b_blockno (bufs s i)" by blast
    then have "slot s y = Some i" using rd slot_iff [OF ok] by simp
    then show "y \<in> {y. v_refs (cview s) y > 0}" using used [OF i(1)] by (simp add: cview_def unat_gt_0)
  qed
  ultimately have "card {..<NBUF} \<le> card {y. v_refs (cview s) y > 0}"
    by (rule card_inj_on_le) simp
  then show False using few by simp
qed

lemma bget_finds:
  assumes ok: "cache_ok s" and s': "s' = s\<lparr>held := h\<rparr>"
  shows "bget_cached (Suc NBUF) ROOTDEV bn (b_next (bufs s' NBUF)) s' = Ret (slot s bn) s'"
    "\<exists>r. bget_unused (Suc NBUF) (b_prev (bufs s' NBUF)) s' = Ret r s' \<and>
      (case r of None \<Rightarrow> \<forall>i < NBUF. b_refcnt (bufs s i) \<noteq> 0 | Some i \<Rightarrow> i < NBUF \<and> b_refcnt (bufs s i) = 0)"
proof -
  obtain xs where xs: "distinct xs" "set xs = {..<NBUF}" "chain (bufs s') NBUF xs NBUF"
    using ok s' by (auto simp: cache_ok_def lru_def)
  have len: "length xs < Suc NBUF" using distinct_card [OF xs(1)] xs(2) by simp
  have nb: "NBUF \<notin> set xs" using xs(2) by simp
  have "find (\<lambda>i. b_dev (bufs s' i) = ROOTDEV \<and> b_blockno (bufs s' i) = bn) xs = slot s bn"
  proof (rule option_eqI)
    fix j
    have *: "find (\<lambda>i. b_dev (bufs s' i) = ROOTDEV \<and> b_blockno (bufs s' i) = bn) xs = Some j \<longleftrightarrow>
      j < NBUF \<and> b_dev (bufs s j) = ROOTDEV \<and> b_blockno (bufs s j) = bn" (is "?f = _ \<longleftrightarrow> ?r")
    proof
      assume "?f = Some j"
      from find_SomeD [OF this] show ?r unfolding xs(2) s' by simp
    next
      assume r: ?r
      show "?f = Some j"
      proof (rule find_unique)
        fix k assume "k \<in> set xs" "b_dev (bufs s' k) = ROOTDEV \<and> b_blockno (bufs s' k) = bn"
        then have "slot s bn = Some k" unfolding slot_iff [OF ok] xs(2) s' by simp
        moreover have "slot s bn = Some j" using r unfolding slot_iff [OF ok] .
        ultimately show "k = j" by simp
      qed (use r xs(2) s' in simp_all)
    qed
    show "?f = Some j \<longleftrightarrow> slot s bn = Some j" unfolding * slot_iff [OF ok] ..
  qed
  then show "bget_cached (Suc NBUF) ROOTDEV bn (b_next (bufs s' NBUF)) s' = Ret (slot s bn) s'"
    using bget_cached_exec [OF xs(3) nb len, of ROOTDEV bn] by simp
  have "case find (\<lambda>i. b_refcnt (bufs s' i) = 0) (rev xs) of None \<Rightarrow> \<forall>i < NBUF. b_refcnt (bufs s i) \<noteq> 0
      | Some i \<Rightarrow> i < NBUF \<and> b_refcnt (bufs s i) = 0"
  proof (cases "find (\<lambda>i. b_refcnt (bufs s' i) = 0) (rev xs)")
    case None
    then have "\<not> (\<exists>i. i \<in> {..<NBUF} \<and> b_refcnt (bufs s i) = 0)"
      using xs(2) s' unfolding find_None_iff set_rev by simp
    then show ?thesis using None by auto
  next
    case (Some i)
    from find_SomeD [OF this] have "b_refcnt (bufs s i) = 0 \<and> i \<in> {..<NBUF}"
      using xs(2) s' by simp
    then show ?thesis using Some unfolding lessThan_iff by simp
  qed
  then show "\<exists>r. bget_unused (Suc NBUF) (b_prev (bufs s' NBUF)) s' = Ret r s' \<and>
      (case r of None \<Rightarrow> \<forall>i < NBUF. b_refcnt (bufs s i) \<noteq> 0 | Some i \<Rightarrow> i < NBUF \<and> b_refcnt (bufs s i) = 0)"
    using bget_unused_exec [OF xs(3) nb len] by blast
qed

text \<open>What every operation on a buffer keeps: the buffers of the referenced blocks stay where they are.\<close>

definition cstep :: "'z kbio_scheme \<Rightarrow> 'z kbio_scheme \<Rightarrow> bool" where
  "cstep s t \<longleftrightarrow> cache_ok t \<and> bio_frame s t \<and> (\<forall>y. v_refs (cview s) y > 0 \<longrightarrow> slot t y = slot s y)"

lemma free_refs:
  assumes "cache_ok s" "i < NBUF" "b_refcnt (bufs s i) = 0"
  shows "slock_free s (BufLock i)"
  using assms by (auto simp: cache_ok_def buf_ok_def)

lemma bread_exec:
  fixes s :: "'z kbio_scheme"
  assumes ok: "cache_ok s" and free: "bn \<notin> v_busy (cview s)" and big: "v_refs (cview s) bn + 1 < 2 ^ 32"
    and room: "v_refs (cview s) bn > 0 \<or> card {y. v_refs (cview s) y > 0} < NBUF"
  shows "\<exists>i t. bread ROOTDEV bn s = Ret i t \<and> cstep s t \<and> slot t bn = Some i \<and>
    cview t = (cview s)\<lparr>v_refs := (v_refs (cview s))(bn := v_refs (cview s) bn + 1), v_busy := insert bn (v_busy (cview s))\<rparr>"
proof -
  obtain p where p: "cur s = Some p" "held s = {}" using ok by (auto simp: cache_ok_def)
  define s' where "s' = s\<lparr>held := insert BcacheLock (held s)\<rparr>"
  note fnd = bget_finds(1) [OF ok s'_def, of bn] bget_finds(2) [OF ok s'_def]
  let ?fin = "\<lambda>i x. s\<lparr>bufs := (bufs s)(i := x),
    slocks := (slocks s)(BufLock i := (slocks s (BufLock i))\<lparr>sl_locked := 1, sl_pid := p_pid (ptable s p)\<rparr>)\<rparr>"
  show ?thesis
  proof (cases "slot s bn")
    case (Some i)
    then have i: "i < NBUF" "b_dev (bufs s i) = ROOTDEV" "b_blockno (bufs s i) = bn" using slot_iff [OF ok] by auto
    have fl: "slock_free s (BufLock i)" using free Some by (auto simp: cview_def)
    define x where "x = (if b_valid (bufs s i) then (bufs s i)\<lparr>b_refcnt := b_refcnt (bufs s i) + 1\<rparr>
      else (bufs s i)\<lparr>b_refcnt := b_refcnt (bufs s i) + 1, b_data := disk s bn, b_valid := True\<rparr>)"
    have ex: "bread ROOTDEV bn s = Ret i (?fin i x)"
      using p fl fnd(1) Some i
      by (cases s) (simp add: bread_def bget_def s'_def kexec buf_defs slock_free_def x_def cview_def)
    have "unat (b_refcnt x) = v_refs (cview s) bn + 1"
      using big Some by (simp add: x_def cview_def unat_word_ariths)
    then have g: "unat (b_refcnt x) = v_refs (cview s) bn + 1" "b_dev x = ROOTDEV" "b_blockno x = bn" "b_valid x"
       "b_data x = v_blk (cview s) bn" "b_next x = b_next (bufs s i)" "b_prev x = b_prev (bufs s i)"
      using i Some by (simp_all add: x_def cview_def)
    note gb = give_buf [OF ok p(1) i(1) disjI1 [OF Some] g(2-5) g(1) g(6,7), where k = "(slocks s (BufLock i))\<lparr>sl_locked := 1, sl_pid := p_pid (ptable s p)\<rparr>", simplified]
    show ?thesis using ex gb by (auto simp: cstep_def)
  next
    case None
    have r0: "v_refs (cview s) bn = 0" using None by (simp add: cview_def)
    obtain i where i: "i < NBUF" "b_refcnt (bufs s i) = 0"
        "bget_unused (Suc NBUF) (b_prev (bufs s' NBUF)) s' = Ret (Some i) s'"
      using fnd(2) free_buf_exists [OF ok] room r0 by (auto split: option.splits)
    define x where "x = (bufs s i)\<lparr>b_dev := ROOTDEV, b_blockno := bn, b_valid := False, b_refcnt := 1, b_data := disk s bn, b_valid := True\<rparr>"
    have ex: "bread ROOTDEV bn s = Ret i (?fin i x)"
      using p free_refs [OF ok i(1,2)] fnd(1) None i
      by (cases s) (simp add: bread_def bget_def s'_def kexec buf_defs slock_free_def x_def)
    have g: "unat (b_refcnt x) = v_refs (cview s) bn + 1" "b_dev x = ROOTDEV" "b_blockno x = bn" "b_valid x"
       "b_data x = v_blk (cview s) bn" "b_next x = b_next (bufs s i)" "b_prev x = b_prev (bufs s i)"
      using r0 None by (simp_all add: x_def cview_def)
    note gb = give_buf [OF ok p(1) i(1) disjI2 [OF conjI [OF None i(2)]] g(2-5) g(1) g(6,7), where k = "(slocks s (BufLock i))\<lparr>sl_locked := 1, sl_pid := p_pid (ptable s p)\<rparr>", simplified]
    show ?thesis using ex gb by (auto simp: cstep_def)
  qed
qed

section \<open>Working on a block and releasing it\<close>

lemma same_slots:
  assumes "\<And>i. b_dev (bufs t i) = b_dev (bufs s i)" "\<And>i. b_blockno (bufs t i) = b_blockno (bufs s i)"
  shows "slot t = slot s"
  using assms by (auto simp: slot_def fun_eq_iff simp del: upt_rec_numeral)

lemma cstepI:
  assumes "cache_ok s" "bio_frame s t"
    and "\<And>i. b_dev (bufs t i) = b_dev (bufs s i)" "\<And>i. b_blockno (bufs t i) = b_blockno (bufs s i)"
    and "\<exists>xs. lru (bufs t) xs" "\<And>i. i < NBUF \<Longrightarrow> buf_ok t i"
  shows "cstep s t"
proof -
  have "held t = held s" "cur t = cur s"
    using assms(2) by (cases s, cases t, simp add: bio_frame_def)+
  then have "cache_ok t" using assms by (simp add: cache_ok_def)
  then show ?thesis using assms(2) same_slots [of t s, OF assms(3,4)] by (simp add: cstep_def)
qed

lemma busyD:
  assumes "cache_ok s" "slot s bn = Some i" "bn \<in> v_busy (cview s)"
  shows "i < NBUF" "b_dev (bufs s i) = ROOTDEV" "b_blockno (bufs s i) = bn" "slock_mine s (BufLock i)"
    "b_valid (bufs s i)" "b_refcnt (bufs s i) \<noteq> 0" "\<not> slock_free s (BufLock i)"
proof -
  show i: "i < NBUF" "b_dev (bufs s i) = ROOTDEV" "b_blockno (bufs s i) = bn" using assms slot_iff by auto
  show l: "\<not> slock_free s (BufLock i)" using assms(2,3) by (auto simp: cview_def)
  then show "slock_mine s (BufLock i)" "b_valid (bufs s i)" "b_refcnt (bufs s i) \<noteq> 0"
    using assms(1) i(1) by (auto simp: cache_ok_def buf_ok_def)
qed

lemma slot_other:
  assumes "cache_ok s" "slot s bn = Some i" "j < NBUF" "b_dev (bufs s j) = ROOTDEV" "j \<noteq> i"
  shows "b_blockno (bufs s j) \<noteq> bn"
  using assms slot_iff [OF assms(1), of bn j] by auto

text \<open>The effect on the view of an operation on one buffer.\<close>

lemma lru_keep:
  assumes "cache_ok s" "\<And>j. b_next (B j) = b_next (bufs s j) \<and> b_prev (B j) = b_prev (bufs s j)"
  shows "\<exists>xs. lru B xs"
  using assms lru_cong [of B "bufs s"] by (simp add: cache_ok_def)

lemma touch_buf:
  fixes s :: "'z kbio_scheme" and B k pt t
  assumes ok: "cache_ok s" and i: "slot s bn = Some i"
    and t_def: "t = s\<lparr>bufs := B, slocks := (slocks s)(BufLock i := k), ptable := pt\<rparr>"
    and same: "\<And>j. b_dev (B j) = b_dev (bufs s j)" "\<And>j. b_blockno (B j) = b_blockno (bufs s j)"
    and others: "\<And>j. j \<noteq> i \<Longrightarrow> b_valid (B j) = b_valid (bufs s j) \<and> b_refcnt (B j) = b_refcnt (bufs s j) \<and> b_data (B j) = b_data (bufs s j)"
    and xs: "\<exists>xs. lru B xs"
    and pt: "\<And>p. (pt p)\<lparr>p_state := UNUSED\<rparr> = (ptable s p)\<lparr>p_state := UNUSED\<rparr>"
    and bi: "buf_ok t i"
    and r: "unat (b_refcnt (B i)) = r" and d: "(if b_valid (B i) then b_data (B i) else disk s bn) = d"
    and u: "(if sl_locked k = 0 then v_busy (cview s) - {bn} else insert bn (v_busy (cview s))) = u"
  shows "cstep s t \<and> cview t = (cview s)\<lparr>v_refs := (v_refs (cview s))(bn := r), v_blk := (v_blk (cview s))(bn := d), v_busy := u\<rparr>"
proof -
  have pid: "p_pid (pt p) = p_pid (ptable s p)" for p
    using arg_cong [OF pt [of p], of p_pid] by simp
  have bj: "buf_ok t j" if "j < NBUF" for j
  proof (cases "j = i")
    case False
    then show ?thesis
      using ok that same [of j] others [of j] by (auto simp: t_def cache_ok_def buf_ok_def slock_free_def slock_mine_def pid)
  qed (simp add: bi)
  have "cstep s t"
    using ok same xs bj pt by (intro cstepI) (auto simp: t_def bio_frame_def)
  moreover have sl: "slot t = slot s" by (rule same_slots) (simp_all add: t_def same)
  moreover have ne: "i' \<noteq> i" if "slot s y = Some i'" "y \<noteq> bn" for y i' using that i slot_iff [OF ok] by auto
  moreover have "v_refs (cview t) y = ((v_refs (cview s))(bn := r)) y" for y
    using r i ne [of y] others by (cases "slot s y") (auto simp: cview_def sl, auto simp: t_def)
  moreover have "v_blk (cview t) y = ((v_blk (cview s))(bn := d)) y" for y
    using d i ne [of y] others by (cases "slot s y") (auto simp: cview_def sl, auto simp: t_def)
  moreover have "y \<in> v_busy (cview t) \<longleftrightarrow> y \<in> u" for y
    unfolding u [symmetric] using i ne [of y] by (cases "slot s y") (auto simp: cview_def sl slock_free_def, auto simp: t_def split: if_splits)
  ultimately show ?thesis
    by (intro conjI cview.equality) (auto, auto simp: cview_def t_def)
qed

lemma bwrite_exec:
  assumes ok: "cache_ok s" and i: "slot s bn = Some i" and b: "bn \<in> v_busy (cview s)"
  shows "\<exists>t. bwrite i s = Ret () t \<and> cstep s t \<and>
    cview t = (cview s)\<lparr>v_disk := (v_disk (cview s))(bn := v_blk (cview s) bn),
      v_writes := v_writes (cview s) @ [(bn, v_blk (cview s) bn)]\<rparr>"
proof -
  note B = busyD [OF ok i b]
  define t where "t = s\<lparr>disk := (disk s)(bn := b_data (bufs s i)), dwrites := dwrites s @ [(bn, b_data (bufs s i))]\<rparr>"
  obtain p where p: "held s = {}" "cur s = Some p" using ok by (auto simp: cache_ok_def)
  have ex: "bwrite i s = Ret () t"
    using B p by (simp add: bwrite_def kexec buf_defs t_def)
  have ne: "b_blockno (bufs s j) \<noteq> bn" if "j < NBUF" "b_dev (bufs s j) = ROOTDEV" "j \<noteq> i" for j
    using slot_other [OF ok i] that by blast
  have "buf_ok t j" if "j < NBUF" for j
  proof (cases "j = i")
    case True
    then show ?thesis using ok that B by (auto simp: t_def cache_ok_def buf_ok_def slock_free_def slock_mine_def)
  next
    case False
    then show ?thesis using ok that ne [of j] by (auto simp: t_def cache_ok_def buf_ok_def slock_free_def slock_mine_def)
  qed
  then have st: "cstep s t" using ok by (intro cstepI) (auto simp: t_def bio_frame_def cache_ok_def)
  have sl: "slot t = slot s" by (rule same_slots) (simp_all add: t_def)
  have blk: "v_blk (cview s) bn = b_data (bufs s i)" using i B by (simp add: cview_def)
  have "v_blk (cview t) y = v_blk (cview s) y" for y
    using sl i B by (cases "y = bn") (auto simp: cview_def t_def split: option.splits)
  moreover have "v_refs (cview t) = v_refs (cview s)" "v_busy (cview t) = v_busy (cview s)"
    using arg_cong [OF t_def, of bufs] arg_cong [OF t_def, of slocks] by (simp_all add: cview_def sl slock_free_def fun_eq_iff split: option.split)
  ultimately have "cview t = (cview s)\<lparr>v_disk := (v_disk (cview s))(bn := v_blk (cview s) bn),
      v_writes := v_writes (cview s) @ [(bn, v_blk (cview s) bn)]\<rparr>"
    by (intro cview.equality) (auto simp: blk, auto simp: cview_def t_def)
  then show ?thesis using ex st by blast
qed

text \<open>A holder of the buffer stores new contents in it.\<close>

lemma set_data_exec:
  assumes ok: "cache_ok s" and i: "slot s bn = Some i" and b: "bn \<in> v_busy (cview s)"
  shows "\<exists>t. set_buf i (\<lambda>x. x\<lparr>b_data := f (b_data x)\<rparr>) s = Ret () t \<and> cstep s t \<and>
    cview t = (cview s)\<lparr>v_blk := (v_blk (cview s))(bn := f (v_blk (cview s) bn))\<rparr>"
proof -
  note B = busyD [OF ok i b]
  let ?B = "(bufs s)(i := (bufs s i)\<lparr>b_data := f (b_data (bufs s i))\<rparr>)"
  have v: "v_blk (cview s) bn = b_data (bufs s i)" "v_refs (cview s) bn = unat (b_refcnt (bufs s i))"
    using B i by (simp_all add: cview_def)
  have "cstep s (s\<lparr>bufs := ?B\<rparr>) \<and> cview (s\<lparr>bufs := ?B\<rparr>) = (cview s)
     \<lparr>v_refs := (v_refs (cview s))(bn := v_refs (cview s) bn),
       v_blk := (v_blk (cview s))(bn := f (v_blk (cview s) bn)), v_busy := v_busy (cview s)\<rparr>"
    using ok B b
    by (intro touch_buf [OF ok i, where B = ?B and k = "slocks s (BufLock i)" and pt = "ptable s"] lru_keep)
      (auto simp: buf_ok_def slock_free_def slock_mine_def v)
  then show ?thesis by (auto simp: kexec buf_defs)
qed

lemma bpin_exec:
  assumes ok: "cache_ok s" and i: "slot s bn = Some i" and r: "v_refs (cview s) bn > 0" "v_refs (cview s) bn + 1 < 2 ^ 32"
  shows "\<exists>t. bpin i s = Ret () t \<and> cstep s t \<and>
    cview t = (cview s)\<lparr>v_refs := (v_refs (cview s))(bn := v_refs (cview s) bn + 1)\<rparr>"
proof -
  let ?B = "(bufs s)(i := (bufs s i)\<lparr>b_refcnt := b_refcnt (bufs s i) + 1\<rparr>)"
  have B: "i < NBUF" "buf_ok s i" using slot_iff [OF ok] i ok by (auto simp: cache_ok_def)
  have v: "v_refs (cview s) bn = unat (b_refcnt (bufs s i))" using i by (simp add: cview_def)
  have u: "unat (b_refcnt (bufs s i) + 1) = v_refs (cview s) bn + 1" using r(2) v by (simp add: unat_word_ariths)
  have "cstep s (s\<lparr>bufs := ?B\<rparr>) \<and> cview (s\<lparr>bufs := ?B\<rparr>) = (cview s)
     \<lparr>v_refs := (v_refs (cview s))(bn := v_refs (cview s) bn + 1),
       v_blk := (v_blk (cview s))(bn := v_blk (cview s) bn), v_busy := v_busy (cview s)\<rparr>"
    using ok B u r
    by (intro touch_buf [OF ok i, where B = ?B and k = "slocks s (BufLock i)" and pt = "ptable s"] lru_keep)
      (auto simp: buf_ok_def slock_free_def slock_mine_def cview_def i)
  moreover have "held s = {}" using ok by (simp add: cache_ok_def)
  ultimately show ?thesis by (cases s) (auto simp: bpin_def kexec buf_defs)
qed

lemma unat_dec: "0 < unat (x :: u32) \<Longrightarrow> unat (x - 1) = unat x - 1"
  by (metis One_nat_def Suc_leI unat_1 unat_sub word_le_nat_alt)

lemma bunpin_exec:
  assumes ok: "cache_ok s" and i: "slot s bn = Some i" and r: "2 \<le> v_refs (cview s) bn"
  shows "\<exists>t. bunpin i s = Ret () t \<and> cstep s t \<and>
    cview t = (cview s)\<lparr>v_refs := (v_refs (cview s))(bn := v_refs (cview s) bn - 1)\<rparr>"
proof -
  let ?B = "(bufs s)(i := (bufs s i)\<lparr>b_refcnt := b_refcnt (bufs s i) - 1\<rparr>)"
  have B: "i < NBUF" "buf_ok s i" using slot_iff [OF ok] i ok by (auto simp: cache_ok_def)
  have v: "v_refs (cview s) bn = unat (b_refcnt (bufs s i))" using i by (simp add: cview_def)
  have u: "unat (b_refcnt (bufs s i) - 1) = v_refs (cview s) bn - 1" "b_refcnt (bufs s i) \<noteq> 0" "b_refcnt (bufs s i) \<noteq> 1"
    using r v unat_dec [of "b_refcnt (bufs s i)"] by auto
  have "cstep s (s\<lparr>bufs := ?B\<rparr>) \<and> cview (s\<lparr>bufs := ?B\<rparr>) = (cview s)
     \<lparr>v_refs := (v_refs (cview s))(bn := v_refs (cview s) bn - 1),
       v_blk := (v_blk (cview s))(bn := v_blk (cview s) bn), v_busy := v_busy (cview s)\<rparr>"
    using ok B u r
    by (intro touch_buf [OF ok i, where B = ?B and k = "slocks s (BufLock i)" and pt = "ptable s"] lru_keep)
      (auto simp: buf_ok_def slock_free_def slock_mine_def cview_def i)
  moreover have "held s = {}" using ok by (simp add: cache_ok_def)
  ultimately show ?thesis by (cases s) (auto simp: bunpin_def kexec buf_defs)
qed

lemma brelse_front_exec [kexec]: "brelse_front b s = Ret () (s\<lparr>bufs := to_front b (bufs s)\<rparr>)"
  by (cases s) (simp add: brelse_front_def kexec buf_defs to_front_def Let_def flip: put_prev_def put_next_def)

text \<open>The buffers after a reference to \<open>i\<close> is dropped.\<close>

definition drop_ref :: "nat \<Rightarrow> (nat \<Rightarrow> buf) \<Rightarrow> (nat \<Rightarrow> buf)" where
  "drop_ref i B = B(i := (B i)\<lparr>b_refcnt := b_refcnt (B i) - 1\<rparr>)"

definition released :: "nat \<Rightarrow> 'z kbio_scheme \<Rightarrow> 'z kbio_scheme" where
  "released i s = s\<lparr>
     bufs := (if b_refcnt (bufs s i) = 1 then to_front i (drop_ref i (bufs s)) else drop_ref i (bufs s)),
     slocks := (slocks s)(BufLock i := (slocks s (BufLock i))\<lparr>sl_locked := 0, sl_pid := 0\<rparr>),
     ptable := woken (slock_chan (BufLock i)) {..<NPROC} (ptable s)\<rparr>"

lemma bunpin_run: "held s = {} \<Longrightarrow> bunpin i s = Ret () (s\<lparr>bufs := drop_ref i (bufs s)\<rparr>)"
  by (cases s) (simp add: bunpin_def kexec buf_defs drop_ref_def)

lemma brelse_run:
  assumes "held s = {}" "cur s = Some p" "slock_mine s (BufLock i)"
  shows "brelse i s = Ret () (released i s)"
  using assms by (cases s) (simp add: brelse_def kexec buf_defs drop_ref_def released_def)

lemma brelse_exec:
  assumes ok: "cache_ok s" and i: "slot s bn = Some i" and b: "bn \<in> v_busy (cview s)"
    and clean: "v_refs (cview s) bn = 1 \<Longrightarrow> v_blk (cview s) bn = v_disk (cview s) bn"
  shows "\<exists>t. brelse i s = Ret () t \<and> cstep s t \<and>
    cview t = (cview s)\<lparr>v_refs := (v_refs (cview s))(bn := v_refs (cview s) bn - 1), v_busy := v_busy (cview s) - {bn}\<rparr>"
proof -
  note B = busyD [OF ok i b]
  obtain p where p: "held s = {}" "cur s = Some p" using ok by (auto simp: cache_ok_def)
  let ?C = "(bufs s)(i := (bufs s i)\<lparr>b_refcnt := b_refcnt (bufs s i) - 1\<rparr>)"
  let ?B = "if b_refcnt (bufs s i) = 1 then to_front i ?C else ?C"
  let ?k = "(slocks s (BufLock i))\<lparr>sl_locked := 0, sl_pid := 0\<rparr>"
  let ?pt = "woken (slock_chan (BufLock i)) {..<NPROC} (ptable s)"
  let ?t = "s\<lparr>bufs := ?B, slocks := (slocks s)(BufLock i := ?k), ptable := ?pt\<rparr>"
  have v: "v_refs (cview s) bn = unat (b_refcnt (bufs s i))" "v_blk (cview s) bn = b_data (bufs s i)" "v_disk (cview s) = disk s"
    using i B by (simp_all add: cview_def)
  have u: "unat (b_refcnt (bufs s i) - 1) = v_refs (cview s) bn - 1"
    using B(6) v(1) unat_dec [of "b_refcnt (bufs s i)"] by (simp add: unat_gt_0)
  have C: "\<exists>xs. lru ?C xs" using ok by (rule lru_keep) simp
  then have lr: "\<exists>xs. lru ?B xs" using lru_to_front [OF _ B(1)] by auto
  have ex: "brelse i s = Ret () ?t"
    using brelse_run [OF p B(4)] by (simp add: released_def drop_ref_def)
  have "cstep s ?t \<and> cview ?t = (cview s)
     \<lparr>v_refs := (v_refs (cview s))(bn := v_refs (cview s) bn - 1),
       v_blk := (v_blk (cview s))(bn := v_blk (cview s) bn), v_busy := v_busy (cview s) - {bn}\<rparr>"
  proof (rule touch_buf [OF ok i, where B = ?B and k = ?k and pt = ?pt, OF refl _ _ _ lr])
    show "buf_ok ?t i"
      using B clean v by (auto simp: buf_ok_def slock_free_def)
  qed (use B u v in \<open>auto simp: woken_def\<close>)
  then show ?thesis using ex by auto
qed

text \<open>
  Dropping the pin of one buffer, then releasing another and the first: the order in which \<open>install_trans\<close>
  in src/kernel/log.c does it. The reference count of a block that nobody had pinned wraps around.
\<close>

lemma to_front_drop_ref: "i \<noteq> j \<Longrightarrow> to_front j (drop_ref i B) = drop_ref i (to_front j B)"
  by (rule ext, rule buf.equality) (auto simp: drop_ref_def to_front_def Let_def)

lemma released_drop_ref:
  assumes "i \<noteq> j"
  shows "released j (s\<lparr>bufs := drop_ref i (bufs s)\<rparr>) = (released j s)\<lparr>bufs := drop_ref i (bufs (released j s))\<rparr>"
proof -
  have "drop_ref j (drop_ref i (bufs s)) = drop_ref i (drop_ref j (bufs s))"
    using assms by (auto simp: drop_ref_def fun_upd_twist)
  moreover have "b_refcnt (drop_ref i (bufs s) j) = b_refcnt (bufs s j)"
    using assms by (simp add: drop_ref_def)
  ultimately show ?thesis using assms by (cases s) (simp add: released_def to_front_drop_ref)
qed

lemma unpin_brelse_exec:
  assumes ok: "cache_ok s" and i: "slot s bn = Some i" and b: "bn \<in> v_busy (cview s)"
    and clean: "v_blk (cview s) bn = v_disk (cview s) bn"
  shows "\<exists>t. kthen (bunpin i) (brelse i) s = Ret () t \<and> cstep s t \<and>
    cview t = (cview s)\<lparr>v_refs := (v_refs (cview s))(bn := (v_refs (cview s) bn + (2 ^ 32 - 2)) mod 2 ^ 32),
      v_busy := v_busy (cview s) - {bn}\<rparr>"
proof -
  note B = busyD [OF ok i b]
  obtain p where p: "held s = {}" "cur s = Some p" using ok by (auto simp: cache_ok_def)
  let ?s = "s\<lparr>bufs := drop_ref i (bufs s)\<rparr>"
  have m: "slock_mine ?s (BufLock i)" using B(4) by (simp add: slock_mine_def)
  have ex: "kthen (bunpin i) (brelse i) s = Ret () (released i ?s)"
    using bunpin_run [OF p(1)] brelse_run [OF _ _ m] p by (simp add: kexec)
  let ?C = "drop_ref i (drop_ref i (bufs s))"
  let ?B = "if b_refcnt (bufs s i) = 2 then to_front i ?C else ?C"
  let ?k = "(slocks s (BufLock i))\<lparr>sl_locked := 0, sl_pid := 0\<rparr>"
  let ?pt = "woken (slock_chan (BufLock i)) {..<NPROC} (ptable s)"
  have two: "b_refcnt (bufs s i) - 1 = 1 \<longleftrightarrow> b_refcnt (bufs s i) = 2"
    by (metis add_diff_cancel_right' diff_add_cancel one_add_one)
  have t: "released i ?s = s\<lparr>bufs := ?B, slocks := (slocks s)(BufLock i := ?k), ptable := ?pt\<rparr>"
    by (cases s) (simp add: released_def drop_ref_def two [simplified])
  have v: "v_refs (cview s) bn = unat (b_refcnt (bufs s i))" "v_blk (cview s) bn = b_data (bufs s i)" "v_disk (cview s) = disk s"
    using i B by (simp_all add: cview_def)
  have u: "unat (b_refcnt (bufs s i) - 2) = (v_refs (cview s) bn + (2 ^ 32 - 2)) mod 2 ^ 32"
  proof -
    have "b_refcnt (bufs s i) - 2 = b_refcnt (bufs s i) + 0xfffffffe" by simp
    then show ?thesis unfolding v(1) by (simp only: unat_word_ariths) simp
  qed
  have C: "\<exists>xs. lru ?C xs" using ok by (rule lru_keep) (simp add: drop_ref_def)
  then have lr: "\<exists>xs. lru ?B xs" using lru_to_front [OF _ B(1)] by auto
  have "cstep s (released i ?s) \<and> cview (released i ?s) = (cview s)
     \<lparr>v_refs := (v_refs (cview s))(bn := (v_refs (cview s) bn + (2 ^ 32 - 2)) mod 2 ^ 32),
       v_blk := (v_blk (cview s))(bn := v_blk (cview s) bn), v_busy := v_busy (cview s) - {bn}\<rparr>"
  proof (rule touch_buf [OF ok i, where B = ?B and k = ?k and pt = ?pt, OF t _ _ _ lr])
    show "buf_ok (released i ?s) i"
      unfolding t using B clean v by (auto simp: buf_ok_def slock_free_def drop_ref_def)
  qed (use B u v in \<open>auto simp: woken_def drop_ref_def\<close>)
  then show ?thesis using ex by auto
qed

section \<open>The contract of the cache\<close>

lemma cache_clean:
  assumes "cache_ok s" "v_refs (cview s) y = 0" shows "v_blk (cview s) y = v_disk (cview s) y"
proof (cases "slot s y")
  case (Some i)
  then have "b_refcnt (bufs s i) = 0" using assms(2) by (simp add: cview_def unat_eq_0)
  moreover have "i < NBUF" "b_dev (bufs s i) = ROOTDEV" "b_blockno (bufs s i) = y"
    using Some slot_iff [OF assms(1)] by auto
  ultimately show ?thesis using assms(1) Some by (auto simp: cview_def cache_ok_def buf_ok_def)
qed (simp add: cview_def)

lemma bunpin_brelse_two:
  assumes ok: "cache_ok s" and at: "slot s a = Some j" "slot s b = Some i" and ab: "a \<noteq> b"
    and busy: "a \<in> v_busy (cview s)" "b \<in> v_busy (cview s)"
    and clean: "v_blk (cview s) a = v_disk (cview s) a" "v_blk (cview s) b = v_disk (cview s) b"
  shows "\<exists>t. kseq [bunpin i, brelse j, brelse i] s = Ret () t \<and> cache_ok t \<and> bio_frame s t \<and>
    cview t = v_unpin_drop b (v_drop a (cview s))"
proof -
  note A = busyD [OF ok at(1) busy(1)]
  have ij: "i \<noteq> j" using at ab slot_iff [OF ok] by auto
  obtain p where p: "held s = {}" "cur s = Some p" using ok by (auto simp: cache_ok_def)
  obtain u where u: "brelse j s = Ret () u" "cstep s u" "cview u = v_drop a (cview s)"
    using brelse_exec [OF ok at(1) busy(1)] clean(1) by (auto simp: v_defs)
  have ur: "u = released j s" using brelse_run [OF p A(4)] u(1) by simp
  have oku: "cache_ok u" "slot u b = Some i"
    using u(2) at(2) busyD(6) [OF ok at(2) busy(2)] by (auto simp: cstep_def cview_def unat_gt_0)
  have hu: "held u = {}" using oku(1) by (simp add: cache_ok_def)
  have "slock_mine (s\<lparr>bufs := drop_ref i (bufs s)\<rparr>) (BufLock j)" using A(4) by (simp add: slock_mine_def)
  then have "kseq [bunpin i, brelse j, brelse i] s = kthen (bunpin i) (brelse i) u"
    using p bunpin_run [OF p(1)] bunpin_run [OF hu] brelse_run [of "s\<lparr>bufs := drop_ref i (bufs s)\<rparr>" p j]
      released_drop_ref [OF ij, of s] by (simp add: kexec ur split: outcome.splits)
  moreover obtain t where "kthen (bunpin i) (brelse i) u = Ret () t" "cstep u t" "cview t = v_unpin_drop b (cview u)"
    using unpin_brelse_exec [OF oku] u(3) ab busy(2) clean(2) by (auto simp: v_defs)
  ultimately show ?thesis using u(2,3) bio_frame_trans by (auto simp: cstep_def)
qed

interpretation bcache: block_cache cache_ok cview slot bio_frame cstep "bread ROOTDEV"
  "\<lambda>i. get_buf i b_data" "\<lambda>i f. set_buf i (\<lambda>x. x\<lparr>b_data := f (b_data x)\<rparr>)" bwrite brelse bpin bunpin
proof unfold_locales
  fix s t :: "'a kbio_scheme" and bn a b i j f y
  show "bio_frame s t \<Longrightarrow> bio_frame t u \<Longrightarrow> bio_frame s u" for u by (rule bio_frame_trans)
  show "cstep s t \<Longrightarrow> cache_ok t \<and> bio_frame s t" "cstep s t \<Longrightarrow> v_refs (cview s) y > 0 \<Longrightarrow> slot t y = slot s y"
    by (simp_all add: cstep_def)
  show "cache_ok s \<Longrightarrow> v_refs (cview s) y = 0 \<Longrightarrow> v_blk (cview s) y = v_disk (cview s) y" by (rule cache_clean)
  show "cache_ok s \<Longrightarrow> v_ready bn (cview s) \<Longrightarrow>
      \<exists>i t. bread ROOTDEV bn s = Ret i t \<and> cstep s t \<and> slot t bn = Some i \<and> cview t = v_take bn (cview s)"
    using bread_exec [of s bn] by (simp add: v_defs v_ready_def v_room_def)
  show "cache_ok s \<Longrightarrow> slot s bn = Some i \<Longrightarrow> bn \<in> v_busy (cview s) \<Longrightarrow> get_buf i b_data s = Ret (v_blk (cview s) bn) s"
    using busyD(5) [of s bn i] by (simp add: get_buf_def kexec cview_def)
  show "cache_ok s \<Longrightarrow> slot s bn = Some i \<Longrightarrow> bn \<in> v_busy (cview s) \<Longrightarrow>
      \<exists>t. set_buf i (\<lambda>x. x\<lparr>b_data := f (b_data x)\<rparr>) s = Ret () t \<and> cstep s t \<and>
        cview t = v_store bn (f (v_blk (cview s) bn)) (cview s)"
    unfolding v_defs by (rule set_data_exec)
  show "cache_ok s \<Longrightarrow> slot s bn = Some i \<Longrightarrow> bn \<in> v_busy (cview s) \<Longrightarrow>
      \<exists>t. bwrite i s = Ret () t \<and> cstep s t \<and> cview t = v_flush bn (cview s)"
    unfolding v_defs by (rule bwrite_exec)
  show "cache_ok s \<Longrightarrow> slot s bn = Some i \<Longrightarrow> bn \<in> v_busy (cview s) \<Longrightarrow>
      v_refs (cview s) bn = 1 \<longrightarrow> v_blk (cview s) bn = v_disk (cview s) bn \<Longrightarrow>
      \<exists>t. brelse i s = Ret () t \<and> cstep s t \<and> cview t = v_drop bn (cview s)"
    unfolding v_defs by (rule brelse_exec) simp_all
  show "cache_ok s \<Longrightarrow> slot s bn = Some i \<Longrightarrow> 0 < v_refs (cview s) bn \<Longrightarrow> v_refs (cview s) bn + 1 < 2 ^ 32 \<Longrightarrow>
      \<exists>t. bpin i s = Ret () t \<and> cstep s t \<and> cview t = v_pin bn (cview s)"
    unfolding v_defs by (rule bpin_exec)
qed (rule bio_frame_refl, rule bunpin_brelse_two)

section \<open>Initialisation\<close>

text \<open>The static data of the kernel is zero when \<open>binit\<close> runs.\<close>

definition zeroed :: "'z kbio_scheme \<Rightarrow> bool" where
  "zeroed s \<longleftrightarrow> (\<forall>i. b_dev (bufs s i) = 0 \<and> b_refcnt (bufs s i) = 0)"

lemma kfor_append: "kfor (xs @ ys) f s = kthen (kfor xs f) (kfor ys f) s"
  by (induction xs arbitrary: s) (simp_all add: kexec split: outcome.splits)

lemma binit_one_exec:
  "binit_one b s = Ret () (s\<lparr>
     bufs := put_next NBUF b (put_prev (b_next (bufs s NBUF)) b (put_prev b NBUF (put_next b (b_next (bufs s NBUF)) (bufs s)))),
     slocks := (slocks s)(BufLock b := (slocks s (BufLock b))\<lparr>sl_name := ''buffer'', sl_locked := 0, sl_pid := 0\<rparr>)\<rparr>)"
  by (cases s) (simp add: binit_one_def kexec get_buf_def set_buf_def initsleeplock_def set_slock_def flip: put_prev_def put_next_def)

lemma binit_loop:
  assumes "zeroed s" "chain (bufs s) NBUF [] NBUF" "n \<le> NBUF"
  shows "\<exists>t. kfor [0..<n] binit_one s = Ret () t \<and> zeroed t \<and> chain (bufs t) NBUF (rev [0..<n]) NBUF \<and>
    (\<forall>i < n. slock_free t (BufLock i)) \<and> t = s\<lparr>bufs := bufs t, slocks := slocks t\<rparr>"
  using assms(3)
proof (induction n)
  case 0
  show ?case using assms(1,2) by (simp add: kexec)
next
  case (Suc n)
  then obtain t where t: "kfor [0..<n] binit_one s = Ret () t" "zeroed t" "chain (bufs t) NBUF (rev [0..<n]) NBUF"
      "\<forall>i < n. slock_free t (BufLock i)" "t = s\<lparr>bufs := bufs t, slocks := slocks t\<rparr>"
    by auto
  define B where "B = put_next NBUF n (put_prev (b_next (bufs t NBUF)) n (put_prev n NBUF (put_next n (b_next (bufs t NBUF)) (bufs t))))"
  define k where "k = (slocks t (BufLock n))\<lparr>sl_name := ''buffer'', sl_locked := 0, sl_pid := 0\<rparr>"
  define u where "u = t\<lparr>bufs := B, slocks := (slocks t)(BufLock n := k)\<rparr>"
  have first: "b_next (bufs t NBUF) = hd (rev [0..<n] @ [NBUF])" by (rule chain_ends [OF t(3)])
  then have ne: "b_next (bufs t NBUF) \<noteq> n" using Suc.prems by (cases n) (auto simp: hd_append)
  have "chain B NBUF (n # rev [0..<n]) NBUF"
    by (rule chain_front [OF t(3)]) (use Suc.prems ne in \<open>auto simp: B_def\<close>)
  moreover have "kfor [0..<Suc n] binit_one s = Ret () u"
    using t(1) by (simp add: upt_Suc_append kfor_append binit_one_exec kexec u_def B_def k_def)
  moreover have "zeroed u" using t(2) by (simp add: zeroed_def u_def B_def)
  moreover have "\<forall>i < Suc n. slock_free u (BufLock i)"
    using t(4) by (auto simp: u_def slock_free_def k_def less_Suc_eq)
  moreover have "u = s\<lparr>bufs := bufs u, slocks := slocks u\<rparr>"
    by (subst u_def, subst t(5)) (simp add: u_def)
  ultimately show ?case by (auto simp: u_def)
qed

lemma binit_exec:
  assumes "zeroed s" "held s = {}"
  shows "\<exists>t. binit s = Ret () t \<and> cache_ok (t\<lparr>cur := Some p\<rparr>) \<and>
    cview t = \<lparr>v_refs = (\<lambda>_. 0), v_blk = disk s, v_disk = disk s, v_writes = dwrites s, v_busy = {}\<rparr> \<and>
    t = s\<lparr>bufs := bufs t, slocks := slocks t\<rparr>"
proof -
  define s1 where "s1 = s\<lparr>bufs := put_next NBUF NBUF (put_prev NBUF NBUF (bufs s))\<rparr>"
  have z1: "zeroed s1" "chain (bufs s1) NBUF [] NBUF" using assms by (simp_all add: zeroed_def s1_def)
  obtain t where t: "kfor [0..<NBUF] binit_one s1 = Ret () t" "zeroed t" "chain (bufs t) NBUF (rev [0..<NBUF]) NBUF"
      "\<forall>i < NBUF. slock_free t (BufLock i)" "t = s1\<lparr>bufs := bufs t, slocks := slocks t\<rparr>"
    using binit_loop [OF z1 order_refl] by blast
  have ex: "binit s = Ret () t"
    using t(1) by (cases s) (simp add: binit_def kexec set_buf_def s1_def put_next_def put_prev_def del: upt_rec_numeral)
  have fr: "t = s\<lparr>bufs := bufs t, slocks := slocks t\<rparr>" by (subst t(5)) (simp add: s1_def)
  have "lru (bufs t) (rev [0..<NBUF])"
    unfolding lru_def using t(3) by (simp only: distinct_rev distinct_upt set_rev set_upt) (simp add: atLeast0LessThan del: upt_rec_numeral)
  moreover have "held t = {}" using arg_cong [OF fr, of held] assms(2) by simp
  moreover have "buf_ok (t\<lparr>cur := Some p\<rparr>) i" if "i < NBUF" for i
    using t(2,4) that by (simp add: buf_ok_def zeroed_def slock_free_def)
  moreover have "b_dev (bufs t i) \<noteq> ROOTDEV" for i using t(2) by (simp add: zeroed_def)
  ultimately have "cache_ok (t\<lparr>cur := Some p\<rparr>)" unfolding cache_ok_def by auto
  moreover have "slot t bn = None" for bn
    unfolding slot_None using t(2) by (simp add: zeroed_def)
  then have "cview t = \<lparr>v_refs = (\<lambda>_. 0), v_blk = disk s, v_disk = disk s, v_writes = dwrites s, v_busy = {}\<rparr>"
    using arg_cong [OF fr, of disk] arg_cong [OF fr, of dwrites] by (simp add: cview_def)
  ultimately show ?thesis using ex fr by blast
qed

section \<open>Properties\<close>

text \<open>The kernel's static data before initialisation, with a disk that holds \<open>d\<close>.\<close>

definition zero_proc :: proc where
  "zero_proc = \<lparr>p_state = UNUSED, p_parent = None, p_chan = None, p_killed = False, p_xstate = 0, p_pid = 0,
     p_kstack = 0, p_sz = 0, p_pagetable = 0, p_trapframe = 0,
     p_context = \<lparr>ctx_ra = 0, ctx_sp = 0, ctx_s = (\<lambda>_. 0)\<rparr>, p_ofile = (\<lambda>_. None), p_cwd = None, p_name = (\<lambda>_. 0)\<rparr>"

definition zero_trapframe :: trapframe where
  "zero_trapframe = \<lparr>tf_kernel_satp = 0, tf_kernel_sp = 0, tf_kernel_trap = 0, tf_epc = 0, tf_kernel_hartid = 0,
     tf_ra = 0, tf_sp = 0, tf_gp = 0, tf_tp = 0, tf_t = (\<lambda>_. 0), tf_s = (\<lambda>_. 0), tf_a = (\<lambda>_. 0)\<rparr>"

definition zero_bio :: "(u32 \<Rightarrow> block) \<Rightarrow> 'z \<Rightarrow> 'z kbio_scheme" where
  "zero_bio d z = \<lparr>held = {}, mem = (\<lambda>_. 0), freelist = 0, kend = 0, kernel_pagetable = 0, satp = 0,
     ptable = (\<lambda>_. zero_proc), trapframes = (\<lambda>_. zero_trapframe), cur = None, nextpid = 1, initproc = None,
     slocks = (\<lambda>_. \<lparr>sl_locked = 0, sl_name = [], sl_pid = 0\<rparr>),
     bufs = (\<lambda>_. \<lparr>b_valid = False, b_dev = 0, b_blockno = 0, b_refcnt = 0, b_prev = 0, b_next = 0, b_data = zero_block\<rparr>),
     disk = d, dwrites = [], \<dots> = z\<rparr>"

text \<open>Process 0 running on the initialised cache.\<close>

definition boot_bio :: "(u32 \<Rightarrow> block) \<Rightarrow> 'z \<Rightarrow> 'z kbio_scheme" where
  "boot_bio d z = (case binit (zero_bio d z) of Ret _ t \<Rightarrow> t\<lparr>cur := Some 0\<rparr> | _ \<Rightarrow> zero_bio d z)"

lemma boot_bio_ok:
  "cache_ok (boot_bio d z)"
  "cview (boot_bio d z) = \<lparr>v_refs = (\<lambda>_. 0), v_blk = d, v_disk = d, v_writes = [], v_busy = {}\<rparr>"
proof -
  obtain t where t: "binit (zero_bio d z) = Ret () t" "cache_ok (t\<lparr>cur := Some 0\<rparr>)"
      "cview t = \<lparr>v_refs = (\<lambda>_. 0), v_blk = d, v_disk = d, v_writes = [], v_busy = {}\<rparr>"
    using binit_exec [of "zero_bio d z" 0] by (auto simp: zero_bio_def zeroed_def)
  show "cache_ok (boot_bio d z)" using t by (simp add: boot_bio_def)
  have "cview (t\<lparr>cur := Some 0\<rparr>) = cview t" by (rule cview_cong) simp_all
  then show "cview (boot_bio d z) = \<lparr>v_refs = (\<lambda>_. 0), v_blk = d, v_disk = d, v_writes = [], v_busy = {}\<rparr>"
    using t by (simp add: boot_bio_def)
qed

lemma boot_bio_cur: "cur (boot_bio d z) = Some 0" "kbio.more (boot_bio d z) = z"
proof -
  have z: "zeroed (zero_bio d z)" "held (zero_bio d z) = {}" by (simp_all add: zero_bio_def zeroed_def)
  obtain t where t: "binit (zero_bio d z) = Ret () t" "t = (zero_bio d z)\<lparr>bufs := bufs t, slocks := slocks t\<rparr>"
    using binit_exec [OF z, of 0] by blast
  show "cur (boot_bio d z) = Some 0" using t(1) by (simp add: boot_bio_def)
  have "kbio.more t = z" using arg_cong [OF t(2), of kbio.more] by (simp add: zero_bio_def)
  then show "kbio.more (boot_bio d z) = z" using t(1) by (simp add: boot_bio_def)
qed

lemma idle_free:
  assumes "cache_ok s" "v_refs (cview s) = (\<lambda>_. 0)" "i < NBUF"
  shows "slock_free s (BufLock i)"
proof -
  have "b_refcnt (bufs s i) = 0"
  proof (cases "b_dev (bufs s i) = ROOTDEV")
    case True
    then have "slot s (b_blockno (bufs s i)) = Some i" using slot_iff [OF assms(1)] assms(3) by simp
    then show ?thesis using fun_cong [OF assms(2), of "b_blockno (bufs s i)"] by (simp add: cview_def unat_eq_0)
  qed (use assms(1,3) in \<open>auto simp: cache_ok_def buf_ok_def\<close>)
  then show ?thesis using free_refs [OF assms(1,3)] by simp
qed

lemma boot_bio_ready: "v_ready bn (cview (boot_bio d z))"
  by (simp add: boot_bio_ok v_ready_def v_room_def)

text \<open>
  C10: \<open>binit\<close>, run on zeroed static data, builds a correct buffer cache: the list links all the buffers,
  none is referenced or locked, and the contents of every block is what the disk holds.
\<close>

theorem binit_builds_cache:
  assumes "zeroed s" "held s = {}"
  shows "\<exists>t. binit s = Ret () t \<and> cache_ok (t\<lparr>cur := Some p\<rparr>) \<and>
    cview t = \<lparr>v_refs = (\<lambda>_. 0), v_blk = disk s, v_disk = disk s, v_writes = dwrites s, v_busy = {}\<rparr>"
  using binit_exec [OF assms] by blast

theorem binit_builds_cache_witness:
  "\<exists>t. binit (zero_bio (\<lambda>_. zero_block) ()) = Ret () t \<and> cache_ok (t\<lparr>cur := Some 3\<rparr>) \<and> v_refs (cview t) = (\<lambda>_. 0)"
  using binit_builds_cache [of "zero_bio (\<lambda>_. zero_block) ()" 3] by (auto simp: zero_bio_def zeroed_def)

text \<open>
  C8: reading a block that is not locked, when it is cached or a buffer is free, returns a buffer that
  holds the block and its newest contents, locked by the caller; the cache stays correct, no other
  block's contents, references, lock or buffer in use changes, and nothing is written to the disk.
\<close>

theorem bread_returns_block:
  fixes s :: "'z kbio_scheme"
  assumes "cache_ok s" "v_ready bn (cview s)"
  shows "\<exists>i t. bread ROOTDEV bn s = Ret i t \<and> i < NBUF \<and> b_valid (bufs t i) \<and> b_blockno (bufs t i) = bn \<and>
    b_data (bufs t i) = v_blk (cview s) bn \<and> slock_mine t (BufLock i) \<and> cstep s t \<and> cview t = v_take bn (cview s)"
proof -
  obtain i t where t: "bread ROOTDEV bn s = Ret i t" "cstep s t" "slot t bn = Some i" "cview t = v_take bn (cview s)"
    using bcache.rd_law assms by blast
  then have ok: "cache_ok t" and b: "bn \<in> v_busy (cview t)" by (simp_all add: cstep_def v_defs)
  have "b_data (bufs t i) = v_blk (cview t) bn"
    using t(3) busyD(5) [OF ok t(3) b] by (simp add: cview_def)
  then show ?thesis using t busyD [OF ok t(3) b] by (auto simp: v_defs)
qed

theorem bread_returns_block_witness:
  "\<exists>i t. bread ROOTDEV 7 (boot_bio (\<lambda>_. zero_block) ()) = Ret i t \<and> b_blockno (bufs t i) = 7 \<and> b_data (bufs t i) = zero_block"
  using bread_returns_block [where s = "boot_bio (\<lambda>_. zero_block) ()" and bn = 7, OF boot_bio_ok(1) boot_bio_ready] by (auto simp: boot_bio_ok)

text \<open>
  C9: a block that is read, changed, written and released keeps its new contents, in the cache and on the
  disk: reading it again returns them, and no other block of the disk differs.
\<close>

theorem bwrite_bread_roundtrip:
  fixes s :: "'z kbio_scheme"
  assumes "cache_ok s" "v_ready bn (cview s)"
  shows "\<exists>t i u. kbind (bread ROOTDEV bn) (\<lambda>i. kseq [set_buf i (\<lambda>x. x\<lparr>b_data := f (b_data x)\<rparr>), bwrite i, brelse i]) s = Ret () t \<and>
    disk t = (disk s)(bn := f (v_blk (cview s) bn)) \<and> dwrites t = dwrites s @ [(bn, f (v_blk (cview s) bn))] \<and>
    bread ROOTDEV bn t = Ret i u \<and> b_data (bufs u i) = f (v_blk (cview s) bn)"
proof -
  obtain t where t: "kbind (bread ROOTDEV bn) (\<lambda>i. kseq [set_buf i (\<lambda>x. x\<lparr>b_data := f (b_data x)\<rparr>), bwrite i, brelse i]) s = Ret () t"
      "cache_ok t" "cview t = v_write bn (f (v_blk (cview s) bn)) (cview s)"
    using bcache.update_block_exec [OF assms] by blast
  have "v_ready bn (cview t)" using assms(2) by (simp add: t(3) v_defs v_ready_def v_room_def)
  then obtain i u where u: "bread ROOTDEV bn t = Ret i u" "cstep t u" "slot u bn = Some i" "cview u = v_take bn (cview t)"
    using bcache.rd_law t(2) by blast
  then have ok: "cache_ok u" and b: "bn \<in> v_busy (cview u)" by (simp_all add: cstep_def v_defs)
  have "b_data (bufs u i) = v_blk (cview u) bn" using u(3) busyD(5) [OF ok u(3) b] by (simp add: cview_def)
  moreover have "disk t = v_disk (cview t)" "dwrites t = v_writes (cview t)" by (simp_all add: cview_def)
  moreover have "disk s = v_disk (cview s)" "dwrites s = v_writes (cview s)" by (simp_all add: cview_def)
  ultimately show ?thesis using t(1,3) u(1,4) by (auto simp: v_defs)
qed

theorem bwrite_bread_roundtrip_witness:
  "\<exists>t i u. kbind (bread ROOTDEV 7) (\<lambda>i. kseq [set_buf i (\<lambda>x. x\<lparr>b_data := put_int 4 (b_data x) 0 (42 :: u32)\<rparr>), bwrite i, brelse i])
      (boot_bio (\<lambda>_. zero_block) ()) = Ret () t \<and> bread ROOTDEV 7 t = Ret i u \<and> int_at 4 (b_data (bufs u i)) 0 = (42 :: u32)"
  using bwrite_bread_roundtrip [where s = "boot_bio (\<lambda>_. zero_block) ()" and bn = 7 and f = "\<lambda>x. put_int 4 x 0 (42 :: u32)",
    OF boot_bio_ok(1) boot_bio_ready]
  by auto



end
