(* ===== verification/Log.thy ===== *)
theory Log
  imports Bio
begin

text \<open>
  src/kernel/log.c, the redo log of the file system: a transaction's blocks are pinned in the cache,
  copied to the log area of the disk, committed by writing the header block, installed at their home
  locations, and erased by writing the header again.
\<close>

section \<open>State and operations\<close>

abbreviation (input) MAXOPBLOCKS :: nat where "MAXOPBLOCKS \<equiv> 10"
abbreviation (input) LOGSIZE :: nat where "LOGSIZE \<equiv> 30"

text \<open>The array \<open>block\<close> has \<open>LOGSIZE\<close> elements; accesses outside it have no result.\<close>

record logheader =
  lh_n :: u32
  lh_block :: "nat \<Rightarrow> u32"

record log_struct =
  l_start :: u32
  l_size :: u32
  l_outstanding :: u32
  l_committing :: u32
  l_dev :: u32
  l_lh :: logheader

record superblock =
  sb_magic :: u32
  sb_size :: u32
  sb_nblocks :: u32
  sb_ninodes :: u32
  sb_nlog :: u32
  sb_logstart :: u32
  sb_inodestart :: u32
  sb_bmapstart :: u32

record klog = kbio +
  log_st :: log_struct

definition set_log :: "(log_struct \<Rightarrow> log_struct) \<Rightarrow> (unit, 'z klog_scheme) kop" where
  "set_log f = kmodify (\<lambda>s. s\<lparr>log_st := f (log_st s)\<rparr>)"

definition get_log :: "(log_struct \<Rightarrow> 'a) \<Rightarrow> ('a, 'z klog_scheme) kop" where
  "get_log f = kget (\<lambda>s. f (log_st s))"

definition set_lh_n :: "u32 \<Rightarrow> (unit, 'z klog_scheme) kop" where
  "set_lh_n n = set_log (\<lambda>l. l\<lparr>l_lh := (l_lh l)\<lparr>lh_n := n\<rparr>\<rparr>)"

definition set_lh_block :: "nat \<Rightarrow> u32 \<Rightarrow> (unit, 'z klog_scheme) kop" where
  "set_lh_block i b = (if i < LOGSIZE then set_log (\<lambda>l. l\<lparr>l_lh := (l_lh l)\<lparr>lh_block := (lh_block (l_lh l))(i := b)\<rparr>\<rparr>)
     else kdiverge)"

definition get_lh_block :: "nat \<Rightarrow> (u32, 'z klog_scheme) kop" where
  "get_lh_block i = (if i < LOGSIZE then get_log (\<lambda>l. lh_block (l_lh l) i) else kdiverge)"

text \<open>The values of the counter of a loop \<open>for(i = 0; i < n; i++)\<close>.\<close>

definition upto_int :: "u32 \<Rightarrow> nat list" where
  "upto_int n = [0..<nat (sint n)]"

text \<open>\<open>memmove(to->data, from->data, BSIZE)\<close>.\<close>

definition copy_data :: "nat \<Rightarrow> nat \<Rightarrow> (unit, 'z klog_scheme) kop" where
  "copy_data dst src = kbind (get_buf src b_data) (\<lambda>d. set_buf dst (\<lambda>x. x\<lparr>b_data := d\<rparr>))"

definition install_one :: "nat \<Rightarrow> (unit, 'z klog_scheme) kop" where
  "install_one tail = kbind (get_log id) (\<lambda>l.
     kbind (bread (l_dev l) (l_start l + of_nat tail + 1)) (\<lambda>lbuf.
     kbind (get_lh_block tail) (\<lambda>b.
     kbind (bread (l_dev l) b) (\<lambda>dbuf. kseq [
       copy_data dbuf lbuf,
       bwrite dbuf,
       bunpin dbuf,
       brelse lbuf,
       brelse dbuf]))))"

definition install_trans :: "(unit, 'z klog_scheme) kop" where
  "install_trans = kbind (get_log (\<lambda>l. lh_n (l_lh l))) (\<lambda>n. kfor (upto_int n) install_one)"

definition read_head :: "(unit, 'z klog_scheme) kop" where
  "read_head = kbind (get_log id) (\<lambda>l.
     kbind (bread (l_dev l) (l_start l)) (\<lambda>b.
     kbind (get_buf b b_data) (\<lambda>d. kseq [
       set_lh_n (int_at 4 d 0),
       kfor (upto_int (int_at 4 d 0)) (\<lambda>i. set_lh_block i (int_at 4 d (4 + 4 * i))),
       brelse b])))"

definition write_head :: "(unit, 'z klog_scheme) kop" where
  "write_head = kbind (get_log id) (\<lambda>l.
     kbind (bread (l_dev l) (l_start l)) (\<lambda>b. kseq [
       set_buf b (\<lambda>x. x\<lparr>b_data := put_int 4 (b_data x) 0 (lh_n (l_lh l))\<rparr>),
       kfor (upto_int (lh_n (l_lh l))) (\<lambda>i. kbind (get_lh_block i) (\<lambda>v.
         set_buf b (\<lambda>x. x\<lparr>b_data := put_int 4 (b_data x) (4 + 4 * i) v\<rparr>))),
       bwrite b,
       brelse b]))"

definition recover_from_log :: "(unit, 'z klog_scheme) kop" where
  "recover_from_log = kseq [read_head, install_trans, set_lh_n 0, write_head]"

text \<open>\<open>initlock\<close> leaves the lock free.\<close>

definition initlog :: "u32 \<Rightarrow> superblock \<Rightarrow> (unit, 'z klog_scheme) kop" where
  "initlog dev sb = kseq [
     kpanic_if (4 + 4 * LOGSIZE \<ge> BSIZE) ''initlog: too big logheader'',
     set_log (\<lambda>l. l\<lparr>l_start := sb_logstart sb\<rparr>),
     set_log (\<lambda>l. l\<lparr>l_size := sb_nlog sb\<rparr>),
     set_log (\<lambda>l. l\<lparr>l_dev := dev\<rparr>),
     recover_from_log]"

text \<open>
  The loop of \<open>begin_op\<close>, entered with the lock held; a thread that sleeps continues with
  \<open>begin_op_resume\<close> when it runs again.
\<close>

definition begin_op_loop :: "(unit, 'z klog_scheme) kop" where
  "begin_op_loop = kbind (get_log id) (\<lambda>l.
     if l_committing l \<noteq> 0 then sleep ChanLog LogLock
     else if sint (lh_n (l_lh l) + (l_outstanding l + 1) * of_nat MAXOPBLOCKS) > int LOGSIZE then sleep ChanLog LogLock
     else kthen (set_log (\<lambda>l. l\<lparr>l_outstanding := l_outstanding l + 1\<rparr>)) (kunlock LogLock))"

definition begin_op :: "(unit, 'z klog_scheme) kop" where
  "begin_op = kthen (klock LogLock) begin_op_loop"

definition begin_op_resume :: "(unit, 'z klog_scheme) kop" where
  "begin_op_resume = kthen (sleep_resume LogLock) begin_op_loop"

definition write_log_one :: "nat \<Rightarrow> (unit, 'z klog_scheme) kop" where
  "write_log_one tail = kbind (get_log id) (\<lambda>l.
     kbind (bread (l_dev l) (l_start l + of_nat tail + 1)) (\<lambda>to.
     kbind (get_lh_block tail) (\<lambda>b.
     kbind (bread (l_dev l) b) (\<lambda>src. kseq [
       copy_data to src,
       bwrite to,
       brelse src,
       brelse to]))))"

definition write_log :: "(unit, 'z klog_scheme) kop" where
  "write_log = kbind (get_log (\<lambda>l. lh_n (l_lh l))) (\<lambda>n. kfor (upto_int n) write_log_one)"

definition commit :: "(unit, 'z klog_scheme) kop" where
  "commit = kbind (get_log (\<lambda>l. lh_n (l_lh l))) (\<lambda>n. kwhen (sint n > 0) (kseq [
     write_log,
     write_head,
     install_trans,
     set_lh_n 0,
     write_head]))"

definition end_op :: "(unit, 'z klog_scheme) kop" where
  "end_op = kthen (klock LogLock) (kthen (set_log (\<lambda>l. l\<lparr>l_outstanding := l_outstanding l - 1\<rparr>))
     (kbind (get_log id) (\<lambda>l. kthen (kpanic_if (l_committing l \<noteq> 0) ''log.committing'')
       (if l_outstanding l = 0 then kseq [
          set_log (\<lambda>l. l\<lparr>l_committing := 1\<rparr>),
          kunlock LogLock,
          commit,
          klock LogLock,
          set_log (\<lambda>l. l\<lparr>l_committing := 0\<rparr>),
          wakeup ChanLog,
          kunlock LogLock]
        else kthen (wakeup ChanLog) (kunlock LogLock)))))"

text \<open>The index at which \<open>log_write\<close> finds the block, or \<open>n\<close>.\<close>

function log_find :: "(nat \<Rightarrow> u32) \<Rightarrow> u32 \<Rightarrow> nat \<Rightarrow> nat \<Rightarrow> nat" where
  "log_find blocks bn n i = (if i < n \<and> blocks i \<noteq> bn then log_find blocks bn n (i + 1) else i)"
  by pat_completeness auto
termination by (relation "measure (\<lambda>(_, _, n, i). n - i)") auto

declare log_find.simps [simp del]

definition log_write :: "nat \<Rightarrow> (unit, 'z klog_scheme) kop" where
  "log_write b = kseq [
     kbind (get_log id) (\<lambda>l. kthen
       (kpanic_if (sint (lh_n (l_lh l)) \<ge> int LOGSIZE \<or> sint (lh_n (l_lh l)) \<ge> sint (l_size l - 1)) ''too big a transaction'')
       (kpanic_if (sint (l_outstanding l) < 1) ''log_write outside of trans'')),
     klock LogLock,
     kbind (get_log l_lh) (\<lambda>lh. kbind (get_buf b b_blockno) (\<lambda>bn.
       let i = log_find (lh_block lh) bn (nat (sint (lh_n lh))) 0 in
       kthen (set_lh_block i bn)
         (kwhen (of_nat i = lh_n lh) (kthen (bpin b) (set_lh_n (lh_n lh + 1)))))),
     kunlock LogLock]"

lemmas log_defs = set_log_def get_log_def set_lh_n_def set_lh_block_def get_lh_block_def

section \<open>Sequences of block writes\<close>

definition apply_writes :: "(u32 \<times> block) list \<Rightarrow> (u32 \<Rightarrow> block) \<Rightarrow> (u32 \<Rightarrow> block)" where
  "apply_writes ws d = fold (\<lambda>(b, x) d. d(b := x)) ws d"

definition v_writes_of :: "(u32 \<times> block) list \<Rightarrow> cview \<Rightarrow> cview" where
  "v_writes_of ws v = v\<lparr>v_blk := apply_writes ws (v_blk v), v_disk := apply_writes ws (v_disk v), v_writes := v_writes v @ ws\<rparr>"

lemma apply_writes_simps [simp]:
  "apply_writes [] d = d"
  "apply_writes ((b, x) # ws) d = apply_writes ws (d(b := x))"
  "apply_writes (vs @ ws) d = apply_writes ws (apply_writes vs d)"
  by (simp_all add: apply_writes_def)

lemma apply_writes_other: "bn \<notin> fst ` set ws \<Longrightarrow> apply_writes ws d bn = d bn"
  by (induction ws arbitrary: d) auto

lemma apply_writes_in:
  assumes "distinct (map fst ws)" "(bn, x) \<in> set ws" shows "apply_writes ws d bn = x"
  using assms
proof (induction ws arbitrary: d)
  case (Cons w ws)
  obtain b y where w: "w = (b, y)" by (cases w)
  show ?case
  proof (cases "bn = b \<and> x = y")
    case True
    then have "bn \<notin> fst ` set ws" using Cons.prems(1) w by auto
    then show ?thesis using True w by (simp add: apply_writes_other)
  next
    case False
    then show ?thesis using Cons w by auto
  qed
qed simp

lemma v_writes_of_simps:
  "v_writes_of [] v = v" "v_writes_of ((b, x) # ws) v = v_writes_of ws (v_write b x v)"
  by (simp_all add: v_writes_of_def v_write_def)

section \<open>The steps of a commit\<close>

lemma frame_log: "bio_frame s t \<Longrightarrow> log_st t = log_st s"
  by (cases s, cases t) (simp add: bio_frame_def)

lemma cview_log [simp]: "cview (s\<lparr>log_st := x\<rparr>) = cview s"
  by (rule cview_cong) simp_all

lemma cache_ok_log [simp]: "cache_ok (s\<lparr>log_st := x\<rparr>) = cache_ok s"
  by (simp add: cache_ok_def buf_ok_def slock_free_def slock_mine_def)

text \<open>The block of the log that holds the contents of the \<open>i\<close>-th block of the transaction.\<close>

definition log_blk :: "log_struct \<Rightarrow> nat \<Rightarrow> u32" where
  "log_blk l i = l_start l + of_nat i + 1"

lemma write_log_one_exec:
  assumes ok: "cache_ok s" and l: "l_dev (log_st s) = ROOTDEV" "i < LOGSIZE"
    and r: "v_ready (log_blk (log_st s) i) (cview s)" "v_ready (lh_block (l_lh (log_st s)) i) (cview s)"
    and b: "v_refs (cview s) (lh_block (l_lh (log_st s)) i) > 0"
    and ne: "log_blk (log_st s) i \<noteq> lh_block (l_lh (log_st s)) i"
  shows "\<exists>t. write_log_one i s = Ret () t \<and> cache_ok t \<and> bio_frame s t \<and>
    cview t = v_write (log_blk (log_st s) i) (v_blk (cview s) (lh_block (l_lh (log_st s)) i)) (cview s)"
proof -
  let ?m = "kbind (bread ROOTDEV (log_blk (log_st s) i)) (\<lambda>i'. kbind (bread ROOTDEV (lh_block (l_lh (log_st s)) i)) (\<lambda>j.
      kthen (kbind (get_buf j b_data) (\<lambda>d. kthen (set_buf i' (\<lambda>x. x\<lparr>b_data := d\<rparr>)) (bwrite i'))) (kthen (brelse j) (brelse i'))))"
  obtain t where t: "?m s = Ret () t" "cache_ok t" "bio_frame s t"
      "cview t = v_write (log_blk (log_st s) i) (v_blk (cview s) (lh_block (l_lh (log_st s)) i)) (cview s)"
    using bcache.copy_block_exec [OF ok ne r b] by blast
  obtain i' u where u: "bread ROOTDEV (log_blk (log_st s) i) s = Ret i' u" "log_st u = log_st s"
    using bcache.rd_law [OF ok r(1)] by (auto simp: cstep_def dest: frame_log)
  have "write_log_one i s = ?m s"
    using l u by (simp add: write_log_one_def log_defs log_blk_def kexec copy_data_def split: outcome.split)
  then show ?thesis using t by simp
qed

lemma kseq_copy:
  "kseq (copy_data d l # bwrite d # ms) =
     kthen (kbind (get_buf l b_data) (\<lambda>x. kthen (set_buf d (\<lambda>y. y\<lparr>b_data := x\<rparr>)) (bwrite d))) (kseq ms)"
  by (rule ext) (simp add: copy_data_def kexec split: outcome.split)

lemma install_one_exec:
  assumes ok: "cache_ok s" and l: "l_dev (log_st s) = ROOTDEV" "i < LOGSIZE"
    and r: "v_ready (log_blk (log_st s) i) (cview s)" "v_ready (lh_block (l_lh (log_st s)) i) (cview s)"
    and room: "v_refs (cview s) (lh_block (l_lh (log_st s)) i) > 0 \<or> card {y. v_refs (cview s) y > 0} + 1 < NBUF"
    and a: "v_blk (cview s) (log_blk (log_st s) i) = v_disk (cview s) (log_blk (log_st s) i)"
    and ne: "log_blk (log_st s) i \<noteq> lh_block (l_lh (log_st s)) i"
  shows "\<exists>t. install_one i s = Ret () t \<and> cache_ok t \<and> bio_frame s t \<and>
    cview t = v_write (lh_block (l_lh (log_st s)) i) (v_blk (cview s) (log_blk (log_st s) i)) (cview s)
      \<lparr>v_refs := (v_refs (cview s))(lh_block (l_lh (log_st s)) i :=
         (v_refs (cview s) (lh_block (l_lh (log_st s)) i) + (2 ^ 32 - 1)) mod 2 ^ 32)\<rparr>"
proof -
  let ?a = "log_blk (log_st s) i" and ?b = "lh_block (l_lh (log_st s)) i"
  let ?m = "kbind (bread ROOTDEV ?a) (\<lambda>i. kbind (bread ROOTDEV ?b) (\<lambda>j.
      kthen (kbind (get_buf i b_data) (\<lambda>d. kthen (set_buf j (\<lambda>x. x\<lparr>b_data := d\<rparr>)) (bwrite j))) (kseq [bunpin j, brelse i, brelse j])))"
  have room': "v_refs (cview s) ?b > 0 \<or> card {y. v_refs (cview s) y > 0} + (if v_refs (cview s) ?a > 0 then 0 else 1) < NBUF"
    using room by (simp split: if_split) linarith
  obtain t where t: "?m s = Ret () t" "cache_ok t" "bio_frame s t"
      "cview t = v_write ?b (v_blk (cview s) ?a) (cview s)
        \<lparr>v_refs := (v_refs (cview s))(?b := (v_refs (cview s) ?b + (2 ^ 32 - 1)) mod 2 ^ 32)\<rparr>"
    using bcache.install_block_exec [OF ok ne r room' a] by (elim exE conjE)
  obtain i' u where u: "bread ROOTDEV ?a s = Ret i' u" "log_st u = log_st s"
    using bcache.rd_law [OF ok r(1)] by (auto simp: cstep_def dest: frame_log)
  have "install_one i s = ?m s"
    using l u by (simp add: install_one_def log_defs log_blk_def kbind_exec [of "kget _"] kget_exec kbind_exec [of "bread _ _"] kseq_copy)
  then show ?thesis using t by simp
qed

text \<open>The header as \<open>write_head\<close> lays it out in its block.\<close>

definition put_header :: "logheader \<Rightarrow> block \<Rightarrow> block" where
  "put_header h d = fold (\<lambda>i d. put_int 4 d (4 + 4 * i) (lh_block h i)) (upto_int (lh_n h)) (put_int 4 d 0 (lh_n h))"

definition header_n :: "block \<Rightarrow> nat" where
  "header_n d = nat (sint (int_at 4 d 0 :: u32))"

definition header_block :: "block \<Rightarrow> nat \<Rightarrow> u32" where
  "header_block d i = int_at 4 d (4 + 4 * i)"

lemma int_at_put_list:
  assumes "\<And>i. i \<in> set is \<Longrightarrow> off + 4 \<le> 4 + 4 * i \<or> 8 + 4 * i \<le> off"
  shows "int_at 4 (fold (\<lambda>i d. put_int 4 d (4 + 4 * i) (f i :: u32)) is d) off = int_at 4 d off"
  using assms
proof (induction "is" arbitrary: d)
  case (Cons i "is")
  have "int_at 4 (put_int 4 d (4 + 4 * i) (f i)) off = int_at 4 d off"
    using Cons.prems [of i] by (intro int_at_put_int_other) auto
  then show ?case using Cons by simp
qed simp

lemma header_put:
  assumes "nat (sint (lh_n h)) \<le> LOGSIZE"
  shows "int_at 4 (put_header h d) 0 = lh_n h"
    "i < nat (sint (lh_n h)) \<Longrightarrow> header_block (put_header h d) i = lh_block h i"
proof -
  show "int_at 4 (put_header h d) 0 = lh_n h"
    by (simp add: put_header_def int_at_put_list)
  define n where "n = nat (sint (lh_n h))"
  have "int_at 4 (fold (\<lambda>i d. put_int 4 d (4 + 4 * i) (lh_block h i)) [0..<m] d) (4 + 4 * i) = lh_block h i"
    if "i < m" "m \<le> n" for m d
    using that
  proof (induction m)
    case (Suc m)
    show ?case
    proof (cases "i = m")
      case True
      then show ?thesis using Suc.prems assms by (simp add: n_def)
    next
      case False
      have "int_at 4 (put_int 4 (fold (\<lambda>i d. put_int 4 d (4 + 4 * i) (lh_block h i)) [0..<m] d) (4 + 4 * m) (lh_block h m)) (4 + 4 * i)
          = (int_at 4 (fold (\<lambda>i d. put_int 4 d (4 + 4 * i) (lh_block h i)) [0..<m] d) (4 + 4 * i) :: u32)"
        using False Suc.prems by (intro int_at_put_int_other) auto
      then show ?thesis using False Suc by simp
    qed
  qed simp
  then show "i < nat (sint (lh_n h)) \<Longrightarrow> header_block (put_header h d) i = lh_block h i"
    by (simp add: put_header_def upto_int_def header_block_def n_def)
qed

lemma set_buf_exec: "set_buf b f s = Ret () (s\<lparr>bufs := (bufs s)(b := f (bufs s b))\<rparr>)"
  by (simp add: set_buf_def kexec)

lemma get_log_exec: "get_log f s = Ret (f (log_st s)) s"
  by (simp add: get_log_def kexec)

lemma set_buf_seq:
  assumes "\<And>i. i \<in> set is \<Longrightarrow> i < LOGSIZE"
  shows "kfor is (\<lambda>i. kbind (get_lh_block i) (\<lambda>v. set_buf b (\<lambda>x. x\<lparr>b_data := put_int 4 (b_data x) (4 + 4 * i) v\<rparr>))) s =
    set_buf b (\<lambda>x. x\<lparr>b_data := fold (\<lambda>i d. put_int 4 d (4 + 4 * i) (lh_block (l_lh (log_st s)) i)) is (b_data x)\<rparr>) s"
  using assms
proof (induction "is" arbitrary: s)
  case (Cons i "is")
  then show ?case by (cases s) (simp add: kexec log_defs buf_defs)
qed (simp add: kexec buf_defs)

lemma write_head_exec:
  assumes ok: "cache_ok s" and l: "l_dev (log_st s) = ROOTDEV" "nat (sint (lh_n (l_lh (log_st s)))) \<le> LOGSIZE"
    and r: "v_ready (l_start (log_st s)) (cview s)"
  shows "\<exists>t. write_head s = Ret () t \<and> cache_ok t \<and> bio_frame s t \<and>
    cview t = v_write (l_start (log_st s)) (put_header (l_lh (log_st s)) (v_blk (cview s) (l_start (log_st s)))) (cview s)"
proof -
  let ?b = "l_start (log_st s)" and ?h = "l_lh (log_st s)"
  let ?m = "kbind (bread ROOTDEV ?b) (\<lambda>i. kseq [set_buf i (\<lambda>x. x\<lparr>b_data := put_header ?h (b_data x)\<rparr>), bwrite i, brelse i])"
  obtain i u where u: "bread ROOTDEV ?b s = Ret i u" "log_st u = log_st s"
    using bcache.rd_law [OF ok r] by (auto simp: cstep_def dest: frame_log)
  have bd: "j < LOGSIZE" if "j \<in> set (upto_int (lh_n ?h))" for j using that l(2) by (auto simp: upto_int_def)
  have "write_head s = ?m s"
    using l(1) u by (simp add: write_head_def get_log_exec kexec set_buf_seq [OF bd] put_header_def set_buf_exec)
  then show ?thesis using bcache.update_block_exec [OF ok r, of "put_header ?h"] by simp
qed

text \<open>The header as \<open>read_head\<close> takes it from the block.\<close>

definition get_header :: "block \<Rightarrow> logheader \<Rightarrow> logheader" where
  "get_header d h = h\<lparr>lh_n := int_at 4 d 0, lh_block := (\<lambda>i. if i < header_n d then header_block d i else lh_block h i)\<rparr>"

lemma set_lh_blocks_exec:
  assumes "n \<le> LOGSIZE"
  shows "kfor [0..<n] (\<lambda>i. set_lh_block i (f i)) s = Ret () (s\<lparr>log_st := (log_st s)\<lparr>l_lh := (l_lh (log_st s))
    \<lparr>lh_block := (\<lambda>i. if i < n then f i else lh_block (l_lh (log_st s)) i)\<rparr>\<rparr>\<rparr>)"
  using assms
proof (induction n)
  case (Suc n)
  have "(\<lambda>i. if i < n then f i else lh_block (l_lh (log_st s)) i)(n := f n) =
      (\<lambda>i. if i < Suc n then f i else lh_block (l_lh (log_st s)) i)"
    by (auto simp: fun_eq_iff)
  then show ?case using Suc by (simp add: kfor_append kexec log_defs)
qed (simp add: kexec)

lemma read_head_exec:
  assumes ok: "cache_ok s" and l: "l_dev (log_st s) = ROOTDEV" and r: "v_ready (l_start (log_st s)) (cview s)"
    and n: "header_n (v_blk (cview s) (l_start (log_st s))) \<le> LOGSIZE"
  shows "\<exists>t. read_head s = Ret () t \<and> cache_ok t \<and> cview t = cview s \<and> bio_frame (s\<lparr>log_st := log_st t\<rparr>) t \<and>
    log_st t = (log_st s)\<lparr>l_lh := get_header (v_blk (cview s) (l_start (log_st s))) (l_lh (log_st s))\<rparr>"
proof -
  let ?b = "l_start (log_st s)"
  define d where "d = v_blk (cview s) ?b"
  obtain i u where u: "bread ROOTDEV ?b s = Ret i u" "cstep s u" "slot u ?b = Some i" "cview u = v_take ?b (cview s)"
    using bcache.rd_law [OF ok r] by auto
  then have lu: "log_st u = log_st s" and oku: "cache_ok u" by (auto simp: cstep_def dest: frame_log)
  have pk: "get_buf i b_data u = Ret d u"
    using bcache.peek_law [OF oku u(3)] u(4) by (simp add: v_defs d_def)
  define u' where "u' = u\<lparr>log_st := (log_st s)\<lparr>l_lh := get_header d (l_lh (log_st s))\<rparr>\<rparr>"
  have sl: "slot u' = slot u" by (rule same_slots) (simp_all add: u'_def)
  have cl: "v_refs (cview u') ?b = 1 \<longrightarrow> v_blk (cview u') ?b = v_disk (cview u') ?b"
    using u(4) cache_clean [OF ok, of ?b] by (simp add: v_defs u'_def)
  obtain t where t: "brelse i u' = Ret () t" "cstep u' t" "cview t = v_drop ?b (cview u')"
    using bcache.rel_law [of u' ?b i, OF _ _ _ cl] u(3,4) oku sl by (auto simp: u'_def v_defs)
  have lt: "log_st t = (log_st s)\<lparr>l_lh := get_header d (l_lh (log_st s))\<rparr>"
    using frame_log [OF conjunct2 [OF bcache.stepD [OF t(2)]]] by (simp add: u'_def)
  have "read_head s = Ret () t"
    using u(1) l pk t(1) n
    by (simp add: read_head_def get_log_exec kexec lu upto_int_def set_lh_n_def set_log_def u'_def get_header_def
        d_def [symmetric] set_lh_blocks_exec cong: if_cong flip: header_n_def header_block_def)
  moreover have "cview t = cview s"
    using t(3) u(4) r by (simp add: u'_def v_defs v_ready_def)
  moreover have "bio_frame (s\<lparr>log_st := log_st t\<rparr>) u'"
    using u(2) lt by (cases s, cases u) (simp add: u'_def cstep_def bio_frame_def)
  then have "bio_frame (s\<lparr>log_st := log_st t\<rparr>) t"
    using bio_frame_trans t(2) by (auto simp: cstep_def)
  ultimately show ?thesis using t(2) lt by (simp add: cstep_def d_def)
qed

section \<open>The loops\<close>

definition log_area :: "log_struct \<Rightarrow> u32 set" where
  "log_area l = (\<lambda>k. l_start l + of_nat k) ` {..<nat (sint (l_size l))}"

lemma log_area_simps:
  "0 < sint (l_size l) \<Longrightarrow> l_start l \<in> log_area l"
  "int i + 1 < sint (l_size l) \<Longrightarrow> log_blk l i \<in> log_area l"
proof -
  show "0 < sint (l_size l) \<Longrightarrow> l_start l \<in> log_area l"
    unfolding log_area_def by (rule image_eqI [of _ _ 0]) auto
  assume "int i + 1 < sint (l_size l)"
  then show "log_blk l i \<in> log_area l"
    unfolding log_area_def log_blk_def by (intro image_eqI [of _ _ "Suc i"]) auto
qed

lemma log_blk_inj:
  assumes "i < LOGSIZE" "j < LOGSIZE" "log_blk l i = log_blk l j" shows "i = j"
proof -
  have "(of_nat i :: u32) = of_nat j" using assms(3) by (simp add: log_blk_def)
  then have "unat (of_nat i :: u32) = unat (of_nat j :: u32)" by simp
  then show ?thesis using assms(1,2) by (simp add: unat_of_nat)
qed

lemma log_blk_start: "i < LOGSIZE \<Longrightarrow> log_blk l i \<noteq> l_start l"
proof
  assume i: "i < LOGSIZE" and "log_blk l i = l_start l"
  then have "(of_nat i + 1 :: u32) = 0" by (simp add: log_blk_def add.assoc)
  then have "(of_nat (Suc i) :: u32) = 0" by (simp add: add.commute)
  moreover have "unat (of_nat (Suc i) :: u32) = Suc i" using i by (simp add: unat_of_nat del: of_nat_Suc)
  ultimately show False by simp
qed

text \<open>The log area is not in use by anyone else, and there is a free buffer.\<close>

definition log_free :: "log_struct \<Rightarrow> cview \<Rightarrow> bool" where
  "log_free l v \<longleftrightarrow> (\<forall>y \<in> log_area l. v_refs v y = 0 \<and> y \<notin> v_busy v) \<and> card {y. v_refs v y > 0} < NBUF"

lemma log_free_ready: "log_free l v \<Longrightarrow> y \<in> log_area l \<Longrightarrow> v_ready y v"
  by (simp add: log_free_def v_ready_def v_room_def)

text \<open>Block \<open>i\<close> of the transaction is outside the log area and unlocked.\<close>

definition txn_blk :: "log_struct \<Rightarrow> cview \<Rightarrow> nat \<Rightarrow> bool" where
  "txn_blk l v i \<longleftrightarrow> i < LOGSIZE \<and> int i + 1 < sint (l_size l) \<and> lh_block (l_lh l) i \<notin> log_area l \<and>
     lh_block (l_lh l) i \<notin> v_busy v \<and> v_refs v (lh_block (l_lh l) i) + 1 < 2 ^ 32"

lemma write_log_loop:
  fixes s :: "'z klog_scheme"
  assumes "cache_ok s" "log_st s = l" "l_dev l = ROOTDEV" "log_free l (cview s)"
    and "\<And>i. i \<in> set ts \<Longrightarrow> txn_blk l (cview s) i \<and> v_refs (cview s) (lh_block (l_lh l) i) > 0"
  shows "\<exists>t. kfor ts write_log_one s = Ret () t \<and> cache_ok t \<and> bio_frame s t \<and>
    cview t = v_writes_of (map (\<lambda>i. (log_blk l i, v_blk (cview s) (lh_block (l_lh l) i))) ts) (cview s)"
  using assms
proof (induction ts arbitrary: s)
  case Nil
  then show ?case by (simp add: kexec v_writes_of_simps)
next
  case (Cons i ts)
  let ?a = "log_blk l i" and ?b = "lh_block (l_lh l) i"
  have i: "txn_blk l (cview s) i" "v_refs (cview s) ?b > 0" using Cons.prems(5) by auto
  have a: "?a \<in> log_area l" using i(1) log_area_simps(2) by (simp add: txn_blk_def)
  then have ne: "?a \<noteq> ?b" using i(1) by (auto simp: txn_blk_def)
  have rb: "v_ready ?b (cview s)" using i by (simp add: txn_blk_def v_ready_def v_room_def)
  obtain u where u: "write_log_one i s = Ret () u" "cache_ok u" "bio_frame s u"
      "cview u = v_write ?a (v_blk (cview s) ?b) (cview s)"
    using write_log_one_exec [OF Cons.prems(1), of i] Cons.prems(2,3) i ne rb log_free_ready [OF Cons.prems(4) a]
    by (auto simp: txn_blk_def)
  have same: "v_blk (cview u) (lh_block (l_lh l) j) = v_blk (cview s) (lh_block (l_lh l) j)" if "j \<in> set ts" for j
    using u(4) Cons.prems(5) [of j] that a by (auto simp: v_defs txn_blk_def)
  have eq: "map (\<lambda>i. (log_blk l i, v_blk (cview u) (lh_block (l_lh l) i))) ts =
      map (\<lambda>i. (log_blk l i, v_blk (cview s) (lh_block (l_lh l) i))) ts"
    using same by simp
  have "\<exists>t. kfor ts write_log_one u = Ret () t \<and> cache_ok t \<and> bio_frame u t \<and>
      cview t = v_writes_of (map (\<lambda>i. (log_blk l i, v_blk (cview u) (lh_block (l_lh l) i))) ts) (cview u)"
    using Cons.prems u frame_log [OF u(3)]
    by (intro Cons.IH) (auto simp: v_defs txn_blk_def log_free_def)
  then obtain t where "kfor ts write_log_one u = Ret () t" "cache_ok t" "bio_frame s t"
      "cview t = v_writes_of (map (\<lambda>i. (log_blk l i, v_blk (cview s) (lh_block (l_lh l) i))) ts) (cview u)"
    unfolding eq using bio_frame_trans [OF u(3)] by blast
  then show ?case using u(1,4) by (simp add: kexec v_writes_of_simps)
qed

text \<open>The count of a block after one reference is dropped, as the 32-bit counter has it.\<close>

definition dec32 :: "nat \<Rightarrow> nat" where
  "dec32 r = (r + (2 ^ 32 - 1)) mod 2 ^ 32"

lemma dec32_pos [simp]: "0 < r \<Longrightarrow> r < 2 ^ 32 \<Longrightarrow> dec32 r = r - 1"
  by (cases r) (simp_all add: dec32_def)

lemma dec32_0 [simp]: "dec32 0 = 2 ^ 32 - 1"
  by (simp add: dec32_def)

definition v_dec :: "u32 set \<Rightarrow> cview \<Rightarrow> cview" where
  "v_dec B v = v\<lparr>v_refs := (\<lambda>y. if y \<in> B then dec32 (v_refs v y) else v_refs v y)\<rparr>"

lemma card_refs_upd:
  "card {y. (if y = b then f else v_refs v y) > 0} \<le> card {y. v_refs v y > 0} + (if v_refs v b > 0 then 0 else 1)"
proof -
  define S where "S = {y. (if y = b then f else v_refs v y) > 0}"
  have "S \<subseteq> insert b {y. v_refs v y > 0}" unfolding S_def by auto
  from card_mono [OF _ this] have "card S \<le> card {y. v_refs v y > 0} + (if v_refs v b > 0 then 0 else 1)"
    by (simp add: card_insert_if insert_absorb split: if_splits)
  then show ?thesis unfolding S_def .
qed

lemma install_loop:
  fixes s :: "'z klog_scheme"
  assumes "cache_ok s" "log_st s = l" "l_dev l = ROOTDEV" "log_free l (cview s)"
    and "\<And>i. i \<in> set ts \<Longrightarrow> txn_blk l (cview s) i" "distinct (map (lh_block (l_lh l)) ts)"
    and "(\<forall>i \<in> set ts. v_refs (cview s) (lh_block (l_lh l) i) > 0) \<or> card {y. v_refs (cview s) y > 0} + length ts < NBUF"
  shows "\<exists>t. kfor ts install_one s = Ret () t \<and> cache_ok t \<and> bio_frame s t \<and>
    cview t = v_dec (lh_block (l_lh l) ` set ts)
      (v_writes_of (map (\<lambda>i. (lh_block (l_lh l) i, v_blk (cview s) (log_blk l i))) ts) (cview s))"
  using assms
proof (induction ts arbitrary: s)
  case Nil
  then show ?case by (simp add: kexec v_writes_of_simps v_dec_def)
next
  case (Cons i ts)
  let ?b = "lh_block (l_lh l)" and ?v = "cview s"
  have i: "txn_blk l ?v i" using Cons.prems(5) by simp
  have a: "log_blk l i \<in> log_area l" using i log_area_simps(2) by (simp add: txn_blk_def)
  then have ne: "log_blk l i \<noteq> ?b i" using i by (auto simp: txn_blk_def)
  have cl: "v_blk ?v (log_blk l i) = v_disk ?v (log_blk l i)"
    using bcache.ok_clean [OF Cons.prems(1)] Cons.prems(4) a by (simp add: log_free_def)
  have room: "v_refs ?v (?b i) > 0 \<or> card {y. v_refs ?v y > 0} + 1 < NBUF" using Cons.prems(7) by auto
  then have rb: "v_ready (?b i) ?v" using i by (auto simp: txn_blk_def v_ready_def v_room_def)
  obtain u where u: "install_one i s = Ret () u" "cache_ok u" "bio_frame s u"
      "cview u = v_write (?b i) (v_blk ?v (log_blk l i)) ?v\<lparr>v_refs := (v_refs ?v)(?b i := dec32 (v_refs ?v (?b i)))\<rparr>"
    using install_one_exec [OF Cons.prems(1), of i] Cons.prems(2,3) i ne rb cl room log_free_ready [OF Cons.prems(4) a]
    by (auto simp: txn_blk_def dec32_def)
  have refs: "v_refs (cview u) y = (if y = ?b i then dec32 (v_refs ?v (?b i)) else v_refs ?v y)" "v_busy (cview u) = v_busy ?v" for y
    using u(4) by (simp_all add: v_defs)
  have other: "?b j \<noteq> ?b i" "v_blk (cview u) (log_blk l j) = v_blk ?v (log_blk l j)" if "j \<in> set ts" for j
  proof -
    show "?b j \<noteq> ?b i" using Cons.prems(6) that by (metis distinct.simps(2) imageI list.set_map list.simps(9))
    have "log_blk l j \<in> log_area l" using Cons.prems(5) [of j] that log_area_simps(2) by (simp add: txn_blk_def)
    then show "v_blk (cview u) (log_blk l j) = v_blk ?v (log_blk l j)" using i u(4) by (auto simp: v_defs txn_blk_def)
  qed
  define c where "c = card {y. v_refs ?v y > 0}"
  define c' where "c' = card {y. v_refs (cview u) y > 0}"
  have card: "c' \<le> c + (if v_refs ?v (?b i) > 0 then 0 else 1)"
    unfolding refs c_def c'_def by (rule card_refs_upd)
  have "c < NBUF" "\<forall>y \<in> log_area l. v_refs ?v y = 0 \<and> y \<notin> v_busy ?v"
    using Cons.prems(4) by (simp_all add: log_free_def c_def)
  moreover have "c' < NBUF" using Cons.prems(7) card \<open>c < NBUF\<close> by (auto simp: c_def [symmetric] split: if_splits)
  ultimately have "log_free l (cview u)"
    using i refs unfolding log_free_def txn_blk_def c'_def [symmetric] by auto
  moreover have "txn_blk l (cview u) j" if "j \<in> set ts" for j
    using Cons.prems(5) [of j] other(1) [OF that] that refs by (simp add: txn_blk_def)
  moreover have "(\<forall>j \<in> set ts. v_refs (cview u) (?b j) > 0) \<or> card {y. v_refs (cview u) y > 0} + length ts < NBUF"
    using Cons.prems(7) card other(1) refs unfolding c_def [symmetric] c'_def [symmetric] by (auto split: if_splits)
  ultimately obtain t where t: "kfor ts install_one u = Ret () t" "cache_ok t" "bio_frame u t"
      "cview t = v_dec (?b ` set ts) (v_writes_of (map (\<lambda>i. (?b i, v_blk (cview u) (log_blk l i))) ts) (cview u))"
    using Cons.IH [OF u(2)] frame_log [OF u(3)] Cons.prems(2,3,6) by auto
  have ni: "?b i \<notin> ?b ` set ts" using Cons.prems(6) by simp
  have eq: "map (\<lambda>i. (?b i, v_blk (cview u) (log_blk l i))) ts = map (\<lambda>i. (?b i, v_blk ?v (log_blk l i))) ts"
    using other(2) by simp
  have "cview t = v_dec (?b ` set (i # ts)) (v_writes_of (map (\<lambda>i. (?b i, v_blk ?v (log_blk l i))) (i # ts)) ?v)"
    using t(4) [unfolded eq] u(4) ni by (intro cview.equality) (auto simp: v_dec_def v_writes_of_def v_defs fun_eq_iff)
  then show ?case using u(1,3) t(1,2) bio_frame_trans [OF u(3) t(3)] by (simp add: kexec)
qed

section \<open>Commit and recovery\<close>

text \<open>The number of blocks of the transaction, and the blocks.\<close>

definition txn_n :: "log_struct \<Rightarrow> nat" where
  "txn_n l = nat (sint (lh_n (l_lh l)))"

definition txn_set :: "log_struct \<Rightarrow> u32 set" where
  "txn_set l = lh_block (l_lh l) ` {..<txn_n l}"

definition txn_ok :: "log_struct \<Rightarrow> cview \<Rightarrow> bool" where
  "txn_ok l v \<longleftrightarrow> l_dev l = ROOTDEV \<and> 0 < sint (l_size l) \<and> log_free l v \<and>
     (\<forall>i < txn_n l. txn_blk l v i) \<and> inj_on (lh_block (l_lh l)) {..<txn_n l}"

lemma txn_n_le: "txn_ok l v \<Longrightarrow> txn_n l \<le> LOGSIZE"
  by (metis linorder_not_less order_refl txn_blk_def txn_ok_def)

text \<open>The block writes: to the log, of the header, and to the home locations.\<close>

definition log_writes :: "log_struct \<Rightarrow> (u32 \<Rightarrow> block) \<Rightarrow> (u32 \<times> block) list" where
  "log_writes l f = map (\<lambda>i. (log_blk l i, f (lh_block (l_lh l) i))) [0..<txn_n l]"

definition home_writes :: "log_struct \<Rightarrow> (nat \<Rightarrow> block) \<Rightarrow> (u32 \<times> block) list" where
  "home_writes l f = map (\<lambda>i. (lh_block (l_lh l) i, f i)) [0..<txn_n l]"

definition erased :: "log_struct \<Rightarrow> log_struct" where
  "erased l = l\<lparr>l_lh := (l_lh l)\<lparr>lh_n := 0\<rparr>\<rparr>"

lemma v_writes_of_append: "v_writes_of vs (v_writes_of us v) = v_writes_of (us @ vs) v"
  by (simp add: v_writes_of_def)

lemma v_writes_of_dec: "v_writes_of ws (v_dec B v) = v_dec B (v_writes_of ws v)"
  by (intro cview.equality) (simp_all add: v_writes_of_def v_dec_def cong: if_cong)

lemma v_write_of: "v_write b x v = v_writes_of [(b, x)] v"
  by (simp add: v_writes_of_simps)

lemma log_ok_writes [simp]:
  "txn_ok l (v_writes_of ws v) = txn_ok l v" "log_free l (v_writes_of ws v) = log_free l v"
  "v_refs (v_writes_of ws v) = v_refs v"
  by (simp_all add: txn_ok_def log_free_def txn_blk_def v_writes_of_def)

lemma write_log_exec:
  assumes ok: "cache_ok s" and x: "txn_ok (log_st s) (cview s)" "\<forall>y \<in> txn_set (log_st s). v_refs (cview s) y > 0"
  shows "\<exists>t. write_log s = Ret () t \<and> cache_ok t \<and> bio_frame s t \<and>
    cview t = v_writes_of (log_writes (log_st s) (v_blk (cview s))) (cview s)"
proof -
  have "\<exists>t. kfor [0..<txn_n (log_st s)] write_log_one s = Ret () t \<and> cache_ok t \<and> bio_frame s t \<and>
    cview t = v_writes_of (map (\<lambda>i. (log_blk (log_st s) i, v_blk (cview s) (lh_block (l_lh (log_st s)) i))) [0..<txn_n (log_st s)]) (cview s)"
    using x by (intro write_log_loop [OF ok refl]) (auto simp: txn_ok_def txn_set_def)
  then show ?thesis
    by (simp add: write_log_def get_log_exec kbind_exec upto_int_def txn_n_def log_writes_def)
qed

lemma install_trans_exec:
  assumes ok: "cache_ok s" and x: "txn_ok (log_st s) (cview s)"
    and room: "(\<forall>y \<in> txn_set (log_st s). v_refs (cview s) y > 0) \<or> card {y. v_refs (cview s) y > 0} + txn_n (log_st s) < NBUF"
  shows "\<exists>t. install_trans s = Ret () t \<and> cache_ok t \<and> bio_frame s t \<and>
    cview t = v_dec (txn_set (log_st s))
      (v_writes_of (home_writes (log_st s) (\<lambda>i. v_blk (cview s) (log_blk (log_st s) i))) (cview s))"
proof -
  have "\<exists>t. kfor [0..<txn_n (log_st s)] install_one s = Ret () t \<and> cache_ok t \<and> bio_frame s t \<and>
    cview t = v_dec (lh_block (l_lh (log_st s)) ` set [0..<txn_n (log_st s)])
      (v_writes_of (map (\<lambda>i. (lh_block (l_lh (log_st s)) i, v_blk (cview s) (log_blk (log_st s) i))) [0..<txn_n (log_st s)]) (cview s))"
    using x room by (intro install_loop [OF ok refl]) (auto simp: txn_ok_def txn_set_def distinct_map atLeast0LessThan)
  then show ?thesis
    by (simp add: install_trans_def get_log_exec kbind_exec upto_int_def txn_n_def home_writes_def txn_set_def atLeast0LessThan)
qed

lemma log_writes_home:
  assumes "txn_ok l v"
  shows "home_writes l (\<lambda>i. apply_writes (log_writes l f @ [(l_start l, h)]) g (log_blk l i)) = home_writes l (\<lambda>i. f (lh_block (l_lh l) i))"
proof -
  have "apply_writes (log_writes l f @ [(l_start l, h)]) g (log_blk l i) = f (lh_block (l_lh l) i)" if i: "i < txn_n l" for i
  proof -
    have b: "j < LOGSIZE" if "j < txn_n l" for j using assms that by (simp add: txn_ok_def txn_blk_def)
    have "distinct (map fst (log_writes l f))"
      by (auto simp: log_writes_def distinct_map inj_on_def comp_def dest: b log_blk_inj [OF b b])
    moreover have "(log_blk l i, f (lh_block (l_lh l) i)) \<in> set (log_writes l f)"
      using i by (auto simp: log_writes_def)
    ultimately show ?thesis using log_blk_start [OF b [OF i], of l] apply_writes_in by auto
  qed
  then show ?thesis by (simp add: home_writes_def)
qed

lemma log_writes_start:
  assumes "txn_ok l v" shows "l_start l \<notin> fst ` set (log_writes l f)"
proof
  assume "l_start l \<in> fst ` set (log_writes l f)"
  then obtain i where i: "i < txn_n l" "l_start l = log_blk l i" by (auto simp: log_writes_def)
  then show False using assms log_blk_start [of i l] by (simp add: txn_ok_def txn_blk_def)
qed

definition commit_writes :: "log_struct \<Rightarrow> cview \<Rightarrow> (u32 \<times> block) list" where
  "commit_writes l v = log_writes l (v_blk v) @ [(l_start l, put_header (l_lh l) (v_blk v (l_start l)))] @
     home_writes l (\<lambda>i. v_blk v (lh_block (l_lh l) i)) @
     [(l_start l, put_header (l_lh (erased l)) (put_header (l_lh l) (v_blk v (l_start l))))]"

lemma home_writes_fst [simp]: "fst ` set (home_writes l f) = txn_set l"
  by (simp add: home_writes_def txn_set_def image_image atLeast0LessThan)

lemma txn_area: "txn_ok l v \<Longrightarrow> txn_set l \<inter> log_area l = {}"
  by (auto simp: txn_ok_def txn_blk_def txn_set_def)

lemma log_free_dec:
  assumes "txn_ok l v"
    and "(\<forall>y \<in> txn_set l. v_refs v y > 0) \<or> card {y. v_refs v y > 0} + txn_n l < NBUF"
  shows "log_free l (v_dec (txn_set l) v)"
proof -
  note area = txn_area [OF assms(1)]
  have lf: "log_free l v" using assms(1) by (simp add: txn_ok_def)
  let ?S = "{y. v_refs (v_dec (txn_set l) v) y > 0}" and ?T = "{y. v_refs v y > 0}"
  have "card ?S < NBUF"
    using assms(2)
  proof
    assume "\<forall>y \<in> txn_set l. v_refs v y > 0"
    then have "?S \<subseteq> ?T" by (auto simp: v_dec_def)
    from card_mono [OF _ this] show ?thesis using lf by (simp add: log_free_def)
  next
    assume c: "card ?T + txn_n l < NBUF"
    have "?S \<subseteq> ?T \<union> txn_set l" by (auto simp: v_dec_def)
    then have "card ?S \<le> card (?T \<union> txn_set l)" by (intro card_mono) auto
    also have "\<dots> \<le> card ?T + card (txn_set l)" by (rule card_Un_le)
    also have "card (txn_set l) \<le> txn_n l"
      unfolding txn_set_def using card_image_le [of "{..<txn_n l}"] by simp
    finally show ?thesis using c by simp
  qed
  moreover have "v_refs (v_dec (txn_set l) v) y = 0 \<and> y \<notin> v_busy (v_dec (txn_set l) v)" if "y \<in> log_area l" for y
    using lf area that by (auto simp: log_free_def v_dec_def)
  ultimately show ?thesis by (simp add: log_free_def)
qed

lemma set_lh_n_exec: "set_lh_n 0 s = Ret () (s\<lparr>log_st := erased (log_st s)\<rparr>)"
  by (simp add: set_lh_n_def set_log_def kexec erased_def)

lemma erased_simps [simp]: "l_dev (erased l) = l_dev l" "l_start (erased l) = l_start l" "l_size (erased l) = l_size l"
  "lh_n (l_lh (erased l)) = 0" "log_area (erased l) = log_area l"
  by (simp_all add: erased_def log_area_def)

text \<open>Erasing the transaction, the last step of a commit and of recovery.\<close>

lemma erase_exec:
  assumes ok: "cache_ok s" and l: "l_dev (log_st s) = ROOTDEV" "0 < sint (l_size (log_st s))" "log_free (log_st s) (cview s)"
  shows "\<exists>t. kseq [set_lh_n 0, write_head] s = Ret () t \<and> cache_ok t \<and> bio_frame (s\<lparr>log_st := erased (log_st s)\<rparr>) t \<and>
    cview t = v_writes_of [(l_start (log_st s), put_header (l_lh (erased (log_st s))) (v_blk (cview s) (l_start (log_st s))))] (cview s)"
proof -
  let ?s = "s\<lparr>log_st := erased (log_st s)\<rparr>"
  have "v_ready (l_start (log_st s)) (cview s)" using log_free_ready [OF l(3) log_area_simps(1) [OF l(2)]] .
  then obtain t where "write_head ?s = Ret () t" "cache_ok t" "bio_frame ?s t"
      "cview t = v_writes_of [(l_start (log_st s), put_header (l_lh (erased (log_st s))) (v_blk (cview s) (l_start (log_st s))))] (cview s)"
    using write_head_exec [of ?s] ok l(1) by (auto simp: v_write_of)
  then show ?thesis by (simp add: kexec set_lh_n_exec)
qed

lemma commit_exec:
  fixes s :: "'z klog_scheme"
  assumes ok: "cache_ok s" and l: "log_st s = l" and x: "txn_ok l (cview s)" and pinned: "\<forall>y \<in> txn_set l. v_refs (cview s) y > 0"
    and n: "txn_n l > 0"
  shows "\<exists>t. commit s = Ret () t \<and> cache_ok t \<and> bio_frame (s\<lparr>log_st := erased l\<rparr>) t \<and>
    cview t = v_dec (txn_set l) (v_writes_of (commit_writes l (cview s)) (cview s))"
proof -
  let ?W1 = "log_writes l (v_blk (cview s))"
  let ?H = "put_header (l_lh l) (v_blk (cview s) (l_start l))"
  have bs: "0 < sint (l_size l)" "l_dev l = ROOTDEV" using x by (auto simp: txn_ok_def)
  obtain s1 where s1: "write_log s = Ret () s1" "cache_ok s1" "bio_frame s s1" "cview s1 = v_writes_of ?W1 (cview s)"
    using write_log_exec [OF ok] x l pinned by auto
  note l1 = frame_log [OF s1(3), unfolded l]
  have st: "l_start l \<notin> fst ` set ?W1"
    using x by (rule log_writes_start)
  have blk1: "v_blk (cview s1) (l_start l) = v_blk (cview s) (l_start l)"
    using s1(4) apply_writes_other [OF st] by (simp add: v_writes_of_def)
  have "v_ready (l_start l) (cview s1)"
    using log_free_ready [OF _ log_area_simps(1)] s1(4) x by (auto simp: txn_ok_def)
  then obtain s2 where s2: "write_head s1 = Ret () s2" "cache_ok s2" "bio_frame s1 s2"
      "cview s2 = v_writes_of (?W1 @ [(l_start l, ?H)]) (cview s)"
    using write_head_exec [OF s1(2)] l1 txn_n_le [OF x] bs(2) s1(4) blk1
    by (auto simp: txn_n_def v_write_of v_writes_of_append)
  note l2 = frame_log [OF s2(3), unfolded l1]
  let ?W = "?W1 @ [(l_start l, ?H)]" and ?W3 = "home_writes l (\<lambda>i. v_blk (cview s) (lh_block (l_lh l) i))"
  have hw: "home_writes l (\<lambda>i. v_blk (cview s2) (log_blk l i)) = ?W3"
    using log_writes_home [OF x, of "v_blk (cview s)" ?H "v_blk (cview s)"] s2(4) by (simp add: v_writes_of_def)
  obtain s3 where s3: "install_trans s2 = Ret () s3" "cache_ok s3" "bio_frame s2 s3"
      "cview s3 = v_dec (txn_set l) (v_writes_of (?W @ ?W3) (cview s))"
    using install_trans_exec [OF s2(2)] l2 x pinned s2(4) hw by (auto simp: v_writes_of_append)
  note l3 = frame_log [OF s3(3), unfolded l2]
  have lf: "log_free l (cview s3)"
    using log_free_dec [of l "v_writes_of (?W @ ?W3) (cview s)"] x pinned s3(4) by simp
  have st3: "l_start l \<notin> fst ` set ?W3"
    using txn_area [OF x] log_area_simps(1) [OF bs(1)] by auto
  have blk: "v_blk (cview s3) (l_start l) = ?H"
    using s3(4) apply_writes_other [OF st3] by (simp add: v_dec_def v_writes_of_def)
  obtain t where t: "kseq [set_lh_n 0, write_head] s3 = Ret () t" "cache_ok t" "bio_frame (s3\<lparr>log_st := erased l\<rparr>) t"
      "cview t = v_dec (txn_set l) (v_writes_of (commit_writes l (cview s)) (cview s))"
    using erase_exec [OF s3(2)] l3 bs lf s3(4) blk by (auto simp: v_writes_of_dec v_writes_of_append commit_writes_def)
  have "commit s = Ret () t"
    using s1(1) s2(1) s3(1) t(1) n l by (simp add: commit_def get_log_exec kexec txn_n_def)
  moreover have "bio_frame (s\<lparr>log_st := erased l\<rparr>) (s3\<lparr>log_st := erased l\<rparr>)"
    using bio_frame_trans [OF bio_frame_trans [OF s1(3) s2(3)] s3(3)] by (cases s, cases s3) (simp add: bio_frame_def)
  ultimately show ?thesis using t bio_frame_trans by blast
qed

text \<open>The log as \<open>read_head\<close> sets it up from the header found on the disk.\<close>

definition found :: "log_struct \<Rightarrow> block \<Rightarrow> log_struct" where
  "found l d = l\<lparr>l_lh := get_header d (l_lh l)\<rparr>"

lemma found_simps [simp]: "l_dev (found l d) = l_dev l" "l_start (found l d) = l_start l" "l_size (found l d) = l_size l"
  "log_area (found l d) = log_area l" "log_blk (found l d) = log_blk l" "txn_n (found l d) = header_n d"
  "i < header_n d \<Longrightarrow> lh_block (l_lh (found l d)) i = header_block d i"
  by (simp_all add: found_def log_area_def log_blk_def [abs_def] txn_n_def get_header_def header_n_def fun_eq_iff)

lemma recover_exec:
  fixes s :: "'z klog_scheme" and l v
  defines "h \<equiv> found l (v_blk v (l_start l))"
  assumes ok: "cache_ok s" and l: "log_st s = l" "cview s = v" and x: "txn_ok h v" and room: "card {y. v_refs v y > 0} + txn_n h < NBUF"
  shows "\<exists>t d. recover_from_log s = Ret () t \<and> cache_ok t \<and> bio_frame (s\<lparr>log_st := erased h\<rparr>) t \<and>
    cview t = v_dec (txn_set h) (v_writes_of (home_writes h (\<lambda>i. v_blk v (log_blk l i)) @ [(l_start l, d)]) v) \<and> header_n d = 0"
proof -
  let ?b = "l_start l"
  have bs: "0 < sint (l_size l)" "l_dev l = ROOTDEV" "log_free h v" using x by (auto simp: txn_ok_def h_def)
  have r: "v_ready ?b v" using log_free_ready [OF bs(3)] log_area_simps(1) [OF bs(1)] by (simp add: h_def)
  obtain s1 where s1: "read_head s = Ret () s1" "cache_ok s1" "cview s1 = v" "bio_frame (s\<lparr>log_st := log_st s1\<rparr>) s1" "log_st s1 = h"
    using read_head_exec [OF ok] l bs(2) r txn_n_le [OF x] by (auto simp: h_def found_def txn_n_def header_n_def get_header_def)
  obtain s2 where s2: "install_trans s1 = Ret () s2" "cache_ok s2" "bio_frame s1 s2"
      "cview s2 = v_dec (txn_set h) (v_writes_of (home_writes h (\<lambda>i. v_blk v (log_blk l i))) v)"
    using install_trans_exec [OF s1(2)] s1(3,5) x room by (auto simp: h_def)
  note l2 = frame_log [OF s2(3), unfolded s1(5)]
  have lf: "log_free h (cview s2)"
    using log_free_dec [of h "v_writes_of (home_writes h (\<lambda>i. v_blk v (log_blk l i))) v"] x room s2(4) by simp
  let ?d = "put_header (l_lh (erased h)) (v_blk (cview s2) ?b)"
  obtain t where t: "kseq [set_lh_n 0, write_head] s2 = Ret () t" "cache_ok t" "bio_frame (s2\<lparr>log_st := erased h\<rparr>) t"
      "cview t = v_writes_of [(?b, ?d)] (cview s2)"
    using erase_exec [OF s2(2)] l2 bs lf by (auto simp: h_def)
  have "recover_from_log s = Ret () t" using s1(1) s2(1) t(1) by (simp add: recover_from_log_def kexec)
  moreover have "bio_frame (s\<lparr>log_st := erased h\<rparr>) (s2\<lparr>log_st := erased h\<rparr>)"
    using bio_frame_trans [OF s1(4) s2(3)] by (cases s, cases s2) (simp add: bio_frame_def)
  moreover have "header_n ?d = 0" using header_put(1) [of "l_lh (erased h)"] by (simp add: header_n_def)
  ultimately show ?thesis
    using t(2,3,4) s2(4) bio_frame_trans by (intro exI [of _ t] exI [of _ ?d]) (auto simp: v_writes_of_dec v_writes_of_append)
qed

section \<open>Crashes\<close>

text \<open>
  A crash leaves the disk as a prefix of the writes made it; the kernel then boots with an empty cache and
  reads where the log is from the super block.
\<close>

definition boots :: "log_struct \<Rightarrow> (u32 \<Rightarrow> block) \<Rightarrow> 'z klog_scheme \<Rightarrow> bool" where
  "boots l d b \<longleftrightarrow> cache_ok b \<and> l_dev (log_st b) = ROOTDEV \<and> l_start (log_st b) = l_start l \<and> l_size (log_st b) = l_size l \<and>
     v_refs (cview b) = (\<lambda>_. 0) \<and> v_busy (cview b) = {} \<and> v_blk (cview b) = d \<and> v_disk (cview b) = d"

text \<open>What recovery is for: the blocks the header names, installed.\<close>

definition replay :: "log_struct \<Rightarrow> (u32 \<Rightarrow> block) \<Rightarrow> (u32 \<Rightarrow> block)" where
  "replay l d = (let h = d (l_start l) in
     apply_writes (map (\<lambda>i. (header_block h i, d (log_blk l i))) [0..<header_n h]) d)"

definition header_ok :: "log_struct \<Rightarrow> block \<Rightarrow> bool" where
  "header_ok l h \<longleftrightarrow> 0 < sint (l_size l) \<and> header_n h < NBUF \<and> int (header_n h) < sint (l_size l) \<and>
     (\<forall>i < header_n h. header_block h i \<notin> log_area l) \<and> inj_on (header_block h) {..<header_n h}"

definition same_home :: "log_struct \<Rightarrow> (u32 \<Rightarrow> block) \<Rightarrow> (u32 \<Rightarrow> block) \<Rightarrow> bool" where
  "same_home l d d' \<longleftrightarrow> (\<forall>y. y \<notin> log_area l \<longrightarrow> d y = d' y)"

lemma recover_replay:
  assumes b: "boots l d b" and h: "header_ok l (d (l_start l))"
  shows "\<exists>t. recover_from_log b = Ret () t \<and> cache_ok t \<and> same_home l (disk t) (replay l d) \<and> header_n (disk t (l_start l)) = 0 \<and>
    v_refs (cview t) = (\<lambda>y. if y \<in> header_block (d (l_start l)) ` {..<header_n (d (l_start l))} then 2 ^ 32 - 1 else 0)"
proof -
  let ?h = "d (l_start l)" and ?l = "log_st b"
  have la: "log_area ?l = log_area l" "log_blk ?l = log_blk l"
    using b by (simp_all add: boots_def log_area_def log_blk_def [abs_def])
  have fl: "v_blk (cview b) (l_start ?l) = ?h" using b by (simp add: boots_def)
  have hb: "lh_block (l_lh (found ?l ?h)) i = header_block ?h i" if "i < header_n ?h" for i using that by simp
  have bs: "txn_set (found ?l ?h) = header_block ?h ` {..<header_n ?h}" by (auto simp: txn_set_def)
  have x: "txn_ok (found ?l ?h) (cview b)"
    using b h hb by (auto simp: boots_def header_ok_def txn_ok_def log_free_def txn_blk_def inj_on_def la)
  obtain t c where t: "recover_from_log b = Ret () t" "cache_ok t" "header_n c = 0"
      "cview t = v_dec (txn_set (found ?l ?h)) (v_writes_of (home_writes (found ?l ?h) (\<lambda>i. d (log_blk l i)) @ [(l_start l, c)]) (cview b))"
    using recover_exec [of b ?l "cview b"] b h x by (auto simp: boots_def header_ok_def la fl)
  have hw: "home_writes (found ?l ?h) (\<lambda>i. d (log_blk l i)) = map (\<lambda>i. (header_block ?h i, d (log_blk l i))) [0..<header_n ?h]"
    by (simp add: home_writes_def)
  have "disk t = v_disk (cview t)" by (simp add: cview_def)
  also have "\<dots> = (replay l d)(l_start l := c)"
    using t(4) b by (simp add: v_dec_def v_writes_of_def hw replay_def Let_def boots_def)
  finally have dt: "disk t = (replay l d)(l_start l := c)" .
  have "same_home l (disk t) (replay l d)"
    using dt log_area_simps(1) [of l] h by (auto simp: same_home_def header_ok_def)
  moreover have "v_refs (cview t) = (\<lambda>y. if y \<in> header_block ?h ` {..<header_n ?h} then 2 ^ 32 - 1 else 0)"
    using t(4) b by (simp add: v_dec_def bs boots_def fun_eq_iff)
  ultimately show ?thesis using t(1-3) dt by auto
qed

text \<open>The disk with the transaction's blocks as the cache has them.\<close>

definition committed :: "log_struct \<Rightarrow> cview \<Rightarrow> (u32 \<Rightarrow> block)" where
  "committed l v = (\<lambda>y. if y \<in> txn_set l then v_blk v y else v_disk v y)"

lemma apply_home:
  assumes "txn_ok l v"
  shows "apply_writes (home_writes l (\<lambda>i. f (lh_block (l_lh l) i))) d = (\<lambda>y. if y \<in> txn_set l then f y else d y)"
proof (rule ext)
  fix y
  let ?W = "home_writes l (\<lambda>i. f (lh_block (l_lh l) i))"
  show "apply_writes ?W d y = (if y \<in> txn_set l then f y else d y)"
  proof (cases "y \<in> txn_set l")
    case True
    then have "(y, f y) \<in> set ?W" by (auto simp: txn_set_def home_writes_def)
    moreover have "distinct (map fst ?W)"
      using assms by (auto simp: home_writes_def distinct_map comp_def txn_ok_def inj_on_def)
    ultimately show ?thesis using True by (simp add: apply_writes_in)
  next
    case False
    then show ?thesis using apply_writes_other [of y ?W d] by simp
  qed
qed

lemma take_home_writes:
  assumes "txn_ok l v"
  shows "apply_writes (take j (home_writes l f)) d y = d y \<or> y \<in> txn_set l"
    "y \<in> log_area l \<Longrightarrow> apply_writes (take j (home_writes l f)) d y = d y"
proof -
  have "fst ` set (take j (home_writes l f)) \<subseteq> txn_set l"
    using set_take_subset [of j "home_writes l f"] home_writes_fst [of l f] by blast
  then show "apply_writes (take j (home_writes l f)) d y = d y \<or> y \<in> txn_set l"
    "y \<in> log_area l \<Longrightarrow> apply_writes (take j (home_writes l f)) d y = d y"
    using apply_writes_other [of y "take j (home_writes l f)" d] txn_area [OF assms] by blast+
qed

lemma log_writes_area: "txn_ok l v \<Longrightarrow> fst ` set (log_writes l f) \<subseteq> log_area l"
  using log_area_simps(2) by (auto simp: log_writes_def txn_ok_def txn_blk_def)

lemma header_committed:
  assumes "txn_ok l v"
  shows "header_n (put_header (l_lh l) d) = txn_n l"
    "i < txn_n l \<Longrightarrow> header_block (put_header (l_lh l) d) i = lh_block (l_lh l) i"
  using header_put(1) [of "l_lh l" d] header_put(2) [of "l_lh l" i d] txn_n_le [OF assms] by (simp_all add: header_n_def txn_n_def)

lemma crash_before:
  assumes x: "txn_ok l v" and old: "header_n (v_disk v (l_start l)) = 0" and k: "k \<le> txn_n l"
  defines "d \<equiv> apply_writes (take k (commit_writes l v)) (v_disk v)"
  shows "header_ok l (d (l_start l))" "same_home l (replay l d) (v_disk v)"
proof -
  let ?W = "take k (log_writes l (v_blk v))"
  have d: "d = apply_writes ?W (v_disk v)"
    using k by (simp add: d_def commit_writes_def log_writes_def)
  have sub: "set ?W \<subseteq> set (log_writes l (v_blk v))" by (rule set_take_subset)
  then have "l_start l \<notin> fst ` set ?W" using log_writes_start [OF x] by blast
  then have st: "header_n (d (l_start l)) = 0" using old by (simp add: d apply_writes_other)
  have "0 < sint (l_size l)" using x by (simp add: txn_ok_def)
  then show "header_ok l (d (l_start l))" using st by (simp add: header_ok_def)
  have "d y = v_disk v y" if "y \<notin> log_area l" for y
    using apply_writes_other [of y ?W] log_writes_area [OF x, of "v_blk v"] sub that unfolding d by blast
  then show "same_home l (replay l d) (v_disk v)" by (simp add: same_home_def replay_def Let_def st)
qed

lemma crash_after:
  assumes x: "txn_ok l v" and n: "txn_n l < NBUF" and k: "txn_n l < k" "k \<le> length (commit_writes l v)"
  defines "d \<equiv> apply_writes (take k (commit_writes l v)) (v_disk v)"
  shows "header_ok l (d (l_start l))" "same_home l (replay l d) (committed l v)"
proof -
  let ?n = "txn_n l" and ?H1 = "put_header (l_lh l) (v_blk v (l_start l))"
  let ?W1 = "log_writes l (v_blk v)" and ?W3 = "home_writes l (\<lambda>i. v_blk v (lh_block (l_lh l) i))"
  let ?H2 = "put_header (l_lh (erased l)) ?H1"
  have len: "length ?W1 = ?n" "length ?W3 = ?n" by (simp_all add: log_writes_def home_writes_def)
  have sz: "0 < sint (l_size l)" using x by (simp add: txn_ok_def)
  define d1 where "d1 = (apply_writes ?W1 (v_disk v))(l_start l := ?H1)"
  have st: "l_start l \<in> log_area l" using log_area_simps(1) [OF sz] .
  have home: "d1 y = v_disk v y" if "y \<notin> log_area l" for y
    using apply_writes_other [of y ?W1] log_writes_area [OF x, of "v_blk v"] that st by (auto simp: d1_def)
  have "header_ok l (d (l_start l)) \<and> same_home l (replay l d) (committed l v)"
  proof (cases "k \<le> Suc (?n + ?n)")
    case True
    define j where "j = k - Suc ?n"
    have "take k (commit_writes l v) = ?W1 @ (l_start l, ?H1) # take j ?W3"
      using k(1) True len by (simp add: commit_writes_def j_def take_Cons')
    then have d: "d = apply_writes (take j ?W3) d1" by (simp add: d_def d1_def)
    have h: "d (l_start l) = ?H1" using take_home_writes(2) [OF x st] by (simp add: d d1_def)
    note hd = header_committed(1) [OF x, of "v_blk v (l_start l)"] header_committed(2) [OF x, of _ "v_blk v (l_start l)"]
    have ho: "header_ok l ?H1"
      using x n hd sz by (auto simp: header_ok_def txn_ok_def txn_blk_def inj_on_def dest: spec [of _ "?n - 1"])
    have "d (log_blk l i) = v_blk v (lh_block (l_lh l) i)" if "i < ?n" for i
    proof -
      have "log_blk l i \<in> log_area l" using x that log_area_simps(2) by (simp add: txn_ok_def txn_blk_def)
      then have "d (log_blk l i) = d1 (log_blk l i)" using take_home_writes(2) [OF x] by (simp add: d)
      also have "\<dots> = v_blk v (lh_block (l_lh l) i)"
        using log_writes_home [OF x, of "v_blk v" ?H1 "v_disk v"] that by (simp add: home_writes_def d1_def)
      finally show ?thesis .
    qed
    then have "map (\<lambda>i. (header_block ?H1 i, d (log_blk l i))) [0..<?n] = ?W3"
      unfolding home_writes_def using hd(2) by (intro map_cong) auto
    then have "replay l d = apply_writes ?W3 d" using hd(1) by (simp add: replay_def h Let_def)
    then have "replay l d = (\<lambda>y. if y \<in> txn_set l then v_blk v y else d y)" using apply_home [OF x, of "v_blk v"] by simp
    moreover have "d y = d1 y" if "y \<notin> txn_set l" for y
      using take_home_writes(1) [OF x, of j "\<lambda>i. v_blk v (lh_block (l_lh l) i)" d1 y] that by (simp add: d)
    ultimately have "same_home l (replay l d) (committed l v)"
      using home by (simp add: same_home_def committed_def)
    then show ?thesis using ho by (simp add: h)
  next
    case False
    then have "take k (commit_writes l v) = commit_writes l v" by (simp add: commit_writes_def len)
    then have d: "d = (apply_writes ?W3 d1)(l_start l := ?H2)" by (simp add: d_def d1_def commit_writes_def)
    have h: "header_n (d (l_start l)) = 0" using header_put(1) [of "l_lh (erased l)" ?H1] by (simp add: d header_n_def)
    have "same_home l d (committed l v)"
      using home st by (auto simp: same_home_def committed_def d apply_home [OF x, of "v_blk v"])
    then show ?thesis using h sz by (simp add: header_ok_def replay_def Let_def)
  qed
  then show "header_ok l (d (l_start l))" "same_home l (replay l d) (committed l v)" by blast+
qed

end
