(* ===== verification/Log_Txn.thy ===== *)
theory Log_Txn
  imports Log
begin

text \<open>
  Transactions of src/kernel/log.c: what \<open>log_write\<close>, \<open>begin_op\<close> and \<open>end_op\<close> do together, and the
  properties of the log.
\<close>

section \<open>Recording a block\<close>

lemma log_find_spec:
  assumes "i \<le> n"
  shows "i \<le> log_find f bn n i \<and> log_find f bn n i \<le> n \<and> (log_find f bn n i < n \<longrightarrow> f (log_find f bn n i) = bn) \<and>
    (\<forall>j. i \<le> j \<and> j < log_find f bn n i \<longrightarrow> f j \<noteq> bn)"
  using assms
proof (induction f bn n i rule: log_find.induct)
  case (1 f bn n i)
  show ?case
  proof (cases "i < n \<and> f i \<noteq> bn")
    case True
    have e: "log_find f bn n i = log_find f bn n (i + 1)" using True by (subst log_find.simps) simp
    have ih: "i + 1 \<le> log_find f bn n (i + 1) \<and> log_find f bn n (i + 1) \<le> n \<and>
        (log_find f bn n (i + 1) < n \<longrightarrow> f (log_find f bn n (i + 1)) = bn) \<and>
        (\<forall>j. i + 1 \<le> j \<and> j < log_find f bn n (i + 1) \<longrightarrow> f j \<noteq> bn)"
      using 1 True by simp
    have "f j \<noteq> bn" if "i \<le> j" "j < log_find f bn n (i + 1)" for j
      using ih that True by (cases "j = i") auto
    then show ?thesis using ih by (auto simp: e)
  next
    case False
    then have "log_find f bn n i = i" by (subst log_find.simps) auto
    then show ?thesis using False 1(2) by auto
  qed
qed

lemma of_nat_sint: "0 \<le> sint (x :: u32) \<Longrightarrow> of_nat (nat (sint x)) = x"
  by (simp add: of_nat_nat)

lemma log_find_txn:
  fixes bn
  assumes "0 \<le> sint (lh_n (l_lh l))"
  defines "r \<equiv> log_find (lh_block (l_lh l)) bn (txn_n l) 0"
  shows "bn \<in> txn_set l \<Longrightarrow> r < txn_n l \<and> lh_block (l_lh l) r = bn \<and> of_nat r \<noteq> lh_n (l_lh l)"
    "bn \<notin> txn_set l \<Longrightarrow> r = txn_n l \<and> of_nat r = lh_n (l_lh l)"
proof -
  note sp = log_find_spec [OF le0, of "lh_block (l_lh l)" bn "txn_n l", folded r_def]
  have n: "of_nat (txn_n l) = lh_n (l_lh l)" using of_nat_sint [OF assms(1)] by (simp add: txn_n_def)
  {
    assume "bn \<in> txn_set l"
    then obtain j where j: "j < txn_n l" "lh_block (l_lh l) j = bn" by (auto simp: txn_set_def)
    have r: "r < txn_n l"
    proof (rule ccontr)
      assume "\<not> r < txn_n l"
      then have "j < r" using j(1) by simp
      then show False using sp j(2) by blast
    qed
    have "txn_n l < 2 ^ 32" using sint_lt [of "lh_n (l_lh l)"] by (simp add: txn_n_def)
    then have "(of_nat r :: u32) \<noteq> of_nat (txn_n l)" using r by (simp add: word_unat_eq_iff unat_of_nat)
    then show "r < txn_n l \<and> lh_block (l_lh l) r = bn \<and> of_nat r \<noteq> lh_n (l_lh l)" using r sp n by simp
  next
    assume "bn \<notin> txn_set l"
    then have "r = txn_n l" using sp by (auto simp: txn_set_def)
    then show "r = txn_n l \<and> of_nat r = lh_n (l_lh l)" using n by simp
  }
qed

text \<open>The log after block \<open>bn\<close> is recorded.\<close>

definition recorded :: "u32 \<Rightarrow> log_struct \<Rightarrow> log_struct" where
  "recorded bn l = (if bn \<in> txn_set l then l
     else l\<lparr>l_lh := (l_lh l)\<lparr>lh_n := lh_n (l_lh l) + 1, lh_block := (lh_block (l_lh l))(txn_n l := bn)\<rparr>\<rparr>)"

lemma bpin_run: "BcacheLock \<notin> held s \<Longrightarrow>
    bpin i s = Ret () (s\<lparr>bufs := (bufs s)(i := (bufs s i)\<lparr>b_refcnt := b_refcnt (bufs s i) + 1\<rparr>)\<rparr>)"
  by (cases s) (simp add: bpin_def kexec buf_defs)

lemma log_write_exec:
  fixes s :: "'z klog_scheme"
  assumes ok: "cache_ok s" and l: "log_st s = l" and i: "slot s bn = Some i" and r: "v_refs (cview s) bn > 0" "v_refs (cview s) bn + 1 < 2 ^ 32"
    and n: "0 \<le> sint (lh_n (l_lh l))" "txn_n l < LOGSIZE" "int (txn_n l) < sint (l_size l - 1)" and o1: "1 \<le> sint (l_outstanding l)"
  shows "\<exists>u. log_write i s = Ret () (u\<lparr>log_st := recorded bn l\<rparr>) \<and> cstep s u \<and>
    cview u = (if bn \<in> txn_set l then cview s else v_pin bn (cview s))"
proof -
  have h: "held s = {}" using ok by (simp add: cache_ok_def)
  have bn: "b_blockno (bufs s i) = bn" using i slot_iff [OF ok] by simp
  have np: "\<not> (sint (lh_n (l_lh l)) \<ge> int LOGSIZE \<or> sint (lh_n (l_lh l)) \<ge> sint (l_size l - 1))" "\<not> sint (l_outstanding l) < 1"
    using n o1 by (simp_all add: txn_n_def)
  define k where "k = log_find (lh_block (l_lh l)) bn (txn_n l) 0"
  note fnd = log_find_txn [OF n(1), of bn, folded k_def]
  have step: "log_write i s = (case kthen (set_lh_block k bn) (kwhen (of_nat k = lh_n (l_lh l)) (kthen (bpin i) (set_lh_n (lh_n (l_lh l) + 1))))
      (s\<lparr>held := {LogLock}\<rparr>) of Ret _ t \<Rightarrow> kunlock LogLock t | Panic e \<Rightarrow> Panic e | Sleep t \<Rightarrow> Sleep t | Diverge \<Rightarrow> Diverge)"
    using h l bn np by (simp add: log_write_def kexec get_log_exec get_buf_def Let_def k_def txn_n_def split: outcome.split)
  show ?thesis
  proof (cases "bn \<in> txn_set l")
    case True
    then have k: "k < LOGSIZE" "(lh_block (l_lh l))(k := bn) = lh_block (l_lh l)" "of_nat k \<noteq> lh_n (l_lh l)"
      using fnd(1) n(2) by auto
    have "log_write i s = Ret () (s\<lparr>log_st := l\<rparr>)"
      unfolding step using k h l by (cases s) (simp add: kexec set_lh_block_def set_log_def)
    then show ?thesis using True ok l by (intro exI [of _ s]) (simp add: recorded_def cstep_def)
  next
    case False
    obtain u where u: "bpin i s = Ret () u" "cstep s u" "cview u = v_pin bn (cview s)"
      using bcache.pin_law [OF ok i r] by blast
    have "log_write i s = Ret () (u\<lparr>log_st := recorded bn l\<rparr>)"
      unfolding step using fnd(2) [OF False] n(2) h l False u(1) bpin_run [of s i]
      by (cases s) (auto simp: kexec set_lh_block_def set_lh_n_def set_log_def recorded_def bpin_run)
    then show ?thesis using u False by auto
  qed
qed

section \<open>The invariant of a transaction\<close>

text \<open>
  Between two operations of the running process: the blocks of the transaction are pinned once, no other
  block is referenced, and the log on the disk is empty.
\<close>

definition txn_inv :: "'z klog_scheme \<Rightarrow> bool" where
  "txn_inv s \<longleftrightarrow> cache_ok s \<and> txn_ok (log_st s) (cview s) \<and> 0 \<le> sint (lh_n (l_lh (log_st s))) \<and>
     sint (l_size (log_st s)) \<le> int LOGSIZE \<and> v_busy (cview s) = {} \<and>
     v_refs (cview s) = (\<lambda>y. if y \<in> txn_set (log_st s) then 1 else 0) \<and>
     header_n (v_disk (cview s) (l_start (log_st s))) = 0"

lemma sint_dec: "0 < sint (x :: u32) \<Longrightarrow> sint (x - 1) = sint x - 1"
  using sint_lt [of x] by (simp add: sint_word_ariths signed_take_bit_int_eq_self)

lemma sint_inc: "0 \<le> sint (x :: u32) \<Longrightarrow> sint x < 100 \<Longrightarrow> sint (x + 1) = sint x + 1"
  by (simp add: sint_word_ariths signed_take_bit_int_eq_self)

lemma recorded_simps [simp]:
  "l_dev (recorded bn l) = l_dev l" "l_start (recorded bn l) = l_start l" "l_size (recorded bn l) = l_size l"
  "l_outstanding (recorded bn l) = l_outstanding l" "l_committing (recorded bn l) = l_committing l"
  "log_area (recorded bn l) = log_area l"
  by (simp_all add: recorded_def log_area_def)

lemma recorded_txn:
  assumes "0 \<le> sint (lh_n (l_lh l))" "txn_n l < LOGSIZE"
  shows "txn_set (recorded bn l) = insert bn (txn_set l)" "txn_n (recorded bn l) = (if bn \<in> txn_set l then txn_n l else Suc (txn_n l))"
    "0 \<le> sint (lh_n (l_lh (recorded bn l)))"
proof -
  have n: "sint (lh_n (l_lh l) + 1) = sint (lh_n (l_lh l)) + 1"
    using assms by (intro sint_inc) (auto simp: txn_n_def)
  show k: "txn_n (recorded bn l) = (if bn \<in> txn_set l then txn_n l else Suc (txn_n l))"
    using n assms(1) by (simp add: recorded_def txn_n_def Suc_nat_eq_nat_zadd1 add.commute)
  show "0 \<le> sint (lh_n (l_lh (recorded bn l)))" using n assms(1) by (simp add: recorded_def)
  show "txn_set (recorded bn l) = insert bn (txn_set l)"
  proof (cases "bn \<in> txn_set l")
    case False
    then have "txn_set (recorded bn l) = (lh_block (l_lh l))(txn_n l := bn) ` {..<Suc (txn_n l)}"
      unfolding txn_set_def k using False by (simp add: recorded_def txn_set_def)
    also have "\<dots> = insert bn (txn_set l)" by (auto simp: lessThan_Suc txn_set_def)
    finally show ?thesis .
  qed (auto simp: recorded_def)
qed

lemma txn_card: "txn_ok l v \<Longrightarrow> card (txn_set l) = txn_n l"
  by (simp add: txn_set_def txn_ok_def card_image)

lemma txn_ok_recorded:
  assumes x: "txn_ok l v" and n: "0 \<le> sint (lh_n (l_lh l))" "int (txn_n l) + 1 < sint (l_size l)" "sint (l_size l) \<le> int LOGSIZE"
    and bn: "bn \<notin> log_area l" and v: "v_busy w = {}" "v_refs w = (\<lambda>y. if y \<in> insert bn (txn_set l) then 1 else 0)"
  shows "txn_ok (recorded bn l) w"
proof -
  have nl: "txn_n l < LOGSIZE" using n by simp
  have lb: "lh_block (l_lh (recorded bn l)) i = lh_block (l_lh l) i" if "i < txn_n l" for i
    using that by (simp add: recorded_def)
  have ln: "bn \<notin> txn_set l \<Longrightarrow> lh_block (l_lh (recorded bn l)) (txn_n l) = bn" by (simp add: recorded_def)
  have blk: "txn_blk (recorded bn l) w i" if "i < txn_n (recorded bn l)" for i
  proof (cases "i < txn_n l")
    case True
    then show ?thesis using x lb v unfolding txn_ok_def txn_blk_def by auto
  next
    case False
    then have "i = txn_n l" "bn \<notin> txn_set l" using that recorded_txn(2) [OF n(1) nl, of bn] by (auto split: if_splits)
    then show ?thesis using ln n bn v by (auto simp: txn_blk_def)
  qed
  have inj: "inj_on (lh_block (l_lh (recorded bn l))) {..<txn_n (recorded bn l)}"
  proof (cases "bn \<in> txn_set l")
    case True
    then show ?thesis using x by (simp add: recorded_def txn_ok_def)
  next
    case False
    have "inj_on (lh_block (l_lh (recorded bn l))) {..<txn_n l}" using x lb by (simp add: txn_ok_def inj_on_def)
    moreover have "bn \<notin> lh_block (l_lh (recorded bn l)) ` {..<txn_n l}" using False lb by (auto simp: txn_set_def)
    ultimately show ?thesis using False ln by (simp add: recorded_txn(2) [OF n(1) nl] lessThan_Suc)
  qed
  have "{y. v_refs w y > 0} = insert bn (txn_set l)" unfolding v(2) by auto
  then have "card {y. v_refs w y > 0} = card (insert bn (txn_set l))" by (rule arg_cong)
  also have "\<dots> \<le> Suc (txn_n l)" using txn_card [OF x] by (simp add: card_insert_if txn_set_def)
  finally have "card {y. v_refs w y > 0} < NBUF" using n by simp
  then have "log_free (recorded bn l) w"
    using txn_area [OF x] bn v by (auto simp: log_free_def)
  then show ?thesis using x blk inj by (simp add: txn_ok_def)
qed

text \<open>The use of the log that src/kernel/log.c describes above \<open>log_write\<close>: read a block, change it, record it, release it.\<close>

definition log_update :: "u32 \<Rightarrow> (block \<Rightarrow> block) \<Rightarrow> (unit, 'z klog_scheme) kop" where
  "log_update bn f = kbind (bread ROOTDEV bn) (\<lambda>i. kseq [
     set_buf i (\<lambda>x. x\<lparr>b_data := f (b_data x)\<rparr>),
     log_write i,
     brelse i])"

lemma cview_logD: "bio_frame s t \<Longrightarrow> bio_frame (s\<lparr>log_st := x\<rparr>) (t\<lparr>log_st := x\<rparr>)"
  by (cases s, cases t) (simp add: bio_frame_def)

lemma slot_log [simp]: "slot (s\<lparr>log_st := x\<rparr>) = slot s"
  by (rule same_slots) simp_all

lemma log_update_exec:
  fixes s :: "'z klog_scheme"
  assumes inv: "txn_inv s" and l: "log_st s = l" and o1: "1 \<le> sint (l_outstanding l)"
    and bn: "bn \<notin> log_area l" and n: "int (txn_n l) + 1 < sint (l_size l)"
  shows "\<exists>t. log_update bn f s = Ret () t \<and> txn_inv t \<and> log_st t = recorded bn l \<and> bio_frame (s\<lparr>log_st := recorded bn l\<rparr>) t \<and>
    v_blk (cview t) = (v_blk (cview s))(bn := f (v_blk (cview s) bn)) \<and> v_disk (cview t) = v_disk (cview s) \<and>
    v_writes (cview t) = v_writes (cview s)"
proof -
  note I = inv [unfolded txn_inv_def l]
  let ?v = "cview s" and ?r = "recorded bn l"
  have nl: "txn_n l < LOGSIZE" "int (txn_n l) < sint (l_size l - 1)" using n I sint_dec [of "l_size l"] by auto
  have "v_room bn ?v" using I unfolding v_room_def txn_ok_def log_free_def by blast
  then have "v_ready bn ?v" using I by (simp add: v_ready_def)
  then obtain i s1 where s1: "bread ROOTDEV bn s = Ret i s1" "cstep s s1" "slot s1 bn = Some i" "cview s1 = v_take bn ?v"
    using bcache.rd_law I by blast
  have ok1: "cache_ok s1" "log_st s1 = l" using s1(2) frame_log [of s s1] l by (auto simp: cstep_def)
  obtain s2 where s2: "set_buf i (\<lambda>x. x\<lparr>b_data := f (b_data x)\<rparr>) s1 = Ret () s2" "cstep s1 s2"
      "cview s2 = v_store bn (f (v_blk ?v bn)) (v_take bn ?v)"
    using bcache.store_law [OF ok1(1) s1(3), of f] s1(4) by (auto simp: v_defs)
  have ok2: "cache_ok s2" "log_st s2 = l" "slot s2 bn = Some i"
    using s2(2) frame_log [of s1 s2] ok1(2) s1(3,4) by (auto simp: cstep_def v_defs)
  have r2: "v_refs (cview s2) bn = (if bn \<in> txn_set l then 2 else 1)" using s2(3) I by (simp add: v_defs)
  obtain u where u: "log_write i s2 = Ret () (u\<lparr>log_st := ?r\<rparr>)" "cstep s2 u"
      "cview u = (if bn \<in> txn_set l then cview s2 else v_pin bn (cview s2))"
    using log_write_exec [OF ok2(1,2,3)] r2 I nl o1 by (cases "bn \<in> txn_set l") auto
  have oku: "cache_ok u" "slot u bn = Some i" using u(2) ok2(3) r2 by (auto simp: cstep_def split: if_splits)
  have ru: "v_refs (cview u) bn = 2" "bn \<in> v_busy (cview u)" using u(3) r2 s2(3) by (simp_all add: v_defs)
  obtain t where t: "brelse i (u\<lparr>log_st := ?r\<rparr>) = Ret () t" "cstep (u\<lparr>log_st := ?r\<rparr>) t" "cview t = v_drop bn (cview u)"
    using bcache.rel_law [of "u\<lparr>log_st := ?r\<rparr>" bn i] oku ru by auto
  have ex: "log_update bn f s = Ret () t" using s1(1) s2(1) u(1) t(1) by (simp add: log_update_def kexec)
  have lt: "log_st t = ?r" "cache_ok t" using frame_log [of "u\<lparr>log_st := ?r\<rparr>" t] t(2) by (auto simp: cstep_def)
  have V: "v_refs (cview t) = (\<lambda>y. if y \<in> insert bn (txn_set l) then 1 else 0)" "v_busy (cview t) = {}"
      "v_blk (cview t) = (v_blk ?v)(bn := f (v_blk ?v bn))" "v_disk (cview t) = v_disk ?v" "v_writes (cview t) = v_writes ?v"
    using t(3) u(3) s2(3) I by (auto simp: v_defs fun_eq_iff)
  have "bio_frame s u" using s1(2) s2(2) u(2) bio_frame_trans unfolding cstep_def by blast
  then have fr: "bio_frame (s\<lparr>log_st := ?r\<rparr>) t"
    using bio_frame_trans [OF cview_logD] t(2) unfolding cstep_def by blast
  have "txn_ok ?r (cview t)"
    using txn_ok_recorded [of l ?v, OF _ _ n _ bn V(2,1)] I by simp
  then have "txn_inv t"
    using I lt V recorded_txn [of l bn] nl(1) by (simp add: txn_inv_def)
  then show ?thesis using ex lt fr V by blast
qed

section \<open>Beginning and ending an operation\<close>

definition upd_blocks :: "(u32 \<times> (block \<Rightarrow> block)) list \<Rightarrow> (u32 \<Rightarrow> block) \<Rightarrow> (u32 \<Rightarrow> block)" where
  "upd_blocks us d = fold (\<lambda>(b, f) d. d(b := f (d b))) us d"

lemma log_updates_exec:
  fixes s :: "'z klog_scheme"
  assumes "txn_inv s" "log_st s = l" "1 \<le> sint (l_outstanding l)" "fst ` set us \<inter> log_area l = {}"
    "int (txn_n l) + int (length us) < sint (l_size l)"
  shows "\<exists>t. kfor us (\<lambda>(b, f). log_update b f) s = Ret () t \<and> txn_inv t \<and>
    bio_frame (s\<lparr>log_st := log_st t\<rparr>) t \<and> log_area (log_st t) = log_area l \<and> txn_set (log_st t) = fst ` set us \<union> txn_set l \<and>
    (\<exists>h. log_st t = l\<lparr>l_lh := h\<rparr>) \<and>
    v_blk (cview t) = upd_blocks us (v_blk (cview s)) \<and> v_disk (cview t) = v_disk (cview s) \<and> v_writes (cview t) = v_writes (cview s)"
  using assms
proof (induction us arbitrary: s l)
  case Nil
  then show ?case by (auto simp: kexec upd_blocks_def intro: exI [of _ "l_lh l"])
next
  case (Cons u us)
  obtain b f where u: "u = (b, f)" by (cases u)
  have inv: "0 \<le> sint (lh_n (l_lh l))" "txn_n l < LOGSIZE"
    using Cons.prems(1,2,5) by (auto simp: txn_inv_def)
  have "b \<notin> log_area l" "int (txn_n l) + 1 < sint (l_size l)" using Cons.prems(4,5) by (auto simp: u)
  then obtain s1 where s1: "log_update b f s = Ret () s1" "txn_inv s1" "log_st s1 = recorded b l" "bio_frame (s\<lparr>log_st := recorded b l\<rparr>) s1"
      "v_blk (cview s1) = (v_blk (cview s))(b := f (v_blk (cview s) b))" "v_disk (cview s1) = v_disk (cview s)"
      "v_writes (cview s1) = v_writes (cview s)"
    using log_update_exec [OF Cons.prems(1,2,3)] by blast
  have p: "1 \<le> sint (l_outstanding (recorded b l))" "fst ` set us \<inter> log_area (recorded b l) = {}"
      "int (txn_n (recorded b l)) + int (length us) < sint (l_size (recorded b l))"
    using Cons.prems(3-5) recorded_txn(2) [OF inv, of b] by (auto split: if_splits)
  obtain t h where t: "kfor us (\<lambda>(b, f). log_update b f) s1 = Ret () t" "txn_inv t" "bio_frame (s1\<lparr>log_st := log_st t\<rparr>) t"
      "log_area (log_st t) = log_area (recorded b l)" "txn_set (log_st t) = fst ` set us \<union> txn_set (recorded b l)"
      "log_st t = (recorded b l)\<lparr>l_lh := h\<rparr>"
      "v_blk (cview t) = upd_blocks us (v_blk (cview s1))" "v_disk (cview t) = v_disk (cview s1)" "v_writes (cview t) = v_writes (cview s1)"
    using Cons.IH [OF s1(2,3) p] by blast
  have "bio_frame (s\<lparr>log_st := log_st t\<rparr>) t"
    using bio_frame_trans [OF cview_logD [OF s1(4), of "log_st t"]] t(3) by simp
  moreover have "\<exists>h. log_st t = l\<lparr>l_lh := h\<rparr>" using t(6) by (cases "b \<in> txn_set l") (auto simp: recorded_def)
  ultimately show ?case
    using s1 t recorded_txn(1) [OF inv, of b] by (simp add: u kexec upd_blocks_def)
qed

lemma begin_op_exec:
  assumes "held s = {}" "l_committing (log_st s) = 0"
    "sint (lh_n (l_lh (log_st s)) + (l_outstanding (log_st s) + 1) * of_nat MAXOPBLOCKS) \<le> int LOGSIZE"
  shows "begin_op s = Ret () (s\<lparr>log_st := (log_st s)\<lparr>l_outstanding := l_outstanding (log_st s) + 1\<rparr>\<rparr>)"
  using assms by (cases s) (simp add: begin_op_def begin_op_loop_def kexec get_log_exec set_log_def)

lemma woken_pid [simp]: "p_pid (woken c P pt p) = p_pid (pt p)"
  by (simp add: woken_def)

lemma woken_awake: "\<not> (p < NPROC \<and> p_state (woken c {..<NPROC} pt p) = SLEEPING \<and> p_chan (woken c {..<NPROC} pt p) = Some c)"
  by (auto simp: woken_def)

lemma cache_ok_woken [simp]: "cache_ok (s\<lparr>ptable := woken c P pt\<rparr>) = cache_ok (s\<lparr>ptable := pt\<rparr>)"
  by (simp add: cache_ok_def buf_ok_def slock_free_def slock_mine_def)

lemma cview_ptable [simp]: "cview (s\<lparr>ptable := x\<rparr>) = cview s"
  by (rule cview_cong) simp_all

text \<open>The last operation of a transaction commits it.\<close>

lemma end_op_exec:
  fixes s :: "'z klog_scheme"
  assumes h: "held s = {}" and l: "l_outstanding (log_st s) = 1" "l_committing (log_st s) = 0"
    and c: "commit (s\<lparr>log_st := (log_st s)\<lparr>l_outstanding := 0, l_committing := 1\<rparr>\<rparr>) = Ret () t" and t: "held t = {}"
  shows "end_op s = Ret () (t\<lparr>log_st := (log_st t)\<lparr>l_committing := 0\<rparr>, ptable := woken ChanLog {..<NPROC} (ptable t)\<rparr>)"
  using assms
  by (cases s, cases t) (simp add: end_op_def kexec get_log_exec set_log_def)

section \<open>Atomicity\<close>

text \<open>No operation is running.\<close>

definition log_idle :: "'z klog_scheme \<Rightarrow> bool" where
  "log_idle s \<longleftrightarrow> txn_inv s \<and> lh_n (l_lh (log_st s)) = 0 \<and> l_outstanding (log_st s) = 0 \<and> l_committing (log_st s) = 0"

lemma counters [simp]:
  "txn_ok (l\<lparr>l_outstanding := x\<rparr>) v = txn_ok l v" "txn_ok (l\<lparr>l_committing := x\<rparr>) v = txn_ok l v"
  "txn_set (l\<lparr>l_outstanding := x\<rparr>) = txn_set l" "txn_set (l\<lparr>l_committing := x\<rparr>) = txn_set l"
  "txn_n (l\<lparr>l_outstanding := x\<rparr>) = txn_n l" "txn_n (l\<lparr>l_committing := x\<rparr>) = txn_n l"
  "log_area (l\<lparr>l_outstanding := x\<rparr>) = log_area l" "log_area (l\<lparr>l_committing := x\<rparr>) = log_area l"
  by (simp_all add: txn_ok_def txn_blk_def log_free_def log_area_def txn_n_def txn_set_def)

lemma txn_inv_clean:
  assumes "txn_inv s" "y \<notin> txn_set (log_st s)" shows "v_blk (cview s) y = v_disk (cview s) y"
  using assms by (intro cache_clean) (simp_all add: txn_inv_def)

lemma idle_clean: "log_idle s \<Longrightarrow> v_blk (cview s) = v_disk (cview s)"
  using txn_inv_clean by (fastforce simp: log_idle_def txn_set_def txn_n_def)

lemma txn_n_less: "txn_inv s \<Longrightarrow> txn_n (log_st s) < NBUF"
proof -
  assume i: "txn_inv s"
  then have eq: "{y. v_refs (cview s) y > 0} = txn_set (log_st s)" by (auto simp: txn_inv_def)
  have ok: "txn_ok (log_st s) (cview s)" using i unfolding txn_inv_def by blast
  then have "card {y. v_refs (cview s) y > 0} < NBUF" unfolding txn_ok_def log_free_def by blast
  then show ?thesis unfolding eq txn_card [OF ok] .
qed

text \<open>What \<open>end_op\<close> does when it is the last one: the transaction is written, and the log is idle again.\<close>

lemma end_op_commits:
  fixes s :: "'z klog_scheme"
  assumes inv: "txn_inv s" and l: "log_st s = l" "l_outstanding l = 1" "l_committing l = 0"
  defines "ws \<equiv> if txn_n l = 0 then [] else commit_writes l (cview s)"
  shows "\<exists>t. end_op s = Ret () t \<and> log_idle t \<and> l_start (log_st t) = l_start l \<and> l_size (log_st t) = l_size l \<and>
    cview t = v_dec (txn_set l) (v_writes_of ws (cview s)) \<and>
    (\<forall>p < NPROC. \<not> (p_state (ptable t p) = SLEEPING \<and> p_chan (ptable t p) = Some ChanLog))"
proof -
  note I = inv [unfolded txn_inv_def l]
  let ?l = "l\<lparr>l_outstanding := 0, l_committing := 1\<rparr>"
  let ?s = "s\<lparr>log_st := ?l\<rparr>"
  have h: "held s = {}" using I by (simp add: cache_ok_def)
  have cw: "commit_writes ?l v = commit_writes l v" for v
    by (simp add: commit_writes_def log_writes_def home_writes_def txn_n_def log_blk_def erased_def)
  have "\<exists>t. commit ?s = Ret () t \<and> cache_ok t \<and> bio_frame (?s\<lparr>log_st := erased ?l\<rparr>) t \<and> cview t = v_dec (txn_set l) (v_writes_of ws (cview s))"
  proof (cases "txn_n l = 0")
    case True
    then have "lh_n (l_lh l) = 0" using I of_nat_sint [of "lh_n (l_lh l)"] by (simp add: txn_n_def)
    then have "erased ?l = ?l" by (simp add: erased_def)
    moreover have "commit ?s = Ret () ?s" using True by (simp add: commit_def get_log_exec kexec txn_n_def)
    moreover have "txn_set l = {}" using True by (simp add: txn_set_def)
    then have "v_dec (txn_set l) (v_writes_of ws (cview s)) = cview s" using True by (simp add: ws_def v_writes_of_def v_dec_def)
    ultimately show ?thesis using I by simp
  next
    case False
    then show ?thesis using commit_exec [of ?s ?l] I cw by (simp add: ws_def)
  qed
  then obtain t where t: "commit ?s = Ret () t" "cache_ok t" "bio_frame (?s\<lparr>log_st := erased ?l\<rparr>) t"
      "cview t = v_dec (txn_set l) (v_writes_of ws (cview s))" by blast
  define u where "u = t\<lparr>log_st := (log_st t)\<lparr>l_committing := 0\<rparr>, ptable := woken ChanLog {..<NPROC} (ptable t)\<rparr>"
  have e: "end_op s = Ret () u"
    unfolding u_def using t(1,2) l by (intro end_op_exec [OF h]) (simp_all add: cache_ok_def)
  have lu: "log_st u = (erased ?l)\<lparr>l_committing := 0\<rparr>" using frame_log [OF t(3)] by (simp add: u_def)
  have cu: "cview u = cview t" "cache_ok u" using t(2) by (simp_all add: u_def)
  have refs: "v_refs (cview u) = (\<lambda>_. 0)" "v_busy (cview u) = {}"
    using I by (auto simp: cu t(4) v_dec_def v_writes_of_def fun_eq_iff)
  have hd: "header_n (v_disk (cview u) (l_start l)) = 0"
    using I header_put(1) [of "l_lh (erased l)"]
    by (auto simp: cu t(4) v_dec_def v_writes_of_def ws_def commit_writes_def header_n_def)
  have "txn_ok (log_st u) (cview u)"
    using I refs unfolding lu by (auto simp: txn_ok_def log_free_def txn_n_def log_area_def erased_def)
  then have "log_idle u"
    using I cu(2) refs hd unfolding lu log_idle_def txn_inv_def
    by (auto simp: erased_def txn_set_def txn_n_def fun_eq_iff)
  then show ?thesis using e t(4) cu(1) lu woken_awake by (auto simp: erased_def u_def)
qed

lemma crash_recovers:
  assumes inv: "txn_inv s" and l: "log_st s = l" and k: "k \<le> length (commit_writes l (cview s))"
    and b: "boots l (apply_writes (take k (commit_writes l (cview s))) (v_disk (cview s))) b"
  shows "\<exists>u. recover_from_log b = Ret () u \<and>
    same_home l (disk u) (if k \<le> txn_n l then v_disk (cview s) else committed l (cview s))"
proof -
  note I = inv [unfolded txn_inv_def l]
  let ?d = "apply_writes (take k (commit_writes l (cview s))) (v_disk (cview s))"
  have "header_ok l (?d (l_start l)) \<and> same_home l (replay l ?d) (if k \<le> txn_n l then v_disk (cview s) else committed l (cview s))"
    using crash_before [of l "cview s" k] crash_after [of l "cview s" k] I k txn_n_less [OF inv] l by auto
  then show ?thesis using recover_replay [OF b] by (auto simp: same_home_def)
qed

lemma committed_all: "txn_inv s \<Longrightarrow> committed (log_st s) (cview s) = v_blk (cview s)"
  using txn_inv_clean [of s] by (auto simp: committed_def fun_eq_iff)

lemma commit_home:
  assumes "txn_ok l v" "txn_n l < NBUF" shows "same_home l (apply_writes (commit_writes l v) (v_disk v)) (committed l v)"
proof -
  let ?d = "apply_writes (commit_writes l v) (v_disk v)"
  have "header_n (?d (l_start l)) = 0"
    using header_put(1) [of "l_lh (erased l)"] by (simp add: commit_writes_def header_n_def)
  then have "replay l ?d = ?d" by (simp add: replay_def)
  then show ?thesis
    using crash_after(2) [OF assms, of "length (commit_writes l v)"] by (simp add: commit_writes_def log_writes_def)
qed

definition fs_op :: "(u32 \<times> (block \<Rightarrow> block)) list \<Rightarrow> (unit, 'z klog_scheme) kop" where
  "fs_op us = kseq [begin_op, kfor us (\<lambda>(b, f). log_update b f), end_op]"

text \<open>
  C1: a file system operation is atomic, also when the machine crashes. An operation that begins when none
  is running, updates at most \<open>MAXOPBLOCKS\<close> blocks through the log and ends, returns with all the updates
  on the disk and the log idle; and from the disk as any prefix of its block writes leaves it, the recovery
  at the next boot makes the blocks outside the log either all what they were before the operation or
  all what they are after it.
\<close>

theorem transaction_atomic:
  fixes s :: "'z klog_scheme" and us
  assumes idle: "log_idle s" and us: "length us \<le> MAXOPBLOCKS" "int (length us) < sint (l_size (log_st s))"
    and area: "fst ` set us \<inter> log_area (log_st s) = {}"
  shows "\<exists>t ws. fs_op us s = Ret () t \<and> log_idle t \<and> dwrites t = dwrites s @ ws \<and> disk t = apply_writes ws (disk s) \<and>
    same_home (log_st s) (disk t) (upd_blocks us (disk s)) \<and>
    (\<forall>k \<le> length ws. \<forall>b :: 'z klog_scheme. boots (log_st s) (apply_writes (take k ws) (disk s)) b \<longrightarrow>
      (\<exists>u. recover_from_log b = Ret () u \<and>
        (same_home (log_st s) (disk u) (disk s) \<or> same_home (log_st s) (disk u) (upd_blocks us (disk s)))))"
proof -
  define l where "l = log_st s"
  note I = idle [unfolded log_idle_def txn_inv_def, folded l_def]
  let ?l1 = "l\<lparr>l_outstanding := 1\<rparr>" and ?s1 = "s\<lparr>log_st := l\<lparr>l_outstanding := 1\<rparr>\<rparr>"
  have ds: "disk x = v_disk (cview x)" "dwrites x = v_writes (cview x)" for x :: "'z klog_scheme" by (simp_all add: cview_def)
  have b: "begin_op s = Ret () ?s1"
    using begin_op_exec [of s] I by (simp add: l_def cache_ok_def)
  have "txn_inv ?s1" using I by (simp add: txn_inv_def)
  moreover have "txn_n l = 0" "txn_set l = {}" using I by (simp_all add: txn_n_def txn_set_def)
  ultimately obtain s2 h where s2: "kfor us (\<lambda>(b, f). log_update b f) ?s1 = Ret () s2" "txn_inv s2" "log_area (log_st s2) = log_area l"
      "log_st s2 = ?l1\<lparr>l_lh := h\<rparr>" "v_blk (cview s2) = upd_blocks us (v_blk (cview s))" "v_disk (cview s2) = v_disk (cview s)"
      "v_writes (cview s2) = v_writes (cview s)"
    using log_updates_exec [of ?s1 ?l1 us] us area by (auto simp: l_def)
  define l2 where "l2 = log_st s2"
  have l2: "l_outstanding l2 = 1" "l_committing l2 = 0" "l_start l2 = l_start l" "l_size l2 = l_size l"
    using I s2(4) by (simp_all add: l2_def)
  define ws where "ws = (if txn_n l2 = 0 then [] else commit_writes l2 (cview s2))"
  obtain t where t: "end_op s2 = Ret () t" "log_idle t" "cview t = v_dec (txn_set l2) (v_writes_of ws (cview s2))"
    using end_op_commits [OF s2(2) l2_def [symmetric] l2(1,2)] by (auto simp: ws_def)
  have sh: "same_home l2 = same_home l" using s2(3) by (simp add: same_home_def fun_eq_iff l2_def)
  have bt: "boots l d x = boots l2 d x" for d and x :: "'z klog_scheme" using l2 by (simp add: boots_def)
  have new: "committed l2 (cview s2) = upd_blocks us (disk s)"
    using committed_all [OF s2(2)] s2(5) idle_clean [OF idle] by (simp add: l2_def ds)
  have crash: "\<exists>u. recover_from_log x = Ret () u \<and> (same_home l (disk u) (disk s) \<or> same_home l (disk u) (upd_blocks us (disk s)))"
    if k: "k \<le> length ws" and x: "boots l (apply_writes (take k ws) (disk s)) x" for k and x :: "'z klog_scheme"
  proof (cases "txn_n l2 = 0")
    case True
    have "header_ok l (disk s (l_start l))" using I by (simp add: header_ok_def ds txn_ok_def)
    moreover have "replay l (disk s) = disk s" using I by (simp add: replay_def ds)
    ultimately show ?thesis using recover_replay [of l "disk s" x] x True by (auto simp: ws_def)
  next
    case False
    then have "\<exists>u. recover_from_log x = Ret () u \<and>
        same_home l2 (disk u) (if k \<le> txn_n l2 then v_disk (cview s2) else committed l2 (cview s2))"
      using k x s2(6) by (intro crash_recovers [OF s2(2)]) (simp_all add: ws_def bt ds l2_def)
    then show ?thesis using new s2(6) by (auto simp: sh ds split: if_splits)
  qed
  have dt: "disk t = apply_writes ws (disk s)" "dwrites t = dwrites s @ ws"
    using t(3) s2(6,7) by (simp_all add: ds v_dec_def v_writes_of_def)
  have "same_home l2 (disk t) (committed l2 (cview s2))"
  proof (cases "txn_n l2 = 0")
    case True
    then show ?thesis using dt s2(6) by (simp add: ws_def committed_def txn_set_def same_home_def ds)
  next
    case False
    then show ?thesis
      using commit_home [of l2 "cview s2"] txn_n_less [OF s2(2)] s2(2,6) dt by (simp add: ws_def txn_inv_def ds l2_def)
  qed
  then have "same_home l (disk t) (upd_blocks us (disk s))" by (simp add: sh new)
  then show ?thesis
    using b s2(1) t(1,2) dt crash unfolding l_def [symmetric] by (intro exI [of _ t] exI [of _ ws]) (simp add: fs_op_def kexec)
qed

section \<open>An instance\<close>

text \<open>The kernel booted on a disk whose log of 30 blocks starts at block 2.\<close>

definition boot_log :: "(u32 \<Rightarrow> block) \<Rightarrow> klog" where
  "boot_log d = boot_bio d (klog.fields \<lparr>l_start = 2, l_size = 30, l_outstanding = 0, l_committing = 0, l_dev = ROOTDEV,
     l_lh = \<lparr>lh_n = 0, lh_block = (\<lambda>_. 0)\<rparr>\<rparr>)"

lemma boot_log_st:
  "log_st (boot_log d) = \<lparr>l_start = 2, l_size = 30, l_outstanding = 0, l_committing = 0, l_dev = ROOTDEV,
     l_lh = \<lparr>lh_n = 0, lh_block = (\<lambda>_. 0)\<rparr>\<rparr>"
proof -
  have "kbio.more (boot_log d) = klog.fields \<lparr>l_start = 2, l_size = 30, l_outstanding = 0, l_committing = 0, l_dev = ROOTDEV,
     l_lh = \<lparr>lh_n = 0, lh_block = (\<lambda>_. 0)\<rparr>\<rparr>"
    unfolding boot_log_def by (rule boot_bio_cur(2))
  then show ?thesis by (cases "boot_log d") (simp add: klog.defs)
qed

lemma header_zero: "header_n zero_block = 0"
  by (simp add: header_n_def int_at_def get_block_def upt_rec)

lemma boot_log_idle: "header_n (d 2) = 0 \<Longrightarrow> log_idle (boot_log d)"
  using boot_bio_ok [of d] boot_bio_ok(1) [of d]
  by (simp add: log_idle_def txn_inv_def txn_ok_def log_free_def boot_log_st txn_n_def txn_set_def)
    (simp add: boot_log_def boot_bio_ok)

lemma boot_log_area: "log_area (log_st (boot_log d)) = (\<lambda>k. 2 + of_nat k) ` {..<30}"
  by (simp add: log_area_def boot_log_st)

lemma outside_area: "40 \<notin> log_area (log_st (boot_log d))"
proof
  assume "40 \<in> log_area (log_st (boot_log d))"
  then obtain k where k: "k < 30" "(40 :: u32) = 2 + of_nat k" unfolding boot_log_area by blast
  then have "(38 :: u32) = of_nat k" by (simp add: algebra_simps)
  then have "unat (38 :: u32) = unat (of_nat k :: u32)" by simp
  then show False using k(1) by (simp add: unat_of_nat)
qed

theorem transaction_atomic_witness:
  "\<exists>t. fs_op [(40, \<lambda>_. put_int 4 zero_block 0 (7 :: u32))] (boot_log (\<lambda>_. zero_block)) = Ret () t \<and>
    int_at 4 (disk t 40) 0 = (7 :: u32)"
proof -
  let ?us = "[(40, \<lambda>_. put_int 4 zero_block 0 (7 :: u32))]"
  have "log_idle (boot_log (\<lambda>_. zero_block))" by (rule boot_log_idle) (simp add: header_zero)
  from transaction_atomic [OF this, of ?us] obtain t
    where "fs_op ?us (boot_log (\<lambda>_. zero_block)) = Ret () t"
      "same_home (log_st (boot_log (\<lambda>_. zero_block))) (disk t) (upd_blocks ?us (disk (boot_log (\<lambda>_. zero_block))))"
    using outside_area by (auto simp: boot_log_st)
  then show ?thesis using outside_area by (auto simp: same_home_def upd_blocks_def)
qed

section \<open>Further properties\<close>

text \<open>
  C7: recovery installs what the log holds. From a freshly booted cache, when the header on the disk names
  distinct blocks outside the log, \<open>recover_from_log\<close> makes every block outside the log what replaying the
  log makes it, erases the log, and keeps the cache correct. Every block it restored is left with the
  reference count \<open>2 ^ 32 - 1\<close>: \<open>install_trans\<close> drops a pin that recovery never took, so that its buffer is
  never free again.
\<close>

theorem recovery_replays_log:
  fixes b :: "'z klog_scheme"
  assumes "boots l d b" "header_ok l (d (l_start l))"
  shows "\<exists>t. recover_from_log b = Ret () t \<and> cache_ok t \<and> same_home l (disk t) (replay l d) \<and> header_n (disk t (l_start l)) = 0 \<and>
    v_refs (cview t) = (\<lambda>y. if y \<in> header_block (d (l_start l)) ` {..<header_n (d (l_start l))} then 2 ^ 32 - 1 else 0)"
  using recover_replay [OF assms] .

definition demo_header :: block where
  "demo_header = put_header \<lparr>lh_n = 1, lh_block = (\<lambda>_. 40)\<rparr> zero_block"

lemma demo_header: "header_n demo_header = 1" "header_block demo_header 0 = 40"
  using header_put(1) [of "\<lparr>lh_n = 1, lh_block = (\<lambda>_. 40)\<rparr>" zero_block] header_put(2) [of "\<lparr>lh_n = 1, lh_block = (\<lambda>_. 40)\<rparr>" 0 zero_block]
  by (simp_all add: demo_header_def header_n_def)

theorem recovery_replays_log_witness:
  "\<exists>t. recover_from_log (boot_log ((\<lambda>_. zero_block)(2 := demo_header))) = Ret () t \<and> v_refs (cview t) 40 = 2 ^ 32 - 1"
proof -
  let ?d = "(\<lambda>_. zero_block)(2 := demo_header)" and ?l = "log_st (boot_log ((\<lambda>_. zero_block)(2 := demo_header)))"
  have "boots ?l ?d (boot_log ?d)"
    by (simp add: boots_def boot_log_st) (simp add: boot_log_def boot_bio_ok)
  moreover have "header_ok ?l (?d (l_start ?l))"
    using outside_area [of ?d] by (simp add: header_ok_def boot_log_st demo_header lessThan_Suc)
  ultimately show ?thesis
    using recovery_replays_log [of ?l ?d "boot_log ?d"] by (auto simp: boot_log_st demo_header)
qed

text \<open>
  C13: the log admits operations it has no room for. With a log of \<open>LOGSIZE\<close> blocks, as mkfs makes it, and
  no block logged, \<open>begin_op\<close> lets a third operation start beside two others, which reserves \<open>LOGSIZE\<close>
  blocks; but \<open>log_write\<close> panics as soon as \<open>LOGSIZE - 1\<close> of them are in use.
\<close>

theorem log_reserves_too_much:
  fixes s t :: "'z klog_scheme"
  assumes "held s = {}" "l_size (log_st s) = of_nat LOGSIZE" "l_committing (log_st s) = 0" "lh_n (l_lh (log_st s)) = 0"
      "l_outstanding (log_st s) = 2"
    and "l_size (log_st t) = of_nat LOGSIZE" "l_outstanding (log_st t) = 3" "lh_n (l_lh (log_st t)) = of_nat (LOGSIZE - 1)"
  shows "\<exists>u. begin_op s = Ret () u \<and> unat (l_outstanding (log_st u)) * MAXOPBLOCKS = LOGSIZE \<and>
    log_write i t = Panic ''too big a transaction''"
proof -
  have "begin_op s = Ret () (s\<lparr>log_st := (log_st s)\<lparr>l_outstanding := 3\<rparr>\<rparr>)"
    using begin_op_exec [of s] assms(1-5) by simp
  moreover have "log_write i t = Panic ''too big a transaction''"
    using assms(6-8) by (simp add: log_write_def get_log_exec kexec)
  ultimately show ?thesis by simp
qed

theorem log_reserves_too_much_witness:
  "\<exists>s u :: klog. begin_op s = Ret () u \<and>
    log_write 0 (s\<lparr>log_st := (log_st s)\<lparr>l_outstanding := 3, l_lh := \<lparr>lh_n = 29, lh_block = (\<lambda>i. 40 + of_nat i)\<rparr>\<rparr>\<rparr>) =
      Panic ''too big a transaction''"
proof -
  let ?b = "boot_log (\<lambda>_. zero_block)"
  let ?s = "?b\<lparr>log_st := (log_st ?b)\<lparr>l_outstanding := 2\<rparr>\<rparr>"
  let ?t = "?s\<lparr>log_st := (log_st ?s)\<lparr>l_outstanding := 3, l_lh := \<lparr>lh_n = 29, lh_block = (\<lambda>i. 40 + of_nat i)\<rparr>\<rparr>\<rparr>"
  have "cache_ok ?b" unfolding boot_log_def by (rule boot_bio_ok)
  then have "held ?b = {}" by (simp add: cache_ok_def)
  then show ?thesis using log_reserves_too_much [of ?s ?t 0] by (auto simp: boot_log_st)
qed

text \<open>
  C12: no operation waits for the log forever because of a missed wake-up: when an operation ends, whether it
  commits the transaction or leaves that to others, no process is asleep waiting for the log any more.
\<close>

theorem end_op_wakes_waiters:
  fixes s :: "'z klog_scheme"
  assumes inv: "txn_inv s" and o1: "1 \<le> sint (l_outstanding (log_st s))" and c: "l_committing (log_st s) = 0"
  shows "\<exists>t. end_op s = Ret () t \<and> l_outstanding (log_st t) = l_outstanding (log_st s) - 1 \<and>
    (\<forall>p < NPROC. \<not> (p_state (ptable t p) = SLEEPING \<and> p_chan (ptable t p) = Some ChanLog))"
proof (cases "l_outstanding (log_st s) = 1")
  case True
  then show ?thesis using end_op_commits [OF inv refl] c by (auto simp: log_idle_def)
next
  case False
  then have "l_outstanding (log_st s) - 1 \<noteq> 0" by (metis diff_add_cancel add_0)
  moreover have "held s = {}" using inv by (simp add: txn_inv_def cache_ok_def)
  ultimately have "end_op s = Ret () (s\<lparr>log_st := (log_st s)\<lparr>l_outstanding := l_outstanding (log_st s) - 1\<rparr>,
      ptable := woken ChanLog {..<NPROC} (ptable s)\<rparr>)"
    using c by (cases s) (simp add: end_op_def kexec get_log_exec set_log_def)
  then show ?thesis using woken_awake by auto
qed

theorem end_op_wakes_waiters_witness:
  "\<exists>s t :: klog. p_state (ptable s 5) = SLEEPING \<and> p_chan (ptable s 5) = Some ChanLog \<and> end_op s = Ret () t \<and>
    \<not> (p_state (ptable t 5) = SLEEPING \<and> p_chan (ptable t 5) = Some ChanLog)"
proof -
  let ?b = "boot_log (\<lambda>_. zero_block)"
  let ?s = "?b\<lparr>log_st := (log_st ?b)\<lparr>l_outstanding := 1\<rparr>,
    ptable := (ptable ?b)(5 := (ptable ?b 5)\<lparr>p_state := SLEEPING, p_chan := Some ChanLog\<rparr>)\<rparr>"
  have "log_idle ?b" by (rule boot_log_idle) (simp add: header_zero)
  then have "txn_inv ?s"
    by (auto simp: log_idle_def txn_inv_def cache_ok_def buf_ok_def slock_free_def slock_mine_def)
  then obtain t where "end_op ?s = Ret () t" "\<forall>p < NPROC. \<not> (p_state (ptable t p) = SLEEPING \<and> p_chan (ptable t p) = Some ChanLog)"
    using end_op_wakes_waiters [of ?s] by (auto simp: boot_log_st)
  then show ?thesis by (intro exI [of _ ?s] exI [of _ t]) (simp add: boot_log_st)
qed

end
