(* ===== verification/Fs.thy ===== *)
theory Fs
  imports Log
begin

text \<open>
  src/kernel/fs.c: the block allocator, the inode cache, the contents of files, directories and path
  names, with the copies between kernel and user memory of src/kernel/proc.c they use. Inodes are indices
  into the inode cache and the null pointer is \<open>None\<close>. A NUL-terminated string is the list of the bytes
  before the NUL. Sizes and offsets inside one block are natural numbers.
\<close>

section \<open>Copies to and from user or kernel memory\<close>

text \<open>
  A destination is an address in user memory or a buffer of the kernel; the bytes stored in a kernel
  buffer are part of the result. A source is an address in user memory or the bytes in a kernel buffer.
\<close>

datatype xdst = UserDst u64 | KernDst

datatype xsrc = UserSrc u64 | KernSrc "u8 list"

fun dst_add :: "xdst \<Rightarrow> nat \<Rightarrow> xdst" where
  "dst_add (UserDst a) m = UserDst (a + of_nat m)"
| "dst_add KernDst m = KernDst"

fun src_add :: "xsrc \<Rightarrow> nat \<Rightarrow> xsrc" where
  "src_add (UserSrc a) m = UserSrc (a + of_nat m)"
| "src_add (KernSrc bs) m = KernSrc (drop m bs)"

definition my_pagetable :: "(u64, 'z kproc_scheme) kop" where
  "my_pagetable = kbind the_proc (\<lambda>p. get_proc p p_pagetable)"

fun either_copyout :: "xdst \<Rightarrow> u8 list \<Rightarrow> (int \<times> u8 list, 'z kproc_scheme) kop" where
  "either_copyout (UserDst a) src = kbind my_pagetable (\<lambda>pt.
     kbind (copyout pt a src (of_nat (length src))) (\<lambda>r. kreturn (r, [])))"
| "either_copyout KernDst src = kreturn (0, src)"

fun either_copyin :: "xsrc \<Rightarrow> nat \<Rightarrow> (int \<times> u8 list, 'z kproc_scheme) kop" where
  "either_copyin (UserSrc a) len = kbind my_pagetable (\<lambda>pt. copyin pt a (of_nat len))"
| "either_copyin (KernSrc bs) len = kreturn (0, take len bs)"

section \<open>State\<close>

abbreviation (input) NINODE :: nat where "NINODE \<equiv> 50"
abbreviation (input) ROOTINO :: u32 where "ROOTINO \<equiv> 1"
abbreviation (input) FSMAGIC :: u32 where "FSMAGIC \<equiv> 0x10203040"
abbreviation (input) NDIRECT :: nat where "NDIRECT \<equiv> 12"
abbreviation (input) NINDIRECT :: nat where "NINDIRECT \<equiv> 256"
abbreviation (input) MAXFILE :: nat where "MAXFILE \<equiv> 268"
abbreviation (input) IPB :: nat where "IPB \<equiv> 16"
abbreviation (input) BPB :: nat where "BPB \<equiv> 8192"
abbreviation (input) DIRSIZ :: nat where "DIRSIZ \<equiv> 14"
abbreviation (input) DIRENT :: nat where "DIRENT \<equiv> 16"
abbreviation (input) T_DIR :: u16 where "T_DIR \<equiv> 1"
abbreviation (input) T_FILE :: u16 where "T_FILE \<equiv> 2"
abbreviation (input) T_DEVICE :: u16 where "T_DEVICE \<equiv> 3"

text \<open>The part of an inode that lives on the disk, and the inode in memory.\<close>

record dinode =
  d_type :: u16
  d_major :: u16
  d_minor :: u16
  d_nlink :: u16
  d_size :: u32
  d_addrs :: "nat \<Rightarrow> u32"

record inode =
  i_dev :: u32
  i_inum :: u32
  i_ref :: u32
  i_valid :: bool
  i_d :: dinode

record kfs = klog +
  fs_sb :: superblock
  icache :: "nat \<Rightarrow> inode"

record stat =
  st_dev :: u32
  st_ino :: u32
  st_type :: u16
  st_nlink :: u16
  st_size :: u64

definition get_sb :: "(superblock, 'z kfs_scheme) kop" where
  "get_sb = kget fs_sb"

definition set_inode :: "nat \<Rightarrow> (inode \<Rightarrow> inode) \<Rightarrow> (unit, 'z kfs_scheme) kop" where
  "set_inode i f = kmodify (\<lambda>s. s\<lparr>icache := (icache s)(i := f (icache s i))\<rparr>)"

definition get_inode :: "nat \<Rightarrow> (inode \<Rightarrow> 'a) \<Rightarrow> ('a, 'z kfs_scheme) kop" where
  "get_inode i f = kget (\<lambda>s. f (icache s i))"

definition set_dinode :: "nat \<Rightarrow> (dinode \<Rightarrow> dinode) \<Rightarrow> (unit, 'z kfs_scheme) kop" where
  "set_dinode i f = set_inode i (\<lambda>x. x\<lparr>i_d := f (i_d x)\<rparr>)"

definition set_addr :: "nat \<Rightarrow> nat \<Rightarrow> u32 \<Rightarrow> (unit, 'z kfs_scheme) kop" where
  "set_addr i k a = set_dinode i (\<lambda>d. d\<lparr>d_addrs := (d_addrs d)(k := a)\<rparr>)"

definition set_data :: "nat \<Rightarrow> (block \<Rightarrow> block) \<Rightarrow> (unit, 'z kbio_scheme) kop" where
  "set_data b f = set_buf b (\<lambda>x. x\<lparr>b_data := f (b_data x)\<rparr>)"

section \<open>The super block and the block allocator\<close>

definition decode_sb :: "block \<Rightarrow> superblock" where
  "decode_sb d = \<lparr>sb_magic = int_at 4 d 0, sb_size = int_at 4 d 4, sb_nblocks = int_at 4 d 8, sb_ninodes = int_at 4 d 12,
     sb_nlog = int_at 4 d 16, sb_logstart = int_at 4 d 20, sb_inodestart = int_at 4 d 24, sb_bmapstart = int_at 4 d 28\<rparr>"

definition readsb :: "u32 \<Rightarrow> (unit, 'z kfs_scheme) kop" where
  "readsb dev = kbind (bread dev 1) (\<lambda>bp. kbind (get_buf bp b_data) (\<lambda>d.
     kthen (kmodify (\<lambda>s. s\<lparr>fs_sb := decode_sb d\<rparr>)) (brelse bp)))"

definition fsinit :: "u32 \<Rightarrow> (unit, 'z kfs_scheme) kop" where
  "fsinit dev = kthen (readsb dev) (kbind get_sb (\<lambda>sb. kthen
     (kpanic_if (sb_magic sb \<noteq> FSMAGIC) ''invalid file system'') (initlog dev sb)))"

definition bzero :: "u32 \<Rightarrow> u32 \<Rightarrow> (unit, 'z kfs_scheme) kop" where
  "bzero dev bno = kbind (bread dev bno) (\<lambda>bp. kseq [set_data bp (\<lambda>_. zero_block), log_write bp, brelse bp])"

definition IBLOCK :: "u32 \<Rightarrow> superblock \<Rightarrow> u32" where
  "IBLOCK i sb = i div of_nat IPB + sb_inodestart sb"

definition BBLOCK :: "u32 \<Rightarrow> superblock \<Rightarrow> u32" where
  "BBLOCK b sb = b div of_nat BPB + sb_bmapstart sb"

text \<open>The bit of block number \<open>bi\<close> in a block of the bitmap.\<close>

definition bit_set :: "block \<Rightarrow> nat \<Rightarrow> bool" where
  "bit_set d bi \<longleftrightarrow> byte_at d (bi div 8) AND push_bit (bi mod 8) 1 \<noteq> 0"

definition mark_bit :: "nat \<Rightarrow> block \<Rightarrow> block" where
  "mark_bit bi d = put_block d (bi div 8) [byte_at d (bi div 8) OR push_bit (bi mod 8) 1]"

definition clear_bit :: "nat \<Rightarrow> block \<Rightarrow> block" where
  "clear_bit bi d = put_block d (bi div 8) [byte_at d (bi div 8) AND NOT (push_bit (bi mod 8) 1)]"

fun balloc_loop :: "u32 \<Rightarrow> nat list \<Rightarrow> (u32, 'z kfs_scheme) kop" where
  "balloc_loop dev [] = kpanic ''balloc: out of blocks''"
| "balloc_loop dev (b # bs) = kbind get_sb (\<lambda>sb.
     kbind (bread dev (BBLOCK (of_nat b) sb)) (\<lambda>bp.
     kbind (get_buf bp b_data) (\<lambda>d.
       case find (\<lambda>bi. \<not> bit_set d bi) [0..<min BPB (unat (sb_size sb) - b)] of
         Some bi \<Rightarrow> kthen (kseq [
           set_data bp (mark_bit bi),
           log_write bp,
           brelse bp,
           bzero dev (of_nat (b + bi))]) (kreturn (of_nat (b + bi)))
       | None \<Rightarrow> kthen (brelse bp) (balloc_loop dev bs))))"

text \<open>The outer loop runs over the multiples of \<open>BPB\<close> below \<open>sb.size\<close>.\<close>

definition balloc :: "u32 \<Rightarrow> (u32, 'z kfs_scheme) kop" where
  "balloc dev = kbind get_sb (\<lambda>sb. balloc_loop dev (map (\<lambda>k. k * BPB) [0..<(unat (sb_size sb) + (BPB - 1)) div BPB]))"

definition bfree :: "u32 \<Rightarrow> u32 \<Rightarrow> (unit, 'z kfs_scheme) kop" where
  "bfree dev b = kbind get_sb (\<lambda>sb.
     kbind (bread dev (BBLOCK b sb)) (\<lambda>bp.
     kbind (get_buf bp b_data) (\<lambda>d. kseq [
       kpanic_if (\<not> bit_set d (unat b mod BPB)) ''freeing free block'',
       set_data bp (clear_bit (unat b mod BPB)),
       log_write bp,
       brelse bp])))"

section \<open>Inodes\<close>

definition iinit :: "(unit, 'z kfs_scheme) kop" where
  "iinit = kfor [0..<NINODE] (\<lambda>i. initsleeplock (InodeLock i) ''inode'')"

text \<open>Inode \<open>k\<close> of a block of inodes.\<close>

definition get_dinode :: "block \<Rightarrow> nat \<Rightarrow> dinode" where
  "get_dinode b k = (let off = 64 * k in
     \<lparr>d_type = int_at 2 b off, d_major = int_at 2 b (off + 2), d_minor = int_at 2 b (off + 4),
      d_nlink = int_at 2 b (off + 6), d_size = int_at 4 b (off + 8), d_addrs = (\<lambda>j. int_at 4 b (off + 12 + 4 * j))\<rparr>)"

definition put_addrs :: "(nat \<Rightarrow> u32) \<Rightarrow> nat \<Rightarrow> block \<Rightarrow> block" where
  "put_addrs f off b = put_block b off (concat (map (\<lambda>j. le_bytes 4 (f j)) [0..<NDIRECT + 1]))"

definition put_dinode :: "dinode \<Rightarrow> nat \<Rightarrow> block \<Rightarrow> block" where
  "put_dinode x k b = (let off = 64 * k;
     b = put_int 2 b off (d_type x);
     b = put_int 2 b (off + 2) (d_major x);
     b = put_int 2 b (off + 4) (d_minor x);
     b = put_int 2 b (off + 6) (d_nlink x);
     b = put_int 4 b (off + 8) (d_size x)
   in put_addrs (d_addrs x) (off + 12) b)"

text \<open>The scan of \<open>iget\<close>: the entry that has the inode, or else the first empty one.\<close>

fun iget_scan :: "(nat \<Rightarrow> inode) \<Rightarrow> u32 \<Rightarrow> u32 \<Rightarrow> nat list \<Rightarrow> nat option \<Rightarrow> nat option + nat" where
  "iget_scan ic dev inum [] hole = Inl hole"
| "iget_scan ic dev inum (i # is) hole =
     (if sint (i_ref (ic i)) > 0 \<and> i_dev (ic i) = dev \<and> i_inum (ic i) = inum then Inr i
      else iget_scan ic dev inum is (if hole = None \<and> i_ref (ic i) = 0 then Some i else hole))"

definition iget :: "u32 \<Rightarrow> u32 \<Rightarrow> (nat, 'z kfs_scheme) kop" where
  "iget dev inum = kthen (klock IcacheLock)
     (kbind (kget icache) (\<lambda>ic. case iget_scan ic dev inum [0..<NINODE] None of
        Inr i \<Rightarrow> kthen (kseq [set_inode i (\<lambda>x. x\<lparr>i_ref := i_ref x + 1\<rparr>), kunlock IcacheLock]) (kreturn i)
      | Inl None \<Rightarrow> kpanic ''iget: no inodes''
      | Inl (Some i) \<Rightarrow> kthen (kseq [
          set_inode i (\<lambda>x. x\<lparr>i_dev := dev\<rparr>),
          set_inode i (\<lambda>x. x\<lparr>i_inum := inum\<rparr>),
          set_inode i (\<lambda>x. x\<lparr>i_ref := 1\<rparr>),
          set_inode i (\<lambda>x. x\<lparr>i_valid := False\<rparr>),
          kunlock IcacheLock]) (kreturn i)))"

fun ialloc_loop :: "u32 \<Rightarrow> u16 \<Rightarrow> nat list \<Rightarrow> (nat, 'z kfs_scheme) kop" where
  "ialloc_loop dev type [] = kpanic ''ialloc: no inodes''"
| "ialloc_loop dev type (inum # is) = kbind get_sb (\<lambda>sb.
     kbind (bread dev (IBLOCK (of_nat inum) sb)) (\<lambda>bp.
     kbind (get_buf bp b_data) (\<lambda>d.
       if d_type (get_dinode d (inum mod IPB)) = 0 then kthen (kseq [
           set_data bp (\<lambda>d. put_block d (64 * (inum mod IPB)) (replicate 64 0)),
           set_data bp (\<lambda>d. put_int 2 d (64 * (inum mod IPB)) type),
           log_write bp,
           brelse bp])
         (iget dev (of_nat inum))
       else kthen (brelse bp) (ialloc_loop dev type is))))"

definition ialloc :: "u32 \<Rightarrow> u16 \<Rightarrow> (nat, 'z kfs_scheme) kop" where
  "ialloc dev type = kbind get_sb (\<lambda>sb. ialloc_loop dev type [1..<unat (sb_ninodes sb)])"

definition iupdate :: "nat \<Rightarrow> (unit, 'z kfs_scheme) kop" where
  "iupdate ip = kbind get_sb (\<lambda>sb. kbind (get_inode ip id) (\<lambda>x.
     kbind (bread (i_dev x) (IBLOCK (i_inum x) sb)) (\<lambda>bp. kseq [
       set_data bp (put_dinode (i_d x) (unat (i_inum x) mod IPB)),
       log_write bp,
       brelse bp])))"

definition idup :: "nat \<Rightarrow> (nat, 'z kfs_scheme) kop" where
  "idup ip = kthen (kseq [klock IcacheLock, set_inode ip (\<lambda>x. x\<lparr>i_ref := i_ref x + 1\<rparr>), kunlock IcacheLock]) (kreturn ip)"

fun ilock :: "nat option \<Rightarrow> (unit, 'z kfs_scheme) kop" where
  "ilock None = kpanic ''ilock''"
| "ilock (Some ip) = kseq [
     kbind (get_inode ip i_ref) (\<lambda>r. kpanic_if (sint r < 1) ''ilock''),
     acquiresleep (InodeLock ip),
     kbind (get_inode ip id) (\<lambda>x. kwhen (\<not> i_valid x)
       (kbind get_sb (\<lambda>sb. kbind (bread (i_dev x) (IBLOCK (i_inum x) sb)) (\<lambda>bp.
        kbind (get_buf bp b_data) (\<lambda>d. kseq [
          set_dinode ip (\<lambda>_. get_dinode d (unat (i_inum x) mod IPB)),
          brelse bp,
          set_inode ip (\<lambda>x. x\<lparr>i_valid := True\<rparr>),
          kpanic_if (d_type (get_dinode d (unat (i_inum x) mod IPB)) = 0) ''ilock: no type'']))))) ]"

fun iunlock :: "nat option \<Rightarrow> (unit, 'z kfs_scheme) kop" where
  "iunlock None = kpanic ''iunlock''"
| "iunlock (Some ip) = kthen
     (kbind (holdingsleep (InodeLock ip)) (\<lambda>h. kbind (get_inode ip i_ref) (\<lambda>r. kpanic_if (\<not> h \<or> sint r < 1) ''iunlock'')))
     (releasesleep (InodeLock ip))"

section \<open>The contents of a file\<close>

text \<open>The disk address of the \<open>bn\<close>-th block of an inode, allocated if there is none.\<close>

definition bmap :: "nat \<Rightarrow> nat \<Rightarrow> (u32, 'z kfs_scheme) kop" where
  "bmap ip bn = kbind (get_inode ip id) (\<lambda>x.
     if bn < NDIRECT then
       (if d_addrs (i_d x) bn = 0
        then kbind (balloc (i_dev x)) (\<lambda>a. kthen (set_addr ip bn a) (kreturn a))
        else kreturn (d_addrs (i_d x) bn))
     else if bn - NDIRECT < NINDIRECT then
       kbind (if d_addrs (i_d x) NDIRECT = 0
              then kbind (balloc (i_dev x)) (\<lambda>a. kthen (set_addr ip NDIRECT a) (kreturn a))
              else kreturn (d_addrs (i_d x) NDIRECT)) (\<lambda>addr.
       kbind (bread (i_dev x) addr) (\<lambda>bp.
       kbind (get_buf bp (\<lambda>b. int_at 4 (b_data b) (4 * (bn - NDIRECT)))) (\<lambda>a.
       kbind (if a = 0
              then kbind (balloc (i_dev x)) (\<lambda>a. kthen (kseq [
                set_data bp (\<lambda>d. put_int 4 d (4 * (bn - NDIRECT)) a), log_write bp]) (kreturn a))
              else kreturn a) (\<lambda>a.
       kthen (brelse bp) (kreturn a)))))
     else kpanic ''bmap: out of range'')"

definition itrunc_direct :: "nat \<Rightarrow> nat \<Rightarrow> (unit, 'z kfs_scheme) kop" where
  "itrunc_direct ip i = kbind (get_inode ip id) (\<lambda>x. kwhen (d_addrs (i_d x) i \<noteq> 0)
     (kthen (bfree (i_dev x) (d_addrs (i_d x) i)) (set_addr ip i 0)))"

definition itrunc :: "nat \<Rightarrow> (unit, 'z kfs_scheme) kop" where
  "itrunc ip = kseq [
     kfor [0..<NDIRECT] (itrunc_direct ip),
     kbind (get_inode ip id) (\<lambda>x. kwhen (d_addrs (i_d x) NDIRECT \<noteq> 0)
       (kthen (kbind (bread (i_dev x) (d_addrs (i_d x) NDIRECT)) (\<lambda>bp. kthen
          (kfor [0..<NINDIRECT] (\<lambda>j. kbind (get_buf bp (\<lambda>b. int_at 4 (b_data b) (4 * j))) (\<lambda>a.
             kwhen (a \<noteq> 0) (bfree (i_dev x) a))))
          (brelse bp)))
       (kthen (bfree (i_dev x) (d_addrs (i_d x) NDIRECT)) (set_addr ip NDIRECT 0)))),
     set_dinode ip (\<lambda>d. d\<lparr>d_size := 0\<rparr>),
     iupdate ip]"

definition iput :: "nat \<Rightarrow> (unit, 'z kfs_scheme) kop" where
  "iput ip = kseq [
     klock IcacheLock,
     kbind (get_inode ip id) (\<lambda>x. kwhen (i_ref x = 1 \<and> i_valid x \<and> d_nlink (i_d x) = 0) (kseq [
       acquiresleep (InodeLock ip),
       kunlock IcacheLock,
       itrunc ip,
       set_dinode ip (\<lambda>d. d\<lparr>d_type := 0\<rparr>),
       iupdate ip,
       set_inode ip (\<lambda>x. x\<lparr>i_valid := False\<rparr>),
       releasesleep (InodeLock ip),
       klock IcacheLock])),
     set_inode ip (\<lambda>x. x\<lparr>i_ref := i_ref x - 1\<rparr>),
     kunlock IcacheLock]"

definition iunlockput :: "nat \<Rightarrow> (unit, 'z kfs_scheme) kop" where
  "iunlockput ip = kthen (iunlock (Some ip)) (iput ip)"

definition stati :: "nat \<Rightarrow> (stat, 'z kfs_scheme) kop" where
  "stati ip = get_inode ip (\<lambda>x. \<lparr>st_dev = i_dev x, st_ino = i_inum x, st_type = d_type (i_d x),
     st_nlink = d_nlink (i_d x), st_size = ucast (d_size (i_d x))\<rparr>)"

text \<open>
  The loop of \<open>readi\<close>: \<open>n\<close> bytes are still to be read, from offset \<open>off\<close>, and \<open>tot\<close> have been. The result
  is \<open>tot\<close>, and the bytes stored in the kernel buffer.
\<close>

function readi_loop :: "nat \<Rightarrow> xdst \<Rightarrow> nat \<Rightarrow> nat \<Rightarrow> nat \<Rightarrow> u8 list \<Rightarrow> (nat \<times> u8 list, 'z kfs_scheme) kop" where
  "readi_loop ip dst off n tot acc =
     (if n = 0 then kreturn (tot, acc)
      else kbind (bmap ip (off div BSIZE)) (\<lambda>a.
           kbind (get_inode ip i_dev) (\<lambda>dev.
           kbind (bread dev a) (\<lambda>bp.
           kbind (get_buf bp b_data) (\<lambda>d.
           let m = min n (BSIZE - off mod BSIZE) in
           kbind (either_copyout dst (get_block d (off mod BSIZE) m)) (\<lambda>(r, bs).
             if r = - 1 then kthen (brelse bp) (kreturn (tot, acc))
             else kthen (brelse bp) (readi_loop ip (dst_add dst m) (off + m) (n - m) (tot + m) (acc @ bs))))))))"
  by pat_completeness auto
termination
  by (relation "measure (\<lambda>(ip, dst, off, n, tot, acc). n)") auto

declare readi_loop.simps [simp del]

definition readi :: "nat \<Rightarrow> xdst \<Rightarrow> u32 \<Rightarrow> u32 \<Rightarrow> (nat \<times> u8 list, 'z kfs_scheme) kop" where
  "readi ip dst off n = kbind (get_inode ip (\<lambda>x. d_size (i_d x))) (\<lambda>size.
     if off > size \<or> off + n < off then kreturn (0, [])
     else let n = (if off + n > size then size - off else n) in
       readi_loop ip dst (unat off) (unat n) 0 [])"

text \<open>
  The loop of \<open>writei\<close>; the result is the offset it stops at. A copy from user memory that fails part-way
  has stored some bytes in the buffer all the same.
\<close>

function writei_loop :: "nat \<Rightarrow> xsrc \<Rightarrow> nat \<Rightarrow> nat \<Rightarrow> (nat, 'z kfs_scheme) kop" where
  "writei_loop ip src off n =
     (if n = 0 then kreturn off
      else kbind (bmap ip (off div BSIZE)) (\<lambda>a.
           kbind (get_inode ip i_dev) (\<lambda>dev.
           kbind (bread dev a) (\<lambda>bp.
           let m = min n (BSIZE - off mod BSIZE) in
           kbind (either_copyin src m) (\<lambda>(r, bs).
           kthen (set_data bp (\<lambda>d. put_block d (off mod BSIZE) bs))
             (if r = - 1 then kthen (brelse bp) (kreturn off)
              else kthen (kthen (log_write bp) (brelse bp)) (writei_loop ip (src_add src m) (off + m) (n - m))))))))"
  by pat_completeness auto
termination
  by (relation "measure (\<lambda>(ip, src, off, n). n)") auto

declare writei_loop.simps [simp del]

definition writei :: "nat \<Rightarrow> xsrc \<Rightarrow> u32 \<Rightarrow> u32 \<Rightarrow> (int, 'z kfs_scheme) kop" where
  "writei ip src off n = kbind (get_inode ip (\<lambda>x. d_size (i_d x))) (\<lambda>size.
     if off > size \<or> off + n < off then kreturn (- 1)
     else if off + n > of_nat (MAXFILE * BSIZE) then kreturn (- 1)
     else kbind (writei_loop ip src (unat off) (unat n)) (\<lambda>off'.
       kthen (kwhen (n > 0) (kthen
         (kwhen (of_nat off' > size) (set_dinode ip (\<lambda>d. d\<lparr>d_size := of_nat off'\<rparr>)))
         (iupdate ip)))
       (kreturn (sint n))))"

section \<open>Directories\<close>

definition str_view :: "u8 list \<Rightarrow> view" where
  "str_view bs = (\<lambda>k. if k < length bs then bs ! k else 0)"

definition namecmp :: "view \<Rightarrow> view \<Rightarrow> int" where
  "namecmp s t = strncmp s t DIRSIZ"

text \<open>A directory entry: two bytes of inode number and \<open>DIRSIZ\<close> bytes of name.\<close>

definition de_inum :: "u8 list \<Rightarrow> u16" where
  "de_inum de = le_word (take 2 de)"

definition de_name :: "u8 list \<Rightarrow> u8 list" where
  "de_name de = drop 2 de"

definition make_dirent :: "u16 \<Rightarrow> view \<Rightarrow> u8 list" where
  "make_dirent inum nm = le_bytes 2 inum @ map nm [0..<DIRSIZ]"

text \<open>The offsets of the entries of a directory of \<open>sz\<close> bytes.\<close>

definition entry_offs :: "u32 \<Rightarrow> nat list" where
  "entry_offs sz = map (\<lambda>k. k * DIRENT) [0..<(unat sz + (DIRENT - 1)) div DIRENT]"

text \<open>\<open>dirlookup\<close> returns the inode and the offset of the entry (\<open>*poff\<close>).\<close>

fun dirlookup_loop :: "nat \<Rightarrow> u8 list \<Rightarrow> nat list \<Rightarrow> ((nat \<times> nat) option, 'z kfs_scheme) kop" where
  "dirlookup_loop dp nm [] = kreturn None"
| "dirlookup_loop dp nm (off # offs) = kbind (readi dp KernDst (of_nat off) (of_nat DIRENT)) (\<lambda>(n, de).
     kthen (kpanic_if (n \<noteq> DIRENT) ''dirlookup read'')
       (if de_inum de = 0 then dirlookup_loop dp nm offs
        else if namecmp (str_view nm) (str_view (de_name de)) = 0 then
          kbind (get_inode dp i_dev) (\<lambda>dev. kbind (iget dev (ucast (de_inum de))) (\<lambda>ip. kreturn (Some (ip, off))))
        else dirlookup_loop dp nm offs))"

definition dirlookup :: "nat \<Rightarrow> u8 list \<Rightarrow> ((nat \<times> nat) option, 'z kfs_scheme) kop" where
  "dirlookup dp nm = kbind (get_inode dp i_d) (\<lambda>d.
     kthen (kpanic_if (d_type d \<noteq> T_DIR) ''dirlookup not DIR'') (dirlookup_loop dp nm (entry_offs (d_size d))))"

text \<open>The offset of the first empty entry, or the first offset past the last one.\<close>

fun dirlink_loop :: "nat \<Rightarrow> nat list \<Rightarrow> nat \<Rightarrow> (nat, 'z kfs_scheme) kop" where
  "dirlink_loop dp [] fin = kreturn fin"
| "dirlink_loop dp (off # offs) fin = kbind (readi dp KernDst (of_nat off) (of_nat DIRENT)) (\<lambda>(n, de).
     kthen (kpanic_if (n \<noteq> DIRENT) ''dirlink read'')
       (if de_inum de = 0 then kreturn off else dirlink_loop dp offs fin))"

definition dirlink :: "nat \<Rightarrow> u8 list \<Rightarrow> u32 \<Rightarrow> (int, 'z kfs_scheme) kop" where
  "dirlink dp nm inum = kbind (dirlookup dp nm) (\<lambda>r. case r of
       Some (ip, _) \<Rightarrow> kthen (iput ip) (kreturn (- 1))
     | None \<Rightarrow> kbind (get_inode dp (\<lambda>x. d_size (i_d x))) (\<lambda>size.
         kbind (dirlink_loop dp (entry_offs size) (length (entry_offs size) * DIRENT)) (\<lambda>off.
         kbind (writei dp (KernSrc (make_dirent (ucast inum) (strncpy (\<lambda>_. 0) (str_view nm) (int DIRSIZ))))
             (of_nat off) (of_nat DIRENT)) (\<lambda>n.
         kthen (kpanic_if (n \<noteq> int DIRENT) ''dirlink'') (kreturn 0)))))"

section \<open>Paths\<close>

abbreviation (input) SLASH :: u8 where "SLASH \<equiv> 47"

text \<open>
  \<open>skipelem\<close> on a string: the first element, cut to \<open>DIRSIZ\<close> bytes, and the rest of the path without
  leading slashes; \<open>None\<close> when there is no element.
\<close>

definition skipelem :: "u8 list \<Rightarrow> (u8 list \<times> u8 list) option" where
  "skipelem path = (let path = dropWhile (\<lambda>c. c = SLASH) path in
     if path = [] then None
     else let s = takeWhile (\<lambda>c. c \<noteq> SLASH) path; path = dropWhile (\<lambda>c. c \<noteq> SLASH) path;
              nm = (if length s \<ge> DIRSIZ then take DIRSIZ s else s)
          in Some (nm, dropWhile (\<lambda>c. c = SLASH) path))"

lemma skipelem_shorter: "skipelem path = Some (nm, rest) \<Longrightarrow> length rest < length path"
proof -
  assume a: "skipelem path = Some (nm, rest)"
  define p where "p = dropWhile (\<lambda>c. c = SLASH) path"
  have p: "p \<noteq> []" "rest = dropWhile (\<lambda>c. c = SLASH) (dropWhile (\<lambda>c. c \<noteq> SLASH) p)"
    using a by (auto simp: skipelem_def p_def Let_def split: if_splits)
  have "hd p \<noteq> SLASH" using hd_dropWhile [of "\<lambda>c. c = SLASH" path] p(1) by (simp add: p_def)
  then have "length (dropWhile (\<lambda>c. c \<noteq> SLASH) p) < length p"
    using p(1) by (cases p) (auto simp: less_Suc_eq_le length_dropWhile_le)
  moreover have "length rest \<le> length (dropWhile (\<lambda>c. c \<noteq> SLASH) p)" unfolding p(2) by (rule length_dropWhile_le)
  moreover have "length p \<le> length path" unfolding p_def by (rule length_dropWhile_le)
  ultimately show ?thesis by simp
qed

function namex_loop :: "nat \<Rightarrow> bool \<Rightarrow> u8 list \<Rightarrow> ((nat \<times> u8 list) option, 'z kfs_scheme) kop" where
  "namex_loop ip parent path = (case skipelem path of
       None \<Rightarrow> if parent then kthen (iput ip) (kreturn None) else kreturn (Some (ip, []))
     | Some (nm, rest) \<Rightarrow>
         kthen (ilock (Some ip)) (kbind (get_inode ip (\<lambda>x. d_type (i_d x))) (\<lambda>type.
           if type \<noteq> T_DIR then kthen (iunlockput ip) (kreturn None)
           else if parent \<and> rest = [] then kthen (iunlock (Some ip)) (kreturn (Some (ip, nm)))
           else kbind (dirlookup ip nm) (\<lambda>r. case r of
               None \<Rightarrow> kthen (iunlockput ip) (kreturn None)
             | Some (nxt, _) \<Rightarrow> kthen (iunlockput ip) (namex_loop nxt parent rest)))))"
  by pat_completeness auto
termination
  by (relation "measure (\<lambda>(ip, parent, path). length path)") (auto dest: skipelem_shorter)

declare namex_loop.simps [simp del]

text \<open>The result is the inode, and the last element of the path when the parent is asked for.\<close>

definition namex :: "u8 list \<Rightarrow> bool \<Rightarrow> ((nat \<times> u8 list) option, 'z kfs_scheme) kop" where
  "namex path parent = kbind
     (if path \<noteq> [] \<and> hd path = SLASH then iget ROOTDEV ROOTINO
      else kbind the_proc (\<lambda>p. kbind (get_proc p p_cwd) (\<lambda>cwd. case cwd of
        None \<Rightarrow> kpanic ''kerneltrap'' | Some i \<Rightarrow> idup i)))
     (\<lambda>ip. namex_loop ip parent path)"

definition namei :: "u8 list \<Rightarrow> (nat option, 'z kfs_scheme) kop" where
  "namei path = kbind (namex path False) (\<lambda>r. kreturn (map_option fst r))"

definition nameiparent :: "u8 list \<Rightarrow> ((nat \<times> u8 list) option, 'z kfs_scheme) kop" where
  "nameiparent path = namex path True"

end
