(* ===== verification/Pipe.thy ===== *)
theory Pipe
  imports Fs Vm_Correct
begin

text \<open>
  src/kernel/pipe.c: a pipe is a ring of \<open>PIPESIZE\<close> bytes with two free-running 32-bit counters. A pipe is
  known by the address of the page that holds it. A thread that has to wait continues, when it runs again,
  with \<open>pipewrite_resume\<close> or \<open>piperead_resume\<close>.
\<close>

section \<open>State and operations\<close>

abbreviation (input) PIPESIZE :: nat where "PIPESIZE \<equiv> 512"

record pipe =
  pi_data :: "nat \<Rightarrow> u8"
  pi_nread :: u32
  pi_nwrite :: u32
  pi_readopen :: bool
  pi_writeopen :: bool

record kpipe = kfs +
  pipes :: "u64 \<Rightarrow> pipe"

definition set_pipe :: "u64 \<Rightarrow> (pipe \<Rightarrow> pipe) \<Rightarrow> (unit, 'z kpipe_scheme) kop" where
  "set_pipe pi f = kmodify (\<lambda>s. s\<lparr>pipes := (pipes s)(pi := f (pipes s pi))\<rparr>)"

definition get_pipe :: "u64 \<Rightarrow> (pipe \<Rightarrow> 'a) \<Rightarrow> ('a, 'z kpipe_scheme) kop" where
  "get_pipe pi f = kget (\<lambda>s. f (pipes s pi))"

definition pipe_put :: "u8 \<Rightarrow> pipe \<Rightarrow> pipe" where
  "pipe_put ch p = p\<lparr>pi_data := (pi_data p)(unat (pi_nwrite p mod of_nat PIPESIZE) := ch), pi_nwrite := pi_nwrite p + 1\<rparr>"

definition pipe_next :: "pipe \<Rightarrow> u8" where
  "pipe_next p = pi_data p (unat (pi_nread p mod of_nat PIPESIZE))"

definition pipeclose :: "u64 \<Rightarrow> bool \<Rightarrow> (unit, 'z kpipe_scheme) kop" where
  "pipeclose pi writable = kseq [
     klock (PipeLock pi),
     (if writable then kthen (set_pipe pi (\<lambda>p. p\<lparr>pi_writeopen := False\<rparr>)) (wakeup (ChanPipeRead pi))
      else kthen (set_pipe pi (\<lambda>p. p\<lparr>pi_readopen := False\<rparr>)) (wakeup (ChanPipeWrite pi))),
     kbind (get_pipe pi id) (\<lambda>p.
       if \<not> pi_readopen p \<and> \<not> pi_writeopen p then kthen (kunlock (PipeLock pi)) (kfree pi)
       else kunlock (PipeLock pi))]"

text \<open>Going to sleep ends the run of the thread: there is no result.\<close>

definition sleep_on :: "chan \<Rightarrow> lockid \<Rightarrow> ('a, 'z kproc_scheme) kop" where
  "sleep_on c lk = kthen (sleep c lk) kdiverge"

text \<open>The loop of \<open>pipewrite\<close> with \<open>i\<close> bytes written, entered with the lock held.\<close>

function pipewrite_loop :: "u64 \<Rightarrow> u64 \<Rightarrow> nat \<Rightarrow> nat \<Rightarrow> (int, 'z kpipe_scheme) kop" where
  "pipewrite_loop pi addr n i =
     (if i < n then kbind the_proc (\<lambda>pr. kbind (get_pipe pi id) (\<lambda>p.
        if pi_nwrite p = pi_nread p + of_nat PIPESIZE then
          kbind (get_proc pr p_killed) (\<lambda>killed.
            if \<not> pi_readopen p \<or> killed then kthen (kunlock (PipeLock pi)) (kreturn (- 1))
            else kthen (wakeup (ChanPipeRead pi)) (sleep_on (ChanPipeWrite pi) (PipeLock pi)))
        else kbind (get_proc pr p_pagetable) (\<lambda>pt.
          kbind (copyin pt (addr + of_nat i) 1) (\<lambda>(r, bs).
            if r = - 1 then kthen (kseq [wakeup (ChanPipeRead pi), kunlock (PipeLock pi)]) (kreturn (int i))
            else kthen (set_pipe pi (pipe_put (hd bs))) (pipewrite_loop pi addr n (i + 1))))))
      else kthen (kseq [wakeup (ChanPipeRead pi), kunlock (PipeLock pi)]) (kreturn (int i)))"
  by pat_completeness auto
termination
  by (relation "measure (\<lambda>(pi, addr, n, i). n - i)") auto

definition pipewrite :: "u64 \<Rightarrow> u64 \<Rightarrow> int \<Rightarrow> (int, 'z kpipe_scheme) kop" where
  "pipewrite pi addr n = kthen (klock (PipeLock pi)) (pipewrite_loop pi addr (nat n) 0)"

definition pipewrite_resume :: "u64 \<Rightarrow> u64 \<Rightarrow> int \<Rightarrow> nat \<Rightarrow> (int, 'z kpipe_scheme) kop" where
  "pipewrite_resume pi addr n i = kthen (sleep_resume (PipeLock pi)) (pipewrite_loop pi addr (nat n) i)"

function piperead_loop :: "u64 \<Rightarrow> u64 \<Rightarrow> nat \<Rightarrow> nat \<Rightarrow> (int, 'z kpipe_scheme) kop" where
  "piperead_loop pi addr n i =
     (if i < n then kbind the_proc (\<lambda>pr. kbind (get_pipe pi id) (\<lambda>p.
        if pi_nread p = pi_nwrite p then kthen (kseq [wakeup (ChanPipeWrite pi), kunlock (PipeLock pi)]) (kreturn (int i))
        else kthen (set_pipe pi (\<lambda>p. p\<lparr>pi_nread := pi_nread p + 1\<rparr>))
          (kbind (get_proc pr p_pagetable) (\<lambda>pt.
           kbind (copyout pt (addr + of_nat i) [pipe_next p] 1) (\<lambda>r.
             if r = - 1 then kthen (kseq [wakeup (ChanPipeWrite pi), kunlock (PipeLock pi)]) (kreturn (int i))
             else piperead_loop pi addr n (i + 1))))))
      else kthen (kseq [wakeup (ChanPipeWrite pi), kunlock (PipeLock pi)]) (kreturn (int i)))"
  by pat_completeness auto
termination
  by (relation "measure (\<lambda>(pi, addr, n, i). n - i)") auto

definition piperead_wait :: "u64 \<Rightarrow> u64 \<Rightarrow> int \<Rightarrow> (int, 'z kpipe_scheme) kop" where
  "piperead_wait pi addr n = kbind the_proc (\<lambda>pr. kbind (get_pipe pi id) (\<lambda>p.
     if pi_nread p = pi_nwrite p \<and> pi_writeopen p then
       kbind (get_proc pr p_killed) (\<lambda>killed.
         if killed then kthen (kunlock (PipeLock pi)) (kreturn (- 1))
         else sleep_on (ChanPipeRead pi) (PipeLock pi))
     else piperead_loop pi addr (nat n) 0))"

definition piperead :: "u64 \<Rightarrow> u64 \<Rightarrow> int \<Rightarrow> (int, 'z kpipe_scheme) kop" where
  "piperead pi addr n = kthen (klock (PipeLock pi)) (piperead_wait pi addr n)"

definition piperead_resume :: "u64 \<Rightarrow> u64 \<Rightarrow> int \<Rightarrow> (int, 'z kpipe_scheme) kop" where
  "piperead_resume pi addr n = kthen (sleep_resume (PipeLock pi)) (piperead_wait pi addr n)"

declare pipewrite_loop.simps [simp del] piperead_loop.simps [simp del]

section \<open>The ring as a queue\<close>

definition pipe_len :: "pipe \<Rightarrow> nat" where
  "pipe_len p = unat (pi_nwrite p - pi_nread p)"

definition pipe_queue :: "pipe \<Rightarrow> u8 list" where
  "pipe_queue p = map (\<lambda>k. pi_data p ((unat (pi_nread p) + k) mod PIPESIZE)) [0..<pipe_len p]"

definition pipe_ok :: "pipe \<Rightarrow> bool" where
  "pipe_ok p \<longleftrightarrow> pipe_len p \<le> PIPESIZE"

lemma mod_word: "unat (x mod of_nat PIPESIZE :: u32) = unat x mod PIPESIZE"
  by (simp add: unat_mod)

lemma write_index: "unat (pi_nwrite p mod of_nat PIPESIZE) = (unat (pi_nread p) + pipe_len p) mod PIPESIZE"
proof -
  have "pi_nwrite p = pi_nread p + of_nat (pipe_len p)" by (simp add: pipe_len_def)
  then have "unat (pi_nwrite p) mod PIPESIZE = (unat (pi_nread p) + pipe_len p) mod PIPESIZE"
    using unat_add_mod [of PIPESIZE "pi_nread p" "pipe_len p"] by simp
  then show ?thesis unfolding mod_word .
qed

lemma pipe_put_queue:
  assumes "pipe_len p < PIPESIZE"
  shows "pipe_queue (pipe_put ch p) = pipe_queue p @ [ch]" "pipe_len (pipe_put ch p) = pipe_len p + 1"
proof -
  have "unat ((pi_nwrite p - pi_nread p) + 1) = pipe_len p + 1"
    using assms by (simp add: pipe_len_def unat_word_ariths)
  then show len: "pipe_len (pipe_put ch p) = pipe_len p + 1"
    by (simp add: pipe_len_def pipe_put_def algebra_simps)
  have old: "(unat (pi_nread p) + k) mod PIPESIZE \<noteq> (unat (pi_nread p) + pipe_len p) mod PIPESIZE" if "k < pipe_len p" for k
    by (rule mod_shift_neq) (use that assms in auto)
  show "pipe_queue (pipe_put ch p) = pipe_queue p @ [ch]"
    unfolding pipe_queue_def len using old by (auto simp: pipe_put_def write_index [simplified])
qed

lemma pipe_get_queue:
  assumes "pi_nread p \<noteq> pi_nwrite p"
  shows "pipe_queue p = pipe_next p # pipe_queue (p\<lparr>pi_nread := pi_nread p + 1\<rparr>)"
    "pipe_len p = pipe_len (p\<lparr>pi_nread := pi_nread p + 1\<rparr>) + 1"
proof -
  let ?q = "p\<lparr>pi_nread := pi_nread p + 1\<rparr>"
  have "0 < unat (pi_nwrite p - pi_nread p)" using assms by (simp add: unat_gt_0)
  then have "unat (pi_nwrite p - pi_nread p - 1) = pipe_len p - 1" "0 < pipe_len p"
    using unat_dec [of "pi_nwrite p - pi_nread p"] by (simp_all add: pipe_len_def)
  then show len: "pipe_len p = pipe_len ?q + 1" by (simp add: pipe_len_def algebra_simps)
  have "unat (pi_nread p + 1) mod PIPESIZE = (unat (pi_nread p) + 1) mod PIPESIZE"
    using unat_add_mod [of PIPESIZE "pi_nread p" 1] by simp
  then have "(unat (pi_nread p + 1) + k) mod PIPESIZE = (unat (pi_nread p) + Suc k) mod PIPESIZE" for k
    by (metis add.assoc mod_add_left_eq plus_1_eq_Suc)
  then show "pipe_queue p = pipe_next p # pipe_queue ?q"
    unfolding pipe_queue_def len by (simp add: upt_conv_Cons pipe_next_def mod_word [simplified] comp_def del: upt_Suc flip: map_Suc_upt)
qed

section \<open>Writing and reading\<close>

lemma uspace_cong:
  assumes "uspace s ps pt" "mem t = mem s" "freelist t = freelist s" "kend t = kend s" "KmemLock \<notin> held t"
  shows "uspace t ps pt"
  using assms by (simp add: uspace_def ptab_def free_list_def page_ok_def)

lemma copyin_one:
  assumes "uspace s ps pt" "uget (mem s) pt a = Some b"
  shows "copyin pt a 1 s = Ret (0, [b]) s"
proof -
  obtain r bs where c: "copyin pt a 1 s = Ret (r, bs) s" "\<forall>k < length bs. uget (mem s) pt (a + of_nat k) = Some (bs ! k)"
      "if r = 0 then length bs = unat (1 :: u64)
       else r = - 1 \<and> length bs < unat (1 :: u64) \<and> uget (mem s) pt (a + of_nat (length bs)) = None"
    using copyin_spec [OF assms(1), of a 1] by blast
  have r: "r = 0" using c(3) assms(2) by (cases "r = 0") auto
  then obtain x where "bs = [x]" using c(3) by (cases bs) auto
  then show ?thesis using c(1,2) r assms(2) by simp
qed

lemma pipewrite_loop_exec:
  fixes s :: "'z kpipe_scheme"
  assumes "uspace s ps pt" "cur s = Some pr" "p_pagetable (ptable s pr) = pt" "held s = {PipeLock pi}"
    and "pipe_len (pipes s pi) + (n - i) \<le> PIPESIZE" "i \<le> n" "n < 2 ^ 32"
    and "\<And>k. k < n \<Longrightarrow> uget (mem s) pt (addr + of_nat k) = Some (f k)"
  shows "\<exists>p. pipewrite_loop pi addr n i s = Ret (int n) (s\<lparr>pipes := (pipes s)(pi := p), held := {},
      ptable := woken (ChanPipeRead pi) {..<NPROC} (ptable s)\<rparr>) \<and> pipe_ok p \<and>
    pipe_queue p = pipe_queue (pipes s pi) @ map f [i..<n]"
  using assms
proof (induction "n - i" arbitrary: i s)
  case 0
  then have "i = n" by simp
  then show ?case using 0
    by (cases s) (auto simp: pipewrite_loop.simps kexec pipe_ok_def fun_upd_idem intro!: exI [of _ "pipes s pi"])
next
  case (Suc m)
  then have i: "i < n" by simp
  let ?p = "pipes s pi"
  have len: "pipe_len ?p < PIPESIZE" using Suc.prems(5) i by simp
  have room: "pi_nwrite ?p \<noteq> pi_nread ?p + of_nat PIPESIZE"
  proof
    assume "pi_nwrite ?p = pi_nread ?p + of_nat PIPESIZE"
    then have "pipe_len ?p = unat (of_nat PIPESIZE :: u32)" by (simp add: pipe_len_def)
    then show False using len by simp
  qed
  let ?s = "s\<lparr>pipes := (pipes s)(pi := pipe_put (f i) ?p)\<rparr>"
  have step: "pipewrite_loop pi addr n i s = pipewrite_loop pi addr n (i + 1) ?s"
    using Suc.prems(2,3) i room copyin_one [OF Suc.prems(1) Suc.prems(8) [OF i]]
    by (subst pipewrite_loop.simps) (simp add: kexec proc_defs get_pipe_def set_pipe_def)
  have "\<exists>p. pipewrite_loop pi addr n (i + 1) ?s = Ret (int n) (?s\<lparr>pipes := (pipes ?s)(pi := p), held := {},
      ptable := woken (ChanPipeRead pi) {..<NPROC} (ptable ?s)\<rparr>) \<and> pipe_ok p \<and>
    pipe_queue p = pipe_queue (pipes ?s pi) @ map f [i + 1..<n]"
    using Suc.prems Suc.hyps(2) i pipe_put_queue(2) [OF len]
    by (intro Suc.hyps(1)) (auto intro: uspace_cong)
  then show ?case
    using step i pipe_put_queue(1) [OF len] by (auto simp: upt_conv_Cons)
qed

lemma copyout_one:
  fixes s :: "'z kmem_scheme"
  assumes "uspace s ps pt" "uget (mem s) pt a \<noteq> None"
  shows "\<exists>m f. copyout pt a [b] 1 s = Ret 0 (s\<lparr>freelist := f, mem := m\<rparr>) \<and> uspace (s\<lparr>freelist := f, mem := m\<rparr>) ps pt \<and>
    (\<forall>va. uget m pt va = (if va = a then Some b else uget (mem s) pt va))"
proof -
  have "wp (copyout pt a [b] 1) (copyout_post ps s pt a [b]) s" by (rule copyout_spec [OF assms(1)]) simp
  then obtain r t where t: "copyout pt a [b] 1 s = Ret r t" "copyout_post ps s pt a [b] r t" by (auto simp: wp_iff)
  then obtain j where j: "\<forall>va. uget (mem t) pt va =
        (if unat (va - a) < j then Some ([b] ! unat (va - a)) else uget (mem s) pt va)"
      "if r = 0 then j = 1 else r = - 1 \<and> j < 1 \<and> uget (mem s) pt (a + of_nat j) = None"
    and m: "mem_only s t" "uspace t ps pt"
    unfolding copyout_post_def list.size One_nat_def [symmetric] add_0 by blast
  have r: "r = 0" "j = 1" using j(2) assms(2) by (auto split: if_splits)
  have [simp]: "unat (va - a) = 0 \<longleftrightarrow> va = a" for va by (simp add: unat_eq_0)
  have g: "\<forall>va. uget (mem t) pt va = (if va = a then Some b else uget (mem s) pt va)"
    using j(1) by (simp add: r)
  have "s\<lparr>freelist := freelist t, mem := mem t\<rparr> = t" using m(1) by (simp add: mem_only_def)
  then show ?thesis using t(1) m(2) g r(1) by (intro exI [of _ "mem t"] exI [of _ "freelist t"]) simp
qed

definition piperead_post :: "u64 \<Rightarrow> u64 \<Rightarrow> u64 \<Rightarrow> nat \<Rightarrow> nat \<Rightarrow> 'z kpipe_scheme \<Rightarrow> int \<Rightarrow> 'z kpipe_scheme \<Rightarrow> bool" where
  "piperead_post pi pt addr n i s r t \<longleftrightarrow> (let q = pipe_queue (pipes s pi); m = min (n - i) (length q) in
     r = int (i + m) \<and> held t = {} \<and> pipe_queue (pipes t pi) = drop m q \<and>
     (\<forall>va. uget (mem t) pt va = (let k = unat (va - addr) in
        if i \<le> k \<and> k < i + m then Some (q ! (k - i)) else uget (mem s) pt va)))"

lemma length_pipe_queue [simp]: "length (pipe_queue p) = pipe_len p"
  by (simp add: pipe_queue_def)

lemma unat_offset: "k < 2 ^ 64 \<Longrightarrow> unat (va - addr) = k \<longleftrightarrow> va = addr + of_nat k" for va addr :: u64
  by (auto simp: unat_of_nat_small)

lemma piperead_loop_spec:
  fixes s :: "'z kpipe_scheme"
  assumes "uspace s ps pt" "cur s = Some pr" "p_pagetable (ptable s pr) = pt" "held s = {PipeLock pi}"
    and "n < 2 ^ 32" "i \<le> n" "\<forall>k < n. uget (mem s) pt (addr + of_nat k) \<noteq> None"
  shows "wp (piperead_loop pi addr n i) (piperead_post pi pt addr n i s) s"
  using assms
proof (induction "n - i" arbitrary: i s)
  case 0
  then have "i = n" by simp
  then show ?case using 0 by (auto simp: piperead_loop.simps [of pi addr n n] wp_def kexec piperead_post_def Let_def)
next
  case (Suc m)
  then have i: "i < n" by simp
  let ?p = "pipes s pi"
  show ?case
  proof (cases "pi_nread ?p = pi_nwrite ?p")
    case True
    then have "pipe_len ?p = 0" by (simp add: pipe_len_def)
    with True i Suc.prems show ?thesis
      by (auto simp: piperead_loop.simps [of pi addr n i] wp_def kexec proc_defs get_pipe_def piperead_post_def Let_def)
  next
    case False
    let ?q = "?p\<lparr>pi_nread := pi_nread ?p + 1\<rparr>"
    note q = pipe_get_queue [OF False]
    let ?s = "s\<lparr>pipes := (pipes s)(pi := ?q)\<rparr>"
    have us: "uspace ?s ps pt" "uget (mem ?s) pt (addr + of_nat i) \<noteq> None"
      using Suc.prems i by (auto intro: uspace_cong)
    obtain m f where c: "copyout pt (addr + of_nat i) [pipe_next ?p] 1 ?s = Ret 0 (?s\<lparr>freelist := f, mem := m\<rparr>)"
        "uspace (?s\<lparr>freelist := f, mem := m\<rparr>) ps pt"
        "\<forall>va. uget m pt va = (if va = addr + of_nat i then Some (pipe_next ?p) else uget (mem ?s) pt va)"
      using copyout_one [OF us, of "pipe_next ?p"] by (elim exE conjE) blast
    let ?t = "?s\<lparr>freelist := f, mem := m\<rparr>"
    have step: "piperead_loop pi addr n i s = piperead_loop pi addr n (i + 1) ?t"
      using Suc.prems(2,3) i False c(1)
      by (subst piperead_loop.simps) (simp add: kexec proc_defs get_pipe_def set_pipe_def)
    have "wp (piperead_loop pi addr n (i + 1)) (piperead_post pi pt addr n (i + 1) ?t) ?t"
      using Suc.prems Suc.hyps(2) i c(2,3) by (intro Suc.hyps(1)) auto
    then have "wp (piperead_loop pi addr n i) (piperead_post pi pt addr n (i + 1) ?t) s"
      by (simp add: wp_def step)
    then show ?thesis
    proof (rule wp_mono)
      fix r t assume post: "piperead_post pi pt addr n (i + 1) ?t r t"
      define k where "k = min (n - Suc i) (pipe_len ?q)"
      have mk: "min (n - i) (pipe_len ?p) = Suc k" using q(2) i by (simp add: k_def)
      have at: "unat (va - addr) = i \<longleftrightarrow> va = addr + of_nat i" for va
        using unat_offset [of i va addr] i Suc.prems(5) by simp
      have rest: "r = int (i + Suc k)" "held t = {}" "pipe_queue (pipes t pi) = drop k (pipe_queue ?q)"
        and g: "uget (mem t) pt va = (if i + 1 \<le> unat (va - addr) \<and> unat (va - addr) < i + 1 + k
          then Some (pipe_queue ?q ! (unat (va - addr) - (i + 1))) else uget m pt va)" for va
        using post by (simp_all add: piperead_post_def Let_def k_def)
      have get: "uget (mem t) pt va = (if i \<le> unat (va - addr) \<and> unat (va - addr) < i + Suc k
          then Some ((pipe_next ?p # pipe_queue ?q) ! (unat (va - addr) - i)) else uget (mem s) pt va)" for va
        using at [of va] c(3) by (auto simp: g nth_Cons')
      show "piperead_post pi pt addr n i s r t"
        unfolding piperead_post_def Let_def length_pipe_queue mk unfolding q(1) get using rest by simp
    qed
  qed
qed

section \<open>Properties\<close>

text \<open>
  C14: a pipe is a first-in first-out queue of bytes. When the ring has room for the bytes \<open>bs\<close> a process asks to
  write, \<open>pipewrite\<close> returns their number and they stand at the end of the queue, whatever the two free-running
  32-bit counters are. A following \<open>piperead\<close> of \<open>m\<close> bytes returns the oldest bytes, at most \<open>m\<close>, in the
  order they were written, stores them in the reader's memory and nothing else there, and leaves the rest
  queued. Both release the lock of the pipe.
\<close>

theorem pipe_fifo:
  fixes s :: "'z kpipe_scheme"
  assumes "p_pagetable (ptable s pr) = pt" "uspace s ps pt" "cur s = Some pr" "held s = {}"
    and "bs \<noteq> []" "pipe_len (pipes s pi) + length bs \<le> PIPESIZE"
    and "\<And>k. k < length bs \<Longrightarrow> uget (mem s) pt (addr + of_nat k) = Some (bs ! k)"
    and "m < 2 ^ 32" "\<forall>k < m. uget (mem s) pt (dst + of_nat k) \<noteq> None"
  shows "\<exists>t. pipewrite pi addr (int (length bs)) s = Ret (int (length bs)) t \<and> held t = {} \<and>
    pipe_queue (pipes t pi) = pipe_queue (pipes s pi) @ bs \<and> mem t = mem s \<and>
    wp (piperead pi dst (int m)) (\<lambda>r u.
      let q = pipe_queue (pipes s pi) @ bs; n = min m (length q) in
      r = int n \<and> held u = {} \<and> pipe_queue (pipes u pi) = drop n q \<and>
      (\<forall>va. uget (mem u) pt va = (if unat (va - dst) < n then Some (q ! unat (va - dst)) else uget (mem s) pt va))) t"
proof -
  let ?n = "length bs" and ?s = "s\<lparr>held := {PipeLock pi}\<rparr>"
  have us: "uspace ?s ps pt" by (rule uspace_cong [OF assms(2)]) auto
  have cur: "cur ?s = Some pr" "p_pagetable (ptable ?s pr) = pt" using assms(1,3) by simp_all
  have room: "pipe_len (pipes ?s pi) + (?n - 0) \<le> PIPESIZE" using assms(6) by simp
  have src: "uget (mem ?s) pt (addr + of_nat k) = Some (bs ! k)" if "k < ?n" for k using assms(7) [OF that] by simp
  obtain p where w: "pipewrite_loop pi addr ?n 0 ?s = Ret (int ?n) (?s\<lparr>pipes := (pipes ?s)(pi := p), held := {},
        ptable := woken (ChanPipeRead pi) {..<NPROC} (ptable ?s)\<rparr>)"
      "pipe_ok p" "pipe_queue p = pipe_queue (pipes s pi) @ bs"
    using pipewrite_loop_exec [OF us cur _ room _ _ src] assms(6) by (auto simp: map_nth)
  let ?t = "s\<lparr>pipes := (pipes s)(pi := p), held := {}, ptable := woken (ChanPipeRead pi) {..<NPROC} (ptable s)\<rparr>"
  have pw: "pipewrite pi addr (int ?n) s = Ret (int ?n) ?t" using w(1) assms(4) by (simp add: pipewrite_def kexec)
  have "pipe_len p > 0" using arg_cong [OF w(3), of length] assms(5) by simp
  then have ne: "pi_nread p \<noteq> pi_nwrite p" by (auto simp: pipe_len_def)
  let ?u = "?t\<lparr>held := {PipeLock pi}\<rparr>"
  have "wp (piperead_loop pi dst m 0) (piperead_post pi pt dst m 0 ?u) ?u"
    by (rule piperead_loop_spec [where pr = pr and ps = ps])
      (use us cur assms(8,9) in \<open>auto simp: woken_def intro: uspace_cong\<close>)
  then have "wp (piperead pi dst (int m)) (piperead_post pi pt dst m 0 ?u) ?t"
    using assms(3,4) ne by (simp add: piperead_def piperead_wait_def wp_def kexec proc_defs get_pipe_def)
  then have "wp (piperead pi dst (int m)) (\<lambda>r u. let q = pipe_queue (pipes s pi) @ bs; n = min m (length q) in
      r = int n \<and> held u = {} \<and> pipe_queue (pipes u pi) = drop n q \<and> (\<forall>va. uget (mem u) pt va =
      (if unat (va - dst) < n then Some (q ! unat (va - dst)) else uget (mem s) pt va))) ?t"
    by (rule wp_mono) (simp add: piperead_post_def w(3) Let_def)
  then show ?thesis using pw w(3) by (intro exI [of _ ?t]) simp
qed

text \<open>A process whose memory is the page at address zero, and an empty pipe whose counters are about to wrap.\<close>

definition zero_sb :: superblock where
  "zero_sb = \<lparr>sb_magic = 0, sb_size = 0, sb_nblocks = 0, sb_ninodes = 0, sb_nlog = 0, sb_logstart = 0, sb_inodestart = 0,
     sb_bmapstart = 0\<rparr>"

definition zero_inode :: inode where
  "zero_inode = \<lparr>i_dev = 0, i_inum = 0, i_ref = 0, i_valid = False,
     i_d = \<lparr>d_type = 0, d_major = 0, d_minor = 0, d_nlink = 0, d_size = 0, d_addrs = (\<lambda>_. 0)\<rparr>\<rparr>"

definition zero_log :: log_struct where
  "zero_log = \<lparr>l_start = 2, l_size = 30, l_outstanding = 0, l_committing = 0, l_dev = ROOTDEV,
     l_lh = \<lparr>lh_n = 0, lh_block = (\<lambda>_. 0)\<rparr>\<rparr>"

definition zero_fs :: "(u32 \<Rightarrow> block) \<Rightarrow> 'z \<Rightarrow> 'z kfs_scheme" where
  "zero_fs d z = zero_bio d (klog_ext zero_log (kfs_ext zero_sb (\<lambda>_. zero_inode) z))"

definition demo_pipe :: kpipe where
  "demo_pipe = (zero_fs (\<lambda>_. zero_block) (kpipe_ext (\<lambda>_. \<lparr>pi_data = (\<lambda>_. 0), pi_nread = - 1, pi_nwrite = - 1,
       pi_readopen = True, pi_writeopen = True\<rparr>) ()))
    \<lparr>mem := demo_mem, kend := 0x87FFC000, cur := Some 0, ptable := (\<lambda>_. zero_proc\<lparr>p_pagetable := 0x87FFC000\<rparr>)\<rparr>"

theorem pipe_fifo_witness: "\<exists>t. pipewrite 0 4 3 demo_pipe = Ret 3 t \<and> wp (piperead 0 16 2) (\<lambda>r u. r = 2) t"
proof -
  let ?f = "\<lambda>k. the (uget demo_mem 0x87FFC000 (4 + of_nat k))"
  have g: "uget demo_mem 0x87FFC000 (a + of_nat k) \<noteq> None" if "k < 3" "a = 4 \<or> a = 16" for k a
  proof -
    have "k = 0 \<or> k = 1 \<or> k = 2" using that by linarith
    then have "PGROUNDDOWN (a + of_nat k) = 0" "(a + of_nat k :: u64) < MAXVA"
      using that(2) by (auto simp: PGROUNDDOWN_def)
    then show ?thesis
      using demo_lookup [of "a + of_nat k"] demo_valid by (simp add: uget_def user_page_def)
  qed
  have s: "mem demo_pipe = demo_mem" "held demo_pipe = {}" "cur demo_pipe = Some 0" "pipe_len (pipes demo_pipe 0) = 0"
    "p_pagetable (ptable demo_pipe 0) = 0x87FFC000"
    by (simp_all add: demo_pipe_def zero_fs_def zero_bio_def pipe_len_def)
  have us: "uspace demo_pipe [] 0x87FFC000"
    by (rule uspace_cong [OF demo_uspace]) (simp_all add: demo_pipe_def zero_fs_def zero_bio_def demo_def)
  show ?thesis
    using pipe_fifo [OF s(5) us s(3,2), of "map ?f [0..<3]" 0 4 2 16] g by (auto simp: s Let_def wp_iff)
qed

end
