(* ===== verification/Console.thy ===== *)
theory Console
  imports Pipe
begin

text \<open>
  Serial port, console and kernel \<open>printf\<close>: src/kernel/uart.c, src/kernel/console.c, src/kernel/printf.c, and
  \<open>procdump\<close> of src/kernel/proc.c. The serial port is a device outside the program: the value register
  \<open>r\<close> gives at the \<open>n\<close>-th register read is a parameter of the state (\<open>uart_dev\<close>), and the writes to its
  registers are recorded in order. A loop that waits for the device is a partial function: it has no result
  if the device never answers.
\<close>

section \<open>State\<close>

abbreviation (input) RHR :: nat where "RHR \<equiv> 0"
abbreviation (input) THR :: nat where "THR \<equiv> 0"
abbreviation (input) IER :: nat where "IER \<equiv> 1"
abbreviation (input) FCR :: nat where "FCR \<equiv> 2"
abbreviation (input) LCR :: nat where "LCR \<equiv> 3"
abbreviation (input) LSR :: nat where "LSR \<equiv> 5"
abbreviation (input) LSR_TX_IDLE :: u8 where "LSR_TX_IDLE \<equiv> 0x20"
abbreviation (input) UART_TX_BUF_SIZE :: nat where "UART_TX_BUF_SIZE \<equiv> 32"
abbreviation (input) INPUT_BUF :: nat where "INPUT_BUF \<equiv> 128"
abbreviation (input) BACKSPACE :: u32 where "BACKSPACE \<equiv> 0x100"
abbreviation (input) CTRL_D :: u8 where "CTRL_D \<equiv> 4"
abbreviation (input) NEWLINE :: u8 where "NEWLINE \<equiv> 10"

record cons =
  c_buf :: "nat \<Rightarrow> u8"
  c_r :: u32
  c_w :: u32
  c_e :: u32

record kcons = kpipe +
  uart_dev :: "nat \<Rightarrow> nat \<Rightarrow> u8"
  uart_time :: nat
  uart_out :: "(nat \<times> u8) list"
  tx_buf :: "nat \<Rightarrow> u8"
  tx_w :: nat
  tx_r :: nat
  panicked :: bool
  cons_st :: cons
  pr_locking :: bool

definition ReadReg :: "nat \<Rightarrow> (u8, 'z kcons_scheme) kop" where
  "ReadReg r = (\<lambda>s. Ret (uart_dev s r (uart_time s)) (s\<lparr>uart_time := uart_time s + 1\<rparr>))"

definition WriteReg :: "nat \<Rightarrow> u8 \<Rightarrow> (unit, 'z kcons_scheme) kop" where
  "WriteReg r v = kmodify (\<lambda>s. s\<lparr>uart_out := uart_out s @ [(r, v)]\<rparr>)"

definition set_cons :: "(cons \<Rightarrow> cons) \<Rightarrow> (unit, 'z kcons_scheme) kop" where
  "set_cons f = kmodify (\<lambda>s. s\<lparr>cons_st := f (cons_st s)\<rparr>)"

lemmas uart_defs = ReadReg_def WriteReg_def set_cons_def

section \<open>The serial port\<close>

definition uartinit :: "(unit, 'z kcons_scheme) kop" where
  "uartinit = kseq [
     WriteReg IER 0x00,
     WriteReg LCR 0x80,
     WriteReg 0 0x03,
     WriteReg 1 0x00,
     WriteReg LCR 0x03,
     WriteReg FCR (0x01 OR 0x06),
     WriteReg IER (0x01 OR 0x02)]"

text \<open>
  The loop of \<open>uartstart\<close> sends a byte of the ring in each round, so it ends before the number of rounds
  the argument allows for, the size of the ring, runs out.
\<close>

fun uartstart_loop :: "nat \<Rightarrow> (unit, 'z kcons_scheme) kop" where
  "uartstart_loop 0 = kdiverge"
| "uartstart_loop (Suc n) = kbind (kget id) (\<lambda>s.
     if tx_w s = tx_r s then kreturn ()
     else kbind (ReadReg LSR) (\<lambda>lsr.
       if lsr AND LSR_TX_IDLE = 0 then kreturn ()
       else kthen (kseq [
         kmodify (\<lambda>s. s\<lparr>tx_r := (tx_r s + 1) mod UART_TX_BUF_SIZE\<rparr>),
         wakeup ChanUart,
         WriteReg THR (tx_buf s (tx_r s))]) (uartstart_loop n)))"

definition uartstart :: "(unit, 'z kcons_scheme) kop" where
  "uartstart = uartstart_loop UART_TX_BUF_SIZE"

definition uartputc_loop :: "u8 \<Rightarrow> (unit, 'z kcons_scheme) kop" where
  "uartputc_loop c = kbind (kget id) (\<lambda>s.
     if (tx_w s + 1) mod UART_TX_BUF_SIZE = tx_r s then sleep ChanUart UartLock
     else kseq [
       kmodify (\<lambda>s. s\<lparr>tx_buf := (tx_buf s)(tx_w s := c)\<rparr>),
       kmodify (\<lambda>s. s\<lparr>tx_w := (tx_w s + 1) mod UART_TX_BUF_SIZE\<rparr>),
       uartstart,
       kunlock UartLock])"

definition uartputc :: "u8 \<Rightarrow> (unit, 'z kcons_scheme) kop" where
  "uartputc c = kseq [
     klock UartLock,
     kbind (kget panicked) (\<lambda>p. if p then kdiverge else kreturn ()),
     uartputc_loop c]"

definition uartputc_resume :: "u8 \<Rightarrow> (unit, 'z kcons_scheme) kop" where
  "uartputc_resume c = kthen (sleep_resume UartLock) (uartputc_loop c)"

text \<open>Spinning until the port can take a byte: the time of the read that says so.\<close>

partial_function (option) uart_wait :: "(nat \<Rightarrow> u8) \<Rightarrow> nat \<Rightarrow> nat option" where
  "uart_wait lsr n = (if lsr n AND LSR_TX_IDLE = 0 then uart_wait lsr (n + 1) else Some n)"

definition wait_idle :: "(unit, 'z kcons_scheme) kop" where
  "wait_idle = (\<lambda>s. case uart_wait (uart_dev s LSR) (uart_time s) of
       None \<Rightarrow> Diverge | Some n \<Rightarrow> Ret () (s\<lparr>uart_time := n + 1\<rparr>))"

definition uartputc_sync :: "u32 \<Rightarrow> (unit, 'z kcons_scheme) kop" where
  "uartputc_sync c = kseq [
     kbind (kget panicked) (\<lambda>p. if p then kdiverge else kreturn ()),
     wait_idle,
     WriteReg THR (ucast c)]"

definition uartgetc :: "(int, 'z kcons_scheme) kop" where
  "uartgetc = kbind (ReadReg LSR) (\<lambda>lsr.
     if lsr AND 0x01 \<noteq> 0 then kbind (ReadReg RHR) (\<lambda>c. kreturn (uint c)) else kreturn (- 1))"

section \<open>Formatted output\<close>

definition consputc :: "u32 \<Rightarrow> (unit, 'z kcons_scheme) kop" where
  "consputc c = (if c = BACKSPACE then kseq [uartputc_sync 8, uartputc_sync 32, uartputc_sync 8] else uartputc_sync c)"

definition digits :: "u8 list" where
  "digits = map of_nat ([48..<58] @ [97..<103])"

text \<open>
  The digits of \<open>x\<close> in the order \<open>printint\<close> finds them, the last one first. The bases in use are 10 and 16;
  the second test only ensures termination for the others.
\<close>

function digit_loop :: "u32 \<Rightarrow> u32 \<Rightarrow> u8 list" where
  "digit_loop x base = digits ! unat (x mod base) #
     (if x div base \<noteq> 0 \<and> base > 1 then digit_loop (x div base) base else [])"
  by pat_completeness auto
termination
proof (relation "measure (\<lambda>(x, base). unat x)", simp_all, clarify)
  fix x base :: u32
  assume a: "x div base \<noteq> 0" "1 < base"
  then have "0 < unat x" by (cases "x = 0") (auto simp: unat_gt_0)
  moreover have "1 < unat base" using a(2) by (simp add: word_less_nat_alt)
  ultimately show "unat (x div base) < unat x" by (simp add: unat_div)
qed

declare digit_loop.simps [simp del]

definition printint :: "u32 \<Rightarrow> u32 \<Rightarrow> bool \<Rightarrow> (unit, 'z kcons_scheme) kop" where
  "printint xx base sign = (let neg = (sign \<and> sint xx < 0);
       x = (if neg then - xx else xx);
       buf = digit_loop x base @ (if neg then [45] else [])
     in kfor (rev buf) (\<lambda>c. consputc (ucast c)))"

definition printptr :: "u64 \<Rightarrow> (unit, 'z kcons_scheme) kop" where
  "printptr x = kseq [
     consputc 48,
     consputc 120,
     kfor [0..<16] (\<lambda>i. consputc (ucast (digits ! unat (drop_bit 60 (push_bit (4 * i) x)))))]"

text \<open>
  The arguments of \<open>printf\<close>; a string is the list of its bytes, or the null pointer. Reading an argument
  that is not there or has another type is undefined.
\<close>

datatype parg = PInt u32 | PPtr u64 | PStr "u8 list option"

definition print_bytes :: "u8 list \<Rightarrow> (unit, 'z kcons_scheme) kop" where
  "print_bytes bs = kfor bs (\<lambda>c. consputc (ucast c))"

definition chars :: "string \<Rightarrow> u8 list" where
  "chars = map of_char"

definition print_conv :: "u8 \<Rightarrow> parg list \<Rightarrow> (parg list, 'z kcons_scheme) kop" where
  "print_conv c ap =
     (if c = of_char (CHR ''d'') then (case ap of PInt x # ap \<Rightarrow> kthen (printint x 10 True) (kreturn ap) | _ \<Rightarrow> kdiverge)
      else if c = of_char (CHR ''x'') then (case ap of PInt x # ap \<Rightarrow> kthen (printint x 16 True) (kreturn ap) | _ \<Rightarrow> kdiverge)
      else if c = of_char (CHR ''p'') then (case ap of PPtr x # ap \<Rightarrow> kthen (printptr x) (kreturn ap) | _ \<Rightarrow> kdiverge)
      else if c = of_char (CHR ''s'') then (case ap of
          PStr s # ap \<Rightarrow> kthen (print_bytes (case s of None \<Rightarrow> chars ''(null)'' | Some bs \<Rightarrow> bs)) (kreturn ap) | _ \<Rightarrow> kdiverge)
      else if c = of_char (CHR ''%'') then kthen (consputc (of_char (CHR ''%''))) (kreturn ap)
      else kthen (kthen (consputc (of_char (CHR ''%''))) (consputc (ucast c))) (kreturn ap))"

fun printf_loop :: "u8 list \<Rightarrow> parg list \<Rightarrow> (unit, 'z kcons_scheme) kop" where
  "printf_loop [] ap = kreturn ()"
| "printf_loop [c] ap = (if c \<noteq> of_char (CHR ''%'') then consputc (ucast c) else kreturn ())"
| "printf_loop (c # d # fmt) ap = (if c \<noteq> of_char (CHR ''%'') then kthen (consputc (ucast c)) (printf_loop (d # fmt) ap)
     else kbind (print_conv d ap) (printf_loop fmt))"

definition printf :: "string \<Rightarrow> parg list \<Rightarrow> (unit, 'z kcons_scheme) kop" where
  "printf fmt ap = kbind (kget pr_locking) (\<lambda>locking. kseq [
     kwhen locking (klock PrLock),
     printf_loop (chars fmt) ap,
     kwhen locking (kunlock PrLock)])"

text \<open>What \<open>panic\<close> does before it stops the machine.\<close>

definition panic_report :: "string \<Rightarrow> (unit, 'z kcons_scheme) kop" where
  "panic_report msg = kseq [
     kmodify (\<lambda>s. s\<lparr>pr_locking := False\<rparr>),
     printf ''panic: '' [],
     printf msg [],
     printf (CHR 0x0A # []) [],
     kmodify (\<lambda>s. s\<lparr>panicked := True\<rparr>)]"

definition panic :: "string \<Rightarrow> (unit, 'z kcons_scheme) kop" where
  "panic msg = kthen (panic_report msg) (kpanic msg)"

definition printfinit :: "(unit, 'z kcons_scheme) kop" where
  "printfinit = kmodify (\<lambda>s. s\<lparr>pr_locking := True\<rparr>)"

section \<open>The process listing\<close>

fun state_name :: "procstate \<Rightarrow> string" where
  "state_name UNUSED = ''unused''"
| "state_name SLEEPING = ''sleep ''"
| "state_name RUNNABLE = ''runble''"
| "state_name RUNNING = ''run   ''"
| "state_name ZOMBIE = ''zombie''"

text \<open>The string in the 16 bytes of a process name; without a NUL the code would read past the array.\<close>

definition proc_name :: "proc \<Rightarrow> u8 list option" where
  "proc_name p = (let bs = map (p_name p) [0..<16] in if 0 \<in> set bs then Some (takeWhile (\<lambda>c. c \<noteq> 0) bs) else None)"

definition procdump_one :: "nat \<Rightarrow> (unit, 'z kcons_scheme) kop" where
  "procdump_one i = kbind (get_proc i id) (\<lambda>p.
     if p_state p = UNUSED then kreturn ()
     else case proc_name p of None \<Rightarrow> kdiverge
       | Some nm \<Rightarrow> kseq [
           printf ''%d %s %s'' [PInt (p_pid p), PStr (Some (chars (state_name (p_state p)))), PStr (Some nm)],
           printf (CHR 0x0A # []) []])"

definition procdump :: "(unit, 'z kcons_scheme) kop" where
  "procdump = kthen (printf (CHR 0x0A # []) []) (kfor [0..<NPROC] procdump_one)"

section \<open>The console\<close>

text \<open>\<open>consolewrite\<close> returns the number of bytes written.\<close>

function consolewrite_loop :: "xsrc \<Rightarrow> nat \<Rightarrow> nat \<Rightarrow> (int, 'z kcons_scheme) kop" where
  "consolewrite_loop src n i =
     (if i < n then kbind (either_copyin src 1) (\<lambda>(r, bs).
        if r = - 1 then kthen (kunlock ConsLock) (kreturn (int i))
        else kthen (uartputc (hd bs)) (consolewrite_loop (src_add src 1) n (i + 1)))
      else kthen (kunlock ConsLock) (kreturn (int i)))"
  by pat_completeness auto
termination
  by (relation "measure (\<lambda>(src, n, i). n - i)") auto

declare consolewrite_loop.simps [simp del]

definition consolewrite :: "xsrc \<Rightarrow> int \<Rightarrow> (int, 'z kcons_scheme) kop" where
  "consolewrite src n = kthen (klock ConsLock) (consolewrite_loop src (nat n) 0)"

text \<open>
  The loop of \<open>consoleread\<close> with \<open>n\<close> bytes still wanted of \<open>target\<close>, entered with the lock held. A thread
  that waits for input continues with \<open>consoleread_resume\<close>.
\<close>

fun consoleread_loop :: "xdst \<Rightarrow> nat \<Rightarrow> nat \<Rightarrow> u8 list \<Rightarrow> (int \<times> u8 list, 'z kcons_scheme) kop" where
  "consoleread_loop dst target 0 acc = kthen (kunlock ConsLock) (kreturn (int target, acc))"
| "consoleread_loop dst target (Suc n) acc = kbind (kget cons_st) (\<lambda>c.
     if c_r c = c_w c then
       kbind the_proc (\<lambda>p. kbind (get_proc p p_killed) (\<lambda>killed.
         if killed then kthen (kunlock ConsLock) (kreturn (- 1, acc))
         else sleep_on ChanCons ConsLock))
     else let ch = c_buf c (unat (c_r c) mod INPUT_BUF) in
       kthen (set_cons (\<lambda>c. c\<lparr>c_r := c_r c + 1\<rparr>))
       (if ch = CTRL_D then
          kthen (kseq [kwhen (Suc n < target) (set_cons (\<lambda>c. c\<lparr>c_r := c_r c - 1\<rparr>)), kunlock ConsLock])
            (kreturn (int (target - Suc n), acc))
        else kbind (either_copyout dst [ch]) (\<lambda>(r, bs).
          if r = - 1 then kthen (kunlock ConsLock) (kreturn (int (target - Suc n), acc))
          else if ch = NEWLINE then kthen (kunlock ConsLock) (kreturn (int (target - n), acc @ bs))
          else consoleread_loop (dst_add dst 1) target n (acc @ bs))))"

definition consoleread :: "xdst \<Rightarrow> int \<Rightarrow> (int \<times> u8 list, 'z kcons_scheme) kop" where
  "consoleread dst n = kthen (klock ConsLock) (consoleread_loop dst (nat n) (nat n) [])"

definition consoleread_resume :: "xdst \<Rightarrow> nat \<Rightarrow> nat \<Rightarrow> u8 list \<Rightarrow> (int \<times> u8 list, 'z kcons_scheme) kop" where
  "consoleread_resume dst target n acc = kthen (sleep_resume ConsLock) (consoleread_loop dst target n acc)"

text \<open>Control-U: erase back to the start of the line.\<close>

function kill_line :: "u32 \<Rightarrow> u32 \<Rightarrow> (unit, 'z kcons_scheme) kop" where
  "kill_line e w = (if e \<noteq> w then kbind (kget cons_st) (\<lambda>c.
       if c_buf c (unat (e - 1) mod INPUT_BUF) \<noteq> NEWLINE then
         kthen (kseq [set_cons (\<lambda>c. c\<lparr>c_e := e - 1\<rparr>), consputc BACKSPACE]) (kill_line (e - 1) w)
       else kreturn ())
     else kreturn ())"
  by pat_completeness auto
termination
proof (relation "measure (\<lambda>(e, w). unat (e - w))", simp)
  fix e w :: u32
  assume "e \<noteq> w"
  then have "unat (e - w - 1) < unat (e - w)" using unat_dec [of "e - w"] by (simp add: unat_gt_0)
  then show "((e - 1, w), (e, w)) \<in> measure (\<lambda>(e, w). unat (e - w))" by (simp add: algebra_simps)
qed

declare kill_line.simps [simp del]

definition cons_input :: "u8 \<Rightarrow> (unit, 'z kcons_scheme) kop" where
  "cons_input c = kbind (kget cons_st) (\<lambda>st.
     kwhen (c \<noteq> 0 \<and> c_e st - c_r st < of_nat INPUT_BUF)
       (let c = (if c = 13 then NEWLINE else c) in kseq [
         consputc (ucast c),
         set_cons (\<lambda>st. st\<lparr>c_buf := (c_buf st)(unat (c_e st) mod INPUT_BUF := c), c_e := c_e st + 1\<rparr>),
         kbind (kget cons_st) (\<lambda>st.
           kwhen (c = NEWLINE \<or> c = CTRL_D \<or> c_e st = c_r st + of_nat INPUT_BUF)
             (kthen (set_cons (\<lambda>st. st\<lparr>c_w := c_e st\<rparr>)) (wakeup ChanCons)))]))"

text \<open>The \<open>switch\<close> of \<open>consoleintr\<close>.\<close>

definition cons_key :: "u8 \<Rightarrow> (unit, 'z kcons_scheme) kop" where
  "cons_key c = (if c = 16 then procdump
      else if c = 21 then kbind (kget cons_st) (\<lambda>st. kill_line (c_e st) (c_w st))
      else if c = 8 \<or> c = 0x7F then kbind (kget cons_st) (\<lambda>st. kwhen (c_e st \<noteq> c_w st)
        (kthen (set_cons (\<lambda>st. st\<lparr>c_e := c_e st - 1\<rparr>)) (consputc BACKSPACE)))
      else cons_input c)"

definition consoleintr :: "u8 \<Rightarrow> (unit, 'z kcons_scheme) kop" where
  "consoleintr c = kseq [klock ConsLock, cons_key c, kunlock ConsLock]"

section \<open>The interrupt of the serial port\<close>

partial_function (option) uartintr_loop :: "'z kcons_scheme \<Rightarrow> (unit, 'z kcons_scheme) outcome option" where
  "uartintr_loop s = (case uartgetc s of
       Ret c t \<Rightarrow> if c = - 1 then Some (Ret () t)
         else (case consoleintr (of_int c) t of
             Ret x u \<Rightarrow> uartintr_loop u | Panic e \<Rightarrow> Some (Panic e) | Sleep u \<Rightarrow> Some (Sleep u) | Diverge \<Rightarrow> Some Diverge)
     | Panic e \<Rightarrow> Some (Panic e) | Sleep t \<Rightarrow> Some (Sleep t) | Diverge \<Rightarrow> Some Diverge)"

definition uartintr :: "(unit, 'z kcons_scheme) kop" where
  "uartintr = kseq [
     (\<lambda>s. case uartintr_loop s of None \<Rightarrow> Diverge | Some r \<Rightarrow> r),
     klock UartLock,
     uartstart,
     kunlock UartLock]"

section \<open>Output to an idle port\<close>

text \<open>A port that is ready for the next byte whenever it is asked, on a machine that has not panicked.\<close>

definition idle :: "'z kcons_scheme \<Rightarrow> bool" where
  "idle s \<longleftrightarrow> \<not> panicked s \<and> (\<forall>n. uart_dev s LSR n AND LSR_TX_IDLE \<noteq> 0)"

definition sent :: "u8 list \<Rightarrow> 'z kcons_scheme \<Rightarrow> 'z kcons_scheme" where
  "sent bs s = s\<lparr>uart_time := uart_time s + length bs, uart_out := uart_out s @ map (Pair THR) bs\<rparr>"

definition echo :: "u32 \<Rightarrow> u8 list" where
  "echo c = (if c = BACKSPACE then [8, 32, 8] else [ucast c])"

lemma sent_sel [simp]:
  "idle (sent bs s) = idle s" "cons_st (sent bs s) = cons_st s" "held (sent bs s) = held s" "ptable (sent bs s) = ptable s"
  "uart_out (sent bs s) = uart_out s @ map (Pair THR) bs" "pr_locking (sent bs s) = pr_locking s"
  by (simp_all add: sent_def idle_def)

lemma sent_Nil [simp]: "sent [] s = s"
  by (simp add: sent_def)

lemma sent_sent [simp]: "sent bs (sent as s) = sent (as @ bs) s"
  by (simp add: sent_def)

lemma sent_cons [simp]: "(sent bs s)\<lparr>cons_st := c\<rparr> = sent bs (s\<lparr>cons_st := c\<rparr>)"
  by (simp add: sent_def)

lemma uartputc_sync_exec:
  assumes "idle s"
  shows "uartputc_sync c s = Ret () (sent [ucast c] s)"
  using assms by (simp add: uartputc_sync_def kexec wait_idle_def uart_wait.simps [of "uart_dev s LSR"] idle_def uart_defs sent_def)

lemma consputc_exec [kexec]:
  assumes "idle s"
  shows "consputc c s = Ret () (sent (echo c) s)"
  using assms by (simp add: consputc_def kexec uartputc_sync_exec echo_def)

lemma echo_byte [simp]: "echo (ucast (b :: u8)) = [b]"
proof -
  have "(ucast b :: u32) \<noteq> 0x100" using unat_bound [of b] by (auto simp: word_unat_eq_iff unsigned_ucast_eq take_bit_nat_eq_self)
  moreover have "ucast (ucast b :: u32) = b" by (rule bit_word_eqI) (auto simp: bit_simps)
  ultimately show ?thesis by (simp add: echo_def)
qed

lemma kfor_consputc: "idle s \<Longrightarrow> kfor bs (\<lambda>c. consputc (ucast c)) s = Ret () (sent bs s)"
  by (induction bs arbitrary: s) (simp_all add: kexec)

lemma print_bytes_exec [kexec]: "idle s \<Longrightarrow> print_bytes bs s = Ret () (sent bs s)"
  by (simp add: print_bytes_def kfor_consputc)

section \<open>Numerals\<close>

definition digit_value :: "u8 \<Rightarrow> nat" where
  "digit_value d = (if unat d < 58 then unat d - 48 else unat d - 87)"

lemma digit_digits: "k < 16 \<Longrightarrow> digit_value (digits ! k) = k"
proof -
  have "\<forall>k \<in> set [0..<16]. digit_value (digits ! k) = k" by code_simp
  then show "k < 16 \<Longrightarrow> digit_value (digits ! k) = k" by simp
qed

definition numeral_value :: "nat \<Rightarrow> u8 list \<Rightarrow> nat" where
  "numeral_value base ds = foldl (\<lambda>a d. a * base + digit_value d) 0 ds"

lemma numeral_value_snoc: "numeral_value base (ds @ [d]) = numeral_value base ds * base + digit_value d"
  by (simp add: numeral_value_def)

lemma digit_loop_value:
  assumes "1 < base" "base \<le> 16"
  shows "numeral_value (unat base) (rev (digit_loop x base)) = unat x"
  using assms
proof (induction x base rule: digit_loop.induct)
  case (1 x base)
  have m: "unat (x mod base) < 16"
  proof -
    have "unat x mod unat base < unat base" using "1.prems"(1) by (simp add: word_less_nat_alt)
    also have "\<dots> \<le> 16" using "1.prems"(2) by (simp add: word_le_nat_alt)
    finally show ?thesis by (simp add: unat_mod)
  qed
  show ?case
  proof (cases "x div base = 0")
    case True
    then have "unat x div unat base = 0" by (metis unat_div unat_0)
    then have "unat x mod unat base = unat x" by (metis mult_zero_right add_0 div_mult_mod_eq mult.commute)
    then show ?thesis
      using True m digit_digits [OF m] by (simp add: digit_loop.simps [of x] numeral_value_def unat_mod)
  next
    case False
    then have "numeral_value (unat base) (rev (digit_loop (x div base) base)) = unat x div unat base"
      using "1.IH" "1.prems" by (simp add: unat_div)
    then show ?thesis
      using False "1.prems" digit_digits [OF m] by (simp add: digit_loop.simps [of x] numeral_value_snoc unat_mod)
  qed
qed

lemma digit_loop_digits:
  assumes "1 < base" "base \<le> 16"
  shows "set (digit_loop x base) \<subseteq> set (take (unat base) digits)"
  using assms
proof (induction x base rule: digit_loop.induct)
  case (1 x base)
  have "unat (x mod base) < unat base" using "1.prems"(1) by (simp add: unat_mod word_less_nat_alt)
  moreover have "unat base \<le> 16" "length digits = 16" using "1.prems"(2) by (simp_all add: word_le_nat_alt digits_def)
  ultimately have "digits ! unat (x mod base) \<in> set (take (unat base) digits)"
    by (auto simp: in_set_conv_nth intro!: exI [of _ "unat (x mod base)"])
  then show ?case using 1 by (auto simp: digit_loop.simps [of x])
qed

lemma digit_loop_ne [simp]: "digit_loop x base \<noteq> []"
  by (simp add: digit_loop.simps [of x])

lemma digit_loop_leading:
  assumes "1 < base" "base \<le> 16" "x \<noteq> 0"
  shows "hd (rev (digit_loop x base)) \<noteq> 48"
  using assms
proof (induction x base rule: digit_loop.induct)
  case (1 x base)
  show ?case
  proof (cases "x div base = 0")
    case True
    then have "x mod base = x" by (metis mult_zero_left add_0 div_mult_mod_eq)
    moreover have "unat (x mod base) < 16"
      using "1.prems"(1,2) by (simp add: unat_mod word_less_nat_alt word_le_nat_alt less_le_trans [OF mod_less_divisor])
    ultimately have "digit_value (digits ! unat (x mod base)) = unat x" using digit_digits by simp
    then have "digits ! unat (x mod base) \<noteq> 48" using "1.prems"(3) by (auto simp: digit_value_def unat_eq_0)
    then show ?thesis using True by (simp add: digit_loop.simps [of x])
  next
    case False
    then show ?thesis using 1 by (simp add: digit_loop.simps [of x] hd_append)
  qed
qed

lemma printint_exec [kexec]:
  assumes "idle s"
  shows "printint xx base sign s = Ret () (sent ((if sign \<and> sint xx < 0 then [45] else []) @
    rev (digit_loop (if sign \<and> sint xx < 0 then - xx else xx) base)) s)"
  using assms by (simp add: printint_def Let_def kfor_consputc)

section \<open>Line editing\<close>

text \<open>
  The console as two queues: the bytes a reader can have (up to the write index), and the line that is
  being edited (from the write index to the edit index).
\<close>

definition ring :: "(nat \<Rightarrow> u8) \<Rightarrow> u32 \<Rightarrow> u32 \<Rightarrow> u8 list" where
  "ring buf i j = map (\<lambda>k. buf ((unat i + k) mod INPUT_BUF)) [0..<unat (j - i)]"

definition ready :: "cons \<Rightarrow> u8 list" where
  "ready c = ring (c_buf c) (c_r c) (c_w c)"

definition editing :: "cons \<Rightarrow> u8 list" where
  "editing c = ring (c_buf c) (c_w c) (c_e c)"

definition cons_win :: "cons \<Rightarrow> bool" where
  "cons_win c \<longleftrightarrow> unat (c_e c - c_r c) \<le> INPUT_BUF \<and> unat (c_w c - c_r c) \<le> unat (c_e c - c_r c)"

definition cons_ok :: "cons \<Rightarrow> bool" where
  "cons_ok c \<longleftrightarrow> cons_win c \<and> NEWLINE \<notin> set (editing c)"

lemmas cons_inv_defs = cons_win_def cons_ok_def

lemma length_ring [simp]: "length (ring buf i j) = unat (j - i)"
  by (simp add: ring_def)

lemma ring_split:
  assumes "unat (j - i) + unat (k - j) < 2 ^ 32"
  shows "ring buf i k = ring buf i j @ ring buf j k"
proof -
  have u: "unat (k - i) = unat (j - i) + unat (k - j)"
    using assms unat_add_lem [of "j - i" "k - j"] by simp
  have j: "unat j mod INPUT_BUF = (unat i + unat (j - i)) mod INPUT_BUF"
    using unat_add_mod [of INPUT_BUF i "unat (j - i)"] by simp
  have "(unat j + n) mod INPUT_BUF = (unat i + (unat (j - i) + n)) mod INPUT_BUF" for n
    using j by (metis add.assoc mod_add_left_eq)
  then show ?thesis by (intro nth_equalityI) (auto simp: ring_def u nth_append not_less)
qed

lemma ring_put:
  assumes "unat (e - i) < INPUT_BUF"
  shows "ring (buf(unat e mod INPUT_BUF := c)) i (e + 1) = ring buf i e @ [c]"
    "unat (j - i) \<le> unat (e - i) \<Longrightarrow> ring (buf(unat e mod INPUT_BUF := c)) i j = ring buf i j"
proof -
  have e: "unat e mod INPUT_BUF = (unat i + unat (e - i)) mod INPUT_BUF"
    using unat_add_mod [of INPUT_BUF i "unat (e - i)"] by simp
  have ne: "(unat i + k) mod INPUT_BUF \<noteq> unat e mod INPUT_BUF" if "k < unat (e - i)" for k
    unfolding e by (rule mod_shift_neq) (use that assms in auto)
  have "unat (e - i + 1) = unat (e - i) + 1" using assms by (simp add: unat_word_ariths)
  then have "unat (e + 1 - i) = unat (e - i) + 1" by (simp add: algebra_simps)
  then show "ring (buf(unat e mod INPUT_BUF := c)) i (e + 1) = ring buf i e @ [c]"
    using ne by (auto simp: ring_def e [symmetric])
  show "ring (buf(unat e mod INPUT_BUF := c)) i j = ring buf i j" if "unat (j - i) \<le> unat (e - i)"
    using ne that by (auto simp: ring_def)
qed

lemma ring_butlast:
  assumes "e \<noteq> w"
  shows "ring buf w e = ring buf w (e - 1) @ [buf (unat (e - 1) mod INPUT_BUF)]"
proof -
  have u: "unat (e - w) = unat (e - w - 1) + 1" using assms unat_dec [of "e - w"] by (simp add: unat_gt_0)
  have "unat (e - 1 - w) = unat (e - w - 1)" by (simp add: algebra_simps)
  moreover have "unat (e - 1) mod INPUT_BUF = (unat w + unat (e - 1 - w)) mod INPUT_BUF"
    using unat_add_mod [of INPUT_BUF w "unat (e - 1 - w)"] by simp
  ultimately show ?thesis using u by (simp add: ring_def)
qed

lemma kill_line_exec:
  assumes "idle s" "c_e (cons_st s) = e" "NEWLINE \<notin> set (ring (c_buf (cons_st s)) w e)"
  shows "\<exists>bs. kill_line e w s = Ret () (sent bs (s\<lparr>cons_st := (cons_st s)\<lparr>c_e := w\<rparr>\<rparr>))"
  using assms
proof (induction e w arbitrary: s rule: kill_line.induct)
  case (1 e w)
  show ?case
  proof (cases "e = w")
    case True
    then have "s\<lparr>cons_st := (cons_st s)\<lparr>c_e := w\<rparr>\<rparr> = s" using "1.prems"(2) by simp
    then show ?thesis using True by (intro exI [of _ "[]"]) (simp add: kill_line.simps kexec)
  next
    case False
    note r = ring_butlast [OF False, of "c_buf (cons_st s)"]
    let ?s = "sent (echo BACKSPACE) (s\<lparr>cons_st := (cons_st s)\<lparr>c_e := e - 1\<rparr>\<rparr>)"
    have i: "idle (s\<lparr>cons_st := (cons_st s)\<lparr>c_e := e - 1\<rparr>\<rparr>)" using "1.prems"(1) by (simp add: idle_def)
    have step: "kill_line e w s = kill_line (e - 1) w ?s"
      using False "1.prems" r i by (subst kill_line.simps) (simp add: kexec set_cons_def)
    have "\<exists>bs. kill_line (e - 1) w ?s = Ret () (sent bs (?s\<lparr>cons_st := (cons_st ?s)\<lparr>c_e := w\<rparr>\<rparr>))"
      by (rule "1.IH" [OF False _ _ _]) (use "1.prems"(3) r i in auto)
    then show ?thesis unfolding step by auto
  qed
qed

lemma printf_exec:
  fixes s :: "'z kcons_scheme"
  assumes "idle s" "PrLock \<notin> held s" and "\<And>t :: 'z kcons_scheme. idle t \<Longrightarrow> \<exists>bs. printf_loop (chars fmt) ap t = Ret () (sent bs t)"
  shows "\<exists>bs. printf fmt ap s = Ret () (sent bs s)"
proof -
  have i: "idle (s\<lparr>held := insert PrLock (held s)\<rparr>)" using assms(1) by (simp add: idle_def)
  show ?thesis
  proof (cases "pr_locking s")
    case True
    obtain bs where "printf_loop (chars fmt) ap (s\<lparr>held := insert PrLock (held s)\<rparr>) = Ret () (sent bs (s\<lparr>held := insert PrLock (held s)\<rparr>))"
      using assms(3) [OF i] by blast
    then show ?thesis using True assms(2) by (intro exI [of _ bs]) (simp add: printf_def kexec sent_def insert_absorb)
  next
    case False
    then show ?thesis using assms(3) [OF assms(1)] by (auto simp: printf_def kexec)
  qed
qed

lemma print_newline: "idle s \<Longrightarrow> PrLock \<notin> held s \<Longrightarrow> \<exists>bs. printf (CHR 0x0A # []) [] s = Ret () (sent bs s)"
  by (rule printf_exec) (auto simp: chars_def kexec)

lemma procdump_one_exec:
  assumes "idle s" "PrLock \<notin> held s" "\<And>p. proc_name (ptable s p) \<noteq> None"
  shows "\<exists>bs. procdump_one p s = Ret () (sent bs s)"
proof (cases "p_state (ptable s p) = UNUSED")
  case True
  then show ?thesis by (intro exI [of _ "[]"]) (simp add: procdump_one_def proc_defs kexec)
next
  case False
  obtain nm where nm: "proc_name (ptable s p) = Some nm" using assms(3) by blast
  let ?ap = "[PInt (p_pid (ptable s p)), PStr (Some (chars (state_name (p_state (ptable s p))))), PStr (Some nm)]"
  obtain bs where 1: "printf ''%d %s %s'' ?ap s = Ret () (sent bs s)"
    using printf_exec [OF assms(1,2), of "''%d %s %s''" ?ap] by (auto simp: chars_def print_conv_def kexec)
  obtain cs where "printf (CHR 0x0A # []) [] (sent bs s) = Ret () (sent cs (sent bs s))"
    using print_newline [of "sent bs s"] assms by auto
  then show ?thesis using False 1 nm by (auto simp: procdump_one_def proc_defs kexec)
qed

lemma procdump_exec:
  fixes s :: "'z kcons_scheme"
  assumes "idle s" "PrLock \<notin> held s" "\<And>p. proc_name (ptable s p) \<noteq> None"
  shows "\<exists>bs. procdump s = Ret () (sent bs s)"
proof -
  have loop: "\<exists>bs. kfor ps procdump_one t = Ret () (sent bs t)"
    if "idle t" "PrLock \<notin> held t" "\<And>p. proc_name (ptable t p) \<noteq> None" for ps and t :: "'z kcons_scheme"
    using that
  proof (induction ps arbitrary: t)
    case Nil
    then show ?case by (intro exI [of _ "[]"]) (simp add: kexec)
  next
    case (Cons p ps)
    obtain bs where bs: "procdump_one p t = Ret () (sent bs t)" using procdump_one_exec Cons.prems by blast
    have "\<exists>cs. kfor ps procdump_one (sent bs t) = Ret () (sent cs (sent bs t))"
      by (rule Cons.IH) (use Cons.prems in auto)
    then show ?case using bs by (auto simp: kexec)
  qed
  obtain bs where bs: "printf (CHR 0x0A # []) [] s = Ret () (sent bs s)" using print_newline assms by blast
  have "\<exists>cs. kfor [0..<NPROC] procdump_one (sent bs s) = Ret () (sent cs (sent bs s))"
    by (rule loop) (use assms in auto)
  then show ?thesis using bs by (auto simp: procdump_def kexec simp del: upt_rec_numeral)
qed

text \<open>What a byte typed at the console does to the two queues.\<close>

fun line_step :: "u8 \<Rightarrow> u8 list \<times> u8 list \<Rightarrow> u8 list \<times> u8 list" where
  "line_step c (rd, ed) =
     (if c = 16 then (rd, ed)
      else if c = 21 then (rd, [])
      else if c = 8 \<or> c = 0x7F then (rd, butlast ed)
      else if c = 0 \<or> length rd + length ed \<ge> INPUT_BUF then (rd, ed)
      else let c = (if c = 13 then NEWLINE else c); ed = ed @ [c] in
        if c = NEWLINE \<or> c = CTRL_D \<or> length rd + length ed = INPUT_BUF then (rd @ ed, []) else (rd, ed))"

lemma cons_lengths:
  assumes "cons_win c"
  shows "length (ready c) + length (editing c) = unat (c_e c - c_r c)"
    "ring (c_buf c) (c_r c) (c_e c) = ready c @ editing c"
proof -
  have "c_w c - c_r c \<le> c_e c - c_r c" using assms by (simp add: cons_inv_defs word_le_nat_alt)
  from unat_sub [OF this] have "unat (c_e c - c_w c) = unat (c_e c - c_r c) - unat (c_w c - c_r c)" by simp
  then show l: "length (ready c) + length (editing c) = unat (c_e c - c_r c)"
    using assms by (simp add: ready_def editing_def cons_inv_defs)
  show "ring (c_buf c) (c_r c) (c_e c) = ready c @ editing c"
    unfolding ready_def editing_def
    by (rule ring_split) (use l assms in \<open>simp add: ready_def editing_def cons_inv_defs\<close>)
qed

lemma cons_erase:
  assumes "cons_ok c" "unat (e - c_w c) \<le> unat (c_e c - c_w c)" "editing (c\<lparr>c_e := e\<rparr>) = take (unat (e - c_w c)) (editing c)"
  shows "cons_ok (c\<lparr>c_e := e\<rparr>)" "ready (c\<lparr>c_e := e\<rparr>) = ready c"
proof -
  have l: "unat (c_w c - c_r c) + unat (c_e c - c_w c) = unat (c_e c - c_r c)"
    using cons_lengths(1) [of c] assms(1) by (simp add: ready_def editing_def cons_ok_def)
  have "unat (c_w c - c_r c + (e - c_w c)) = unat (c_w c - c_r c) + unat (e - c_w c)"
    using unat_add_small [of "c_w c - c_r c" "unat (e - c_w c)"] l assms(1,2) by (simp add: cons_inv_defs)
  then have u: "unat (e - c_r c) = unat (c_w c - c_r c) + unat (e - c_w c)" by simp
  show "cons_ok (c\<lparr>c_e := e\<rparr>)"
    using assms l u by (auto simp: cons_inv_defs dest: in_set_takeD)
  show "ready (c\<lparr>c_e := e\<rparr>) = ready c" by (simp add: ready_def)
qed

definition cons_put :: "u8 \<Rightarrow> cons \<Rightarrow> cons" where
  "cons_put ch c = c\<lparr>c_buf := (c_buf c)(unat (c_e c) mod INPUT_BUF := ch), c_e := c_e c + 1\<rparr>"

lemma cons_put_queues:
  assumes "cons_win c" "unat (c_e c - c_r c) < INPUT_BUF"
  shows "ready (cons_put ch c) = ready c" "editing (cons_put ch c) = editing c @ [ch]"
    "unat (c_e (cons_put ch c) - c_r c) = unat (c_e c - c_r c) + 1"
proof -
  have l: "unat (c_w c - c_r c) + unat (c_e c - c_w c) = unat (c_e c - c_r c)"
    using cons_lengths(1) [OF assms(1)] by (simp add: ready_def editing_def)
  show "ready (cons_put ch c) = ready c"
    using ring_put(2) [OF assms(2)] l by (simp add: ready_def cons_put_def)
  show "editing (cons_put ch c) = editing c @ [ch]"
    using ring_put(1) [of "c_e c" "c_w c"] l assms(2) by (simp add: editing_def cons_put_def)
  show "unat (c_e (cons_put ch c) - c_r c) = unat (c_e c - c_r c) + 1"
    using unat_add_small [of "c_e c - c_r c" 1] assms(2) by (simp add: cons_put_def diff_add_eq [symmetric])
qed

lemma full_iff: "c_e c = c_r c + of_nat INPUT_BUF \<longleftrightarrow> unat (c_e c - c_r c) = INPUT_BUF"
proof -
  have "unat (c_e c - c_r c) = INPUT_BUF \<longleftrightarrow> c_e c - c_r c = of_nat INPUT_BUF"
    by (simp add: word_unat_eq_iff)
  then show ?thesis by (simp add: diff_eq_eq add.commute)
qed

lemma cons_flush:
  assumes "cons_win c"
  shows "cons_ok (c\<lparr>c_w := c_e c\<rparr>)" "ready (c\<lparr>c_w := c_e c\<rparr>) = ready c @ editing c" "editing (c\<lparr>c_w := c_e c\<rparr>) = []"
proof -
  show e: "editing (c\<lparr>c_w := c_e c\<rparr>) = []" by (simp add: editing_def ring_def)
  show "ready (c\<lparr>c_w := c_e c\<rparr>) = ready c @ editing c" using cons_lengths(2) [OF assms] by (simp add: ready_def)
  show "cons_ok (c\<lparr>c_w := c_e c\<rparr>)" using assms e by (simp add: cons_inv_defs)
qed

definition queues :: "cons \<Rightarrow> u8 list \<times> u8 list" where
  "queues c = (ready c, editing c)"

lemma cons_input_spec:
  assumes "idle s" "cons_ok (cons_st s)" "\<forall>p < NPROC. ProcLock p \<notin> held s" "c \<notin> {16, 21, 8, 0x7F}"
  shows "wp (cons_input c) (\<lambda>_ t. held t = held s \<and> cons_ok (cons_st t) \<and> queues (cons_st t) = line_step c (queues (cons_st s))) s"
proof -
  have win: "cons_win (cons_st s)" using assms(2) by (simp add: cons_ok_def)
  show ?thesis
  proof (cases "c \<noteq> 0 \<and> unat (c_e (cons_st s) - c_r (cons_st s)) < INPUT_BUF")
    case False
    then have "cons_input c s = Ret () s" by (auto simp: cons_input_def kexec word_less_nat_alt)
    then show ?thesis
      using False assms(2,4) cons_lengths(1) [OF win] by (intro wpI) (auto simp: queues_def not_less)
  next
    case True
    define ch where "ch = (if c = 13 then NEWLINE else c)"
    let ?d = "cons_put ch (cons_st s)"
    note q = cons_put_queues [OF win conjunct2 [OF True], of ch]
    let ?fl = "ch = NEWLINE \<or> ch = CTRL_D \<or> unat (c_e ?d - c_r ?d) = INPUT_BUF"
    let ?e = "if ?fl then ?d\<lparr>c_w := c_e ?d\<rparr> else ?d"
    let ?t = "sent (echo (ucast ch)) (s\<lparr>cons_st := ?d\<rparr>)"
    let ?u = "if ?fl then (?t\<lparr>cons_st := ?e, ptable := woken ChanCons {..<NPROC} (ptable s)\<rparr>) else ?t"
    have fields: "c_r ?d = c_r (cons_st s)" "c_w ?d = c_w (cons_st s)" by (simp_all add: cons_put_def)
    have "cons_input c s = Ret () ?u"
      using True assms(1,3) by (simp add: cons_input_def Let_def ch_def [symmetric] kexec set_cons_def full_iff [simplified] word_less_nat_alt
        cons_put_def [symmetric] sent_def)
    moreover have "held ?u = held s" "cons_st ?u = ?e" by simp_all
    moreover have "cons_ok ?e \<and> queues ?e = line_step c (queues (cons_st s))"
      using cons_flush [of ?d] q fields assms(2,4) True cons_lengths(1) [OF win]
      by (auto simp: queues_def cons_inv_defs ch_def)
    ultimately show ?thesis by (intro wpI) auto
  qed
qed

lemma backspace_queues:
  assumes "cons_ok c" "c_e c \<noteq> c_w c"
  shows "cons_ok (c\<lparr>c_e := c_e c - 1\<rparr>)" "queues (c\<lparr>c_e := c_e c - 1\<rparr>) = (ready c, butlast (editing c))"
proof -
  note b = ring_butlast [OF assms(2), of "c_buf c"]
  have l: "unat (c_e c - 1 - c_w c) \<le> unat (c_e c - c_w c)" using arg_cong [OF b, of length] by simp
  have t: "editing (c\<lparr>c_e := c_e c - 1\<rparr>) = take (unat (c_e c - 1 - c_w c)) (editing c)" using b by (simp add: editing_def)
  show "cons_ok (c\<lparr>c_e := c_e c - 1\<rparr>)" "queues (c\<lparr>c_e := c_e c - 1\<rparr>) = (ready c, butlast (editing c))"
    using cons_erase [OF assms(1) l t] b by (simp_all add: queues_def editing_def)
qed

section \<open>Properties\<close>

text \<open>
  C15: the console input handler implements line editing. With the output port idle, a typed byte is
  handled without panic and the locks are as before; the ring with its three free-running indices keeps its
  invariant (it never holds more than its capacity) and acts as two queues: a backspace removes the last byte
  of the line being edited and control-U the whole line, never a byte a reader may have; any other byte is
  appended, with carriage return stored as newline; newline, control-D or a full ring hands the line to the
  readers; when the ring is full the byte is dropped. Control-P only prints the process list.
\<close>

theorem consoleintr_edits_line:
  fixes s :: "'z kcons_scheme"
  assumes "idle s" "cons_ok (cons_st s)" "held s = {}" "\<And>p. proc_name (ptable s p) \<noteq> None"
  shows "wp (consoleintr c) (\<lambda>_ t. held t = {} \<and> cons_ok (cons_st t) \<and>
    queues (cons_st t) = line_step c (queues (cons_st s))) s"
proof -
  let ?s = "s\<lparr>held := {ConsLock}\<rparr>"
  let ?Q = "\<lambda>_ t. held t = {ConsLock} \<and> cons_ok (cons_st t) \<and> queues (cons_st t) = line_step c (queues (cons_st s))"
  have i: "idle ?s" using assms(1) by (simp add: idle_def)
  consider "c = 16" | "c = 21" | "c = 8 \<or> c = 0x7F" | "c \<notin> {16, 21, 8, 0x7F}" by blast
  then have "wp (cons_key c) ?Q ?s"
  proof cases
    case 1
    obtain bs where "procdump ?s = Ret () (sent bs ?s)" using procdump_exec [OF i] assms(4) by auto
    then show ?thesis using 1 assms(2) by (auto simp: cons_key_def wp_def queues_def)
  next
    case 2
    have "NEWLINE \<notin> set (ring (c_buf (cons_st ?s)) (c_w (cons_st ?s)) (c_e (cons_st ?s)))"
      using assms(2) by (simp add: cons_ok_def editing_def)
    then obtain bs where "kill_line (c_e (cons_st s)) (c_w (cons_st s)) ?s =
        Ret () (sent bs (?s\<lparr>cons_st := (cons_st ?s)\<lparr>c_e := c_w (cons_st s)\<rparr>\<rparr>))"
      using kill_line_exec [OF i] by auto
    moreover have "cons_ok ((cons_st s)\<lparr>c_e := c_w (cons_st s)\<rparr>)" "queues ((cons_st s)\<lparr>c_e := c_w (cons_st s)\<rparr>) = (ready (cons_st s), [])"
      using cons_erase [OF assms(2), of "c_w (cons_st s)"] by (simp_all add: queues_def editing_def ring_def)
    ultimately show ?thesis using 2 by (simp add: cons_key_def wp_def kexec queues_def)
  next
    case 3
    have "idle (?s\<lparr>cons_st := d\<rparr>)" for d using i by (simp add: idle_def)
    then show ?thesis
      using 3 assms(2) backspace_queues [of "cons_st s"]
      by (auto simp: cons_key_def wp_def kexec set_cons_def queues_def editing_def ring_def)
  next
    case 4
    then show ?thesis using cons_input_spec [OF i, of c] assms(2) by (simp add: cons_key_def)
  qed
  then show ?thesis
    unfolding consoleintr_def using assms(3) by (auto simp: wp_iff kexec)
qed

text \<open>Device that is always ready, a ring whose indices are about to wrap, and one process.\<close>

definition demo_cons :: kcons where
  "demo_cons = zero_fs (\<lambda>_. zero_block) (kpipe_ext (\<lambda>_. \<lparr>pi_data = (\<lambda>_. 0), pi_nread = 0, pi_nwrite = 0,
       pi_readopen = True, pi_writeopen = True\<rparr>)
     (kcons_ext (\<lambda>r n. 0x20) 0 [] (\<lambda>_. 0) 0 0 False \<lparr>c_buf = (\<lambda>_. 0), c_r = - 1, c_w = - 1, c_e = - 1\<rparr> True ()))"

lemma demo_cons_ok: "idle demo_cons" "cons_ok (cons_st demo_cons)" "held demo_cons = {}"
  "proc_name (ptable demo_cons p) \<noteq> None" "queues (cons_st demo_cons) = ([], [])"
  by (simp_all add: demo_cons_def zero_fs_def zero_bio_def idle_def cons_inv_defs queues_def ready_def editing_def ring_def
      proc_name_def zero_proc_def image_constant_conv)

theorem consoleintr_edits_line_witness:
  "wp (consoleintr 97) (\<lambda>_ t. queues (cons_st t) = ([], [97])) demo_cons"
  using consoleintr_edits_line [OF demo_cons_ok(1-3) demo_cons_ok(4), of 97]
  by (rule wp_mono) (simp add: demo_cons_ok(5))



text \<open>
  C17: writing to the console with a full transmit ring stops the machine. \<open>consolewrite\<close> calls \<open>uartputc\<close> with the
  console lock held; when the ring has no room, \<open>uartputc\<close> sleeps, and \<open>sched\<close> panics because the process lock
  is not the only lock the thread holds.
\<close>

theorem consolewrite_full_ring_panics:
  fixes s :: "'z kcons_scheme"
  assumes "held s = {}" "cur s = Some pr" "\<not> panicked s" "(tx_w s + 1) mod UART_TX_BUF_SIZE = tx_r s" "n > 0"
    and "uspace s ps (p_pagetable (ptable s pr))" "uget (mem s) (p_pagetable (ptable s pr)) a = Some b"
  shows "consolewrite (UserSrc a) n s = Panic ''sched locks''"
proof -
  let ?s = "s\<lparr>held := {ConsLock}\<rparr>"
  have "uspace ?s ps (p_pagetable (ptable s pr))" by (rule uspace_cong [OF assms(6)]) auto
  then have "copyin (p_pagetable (ptable s pr)) a 1 ?s = Ret (0, [b]) ?s" using assms(7) by (intro copyin_one) auto
  then show ?thesis
    using assms(1-5) by (simp add: consolewrite_def consolewrite_loop.simps [of "UserSrc a"] kexec my_pagetable_def proc_defs
      uartputc_def uartputc_loop_def sleep_def sched_def insert_Diff_if)
qed

definition demo_full :: kcons where
  "demo_full = demo_cons\<lparr>mem := demo_mem, kend := 0x87FFC000, cur := Some 0,
     ptable := (\<lambda>_. zero_proc\<lparr>p_pagetable := 0x87FFC000\<rparr>), tx_w := 31\<rparr>"

theorem consolewrite_full_ring_panics_witness: "consolewrite (UserSrc 4) 1 demo_full = Panic ''sched locks''"
proof -
  have us: "uspace demo_full [] 0x87FFC000"
    by (rule uspace_cong [OF demo_uspace]) (simp_all add: demo_full_def demo_cons_def zero_fs_def zero_bio_def demo_def)
  have "PGROUNDDOWN 4 = 0" "(4 :: u64) < MAXVA" by (auto simp: PGROUNDDOWN_def)
  then obtain b where b: "uget demo_mem 0x87FFC000 4 = Some b"
    using demo_lookup [of 4] demo_valid by (auto simp: uget_def user_page_def)
  show ?thesis
    by (rule consolewrite_full_ring_panics [where pr = 0 and ps = "[]" and b = b])
      (use us b in \<open>simp_all add: demo_full_def demo_cons_def zero_fs_def zero_bio_def\<close>)
qed

text \<open>The bytes in the transmit ring.\<close>

definition tx_count :: "'z kcons_scheme \<Rightarrow> nat" where
  "tx_count s = (tx_w s + UART_TX_BUF_SIZE - tx_r s) mod UART_TX_BUF_SIZE"

definition tx_queue :: "'z kcons_scheme \<Rightarrow> u8 list" where
  "tx_queue s = map (\<lambda>k. tx_buf s ((tx_r s + k) mod UART_TX_BUF_SIZE)) [0..<tx_count s]"

definition tx_ok :: "'z kcons_scheme \<Rightarrow> bool" where
  "tx_ok s \<longleftrightarrow> tx_w s < UART_TX_BUF_SIZE \<and> tx_r s < UART_TX_BUF_SIZE"

lemma tx_count_0: "tx_ok s \<Longrightarrow> tx_w s = tx_r s \<longleftrightarrow> tx_count s = 0"
  by (auto simp: tx_ok_def tx_count_def mod_if split: if_splits)

lemma tx_pop:
  assumes "tx_ok s" "tx_w s \<noteq> tx_r s" "tx_r t = (tx_r s + 1) mod UART_TX_BUF_SIZE" "tx_w t = tx_w s" "tx_buf t = tx_buf s"
  shows "tx_ok t" "tx_queue s = tx_buf s (tx_r s) # tx_queue t" "tx_count s = Suc (tx_count t)"
proof -
  show "tx_ok t" using assms by (simp add: tx_ok_def)
  show c: "tx_count s = Suc (tx_count t)"
    using assms by (auto simp: tx_ok_def tx_count_def mod_if split: if_splits)
  have "(tx_r s + Suc k) mod UART_TX_BUF_SIZE = (tx_r t + k) mod UART_TX_BUF_SIZE" for k
    unfolding assms(3) by (simp add: mod_simps)
  moreover have "tx_r s mod UART_TX_BUF_SIZE = tx_r s" using assms(1) by (simp add: tx_ok_def)
  ultimately show "tx_queue s = tx_buf s (tx_r s) # tx_queue t"
    unfolding tx_queue_def c assms(5) by (simp add: upt_conv_Cons map_Suc_upt [symmetric] del: upt_Suc)
qed

lemma uartstart_loop_spec:
  assumes "tx_ok s" "\<forall>p < NPROC. ProcLock p \<notin> held s" "tx_count s < n"
  shows "\<exists>t k. uartstart_loop n s = Ret () t \<and> k \<le> tx_count s \<and> tx_ok t \<and> held t = held s \<and>
    tx_queue t = drop k (tx_queue s) \<and> uart_out t = uart_out s @ map (Pair THR) (take k (tx_queue s)) \<and>
    (k < tx_count s \<longrightarrow> uart_dev s LSR (uart_time s + k) AND LSR_TX_IDLE = 0)"
  using assms
proof (induction n arbitrary: s)
  case 0
  then show ?case by simp
next
  case (Suc n)
  consider "tx_w s = tx_r s" | "tx_w s \<noteq> tx_r s" "uart_dev s LSR (uart_time s) AND LSR_TX_IDLE = 0"
    | "tx_w s \<noteq> tx_r s" "uart_dev s LSR (uart_time s) AND LSR_TX_IDLE \<noteq> 0" by blast
  then show ?case
  proof cases
    case 1
    then show ?thesis using Suc.prems by (intro exI [of _ s] exI [of _ 0]) (simp add: kexec tx_count_0)
  next
    case 2
    then show ?thesis
      using Suc.prems by (intro exI [of _ "s\<lparr>uart_time := uart_time s + 1\<rparr>"] exI [of _ 0])
        (simp add: kexec uart_defs tx_ok_def tx_queue_def tx_count_def)
  next
    case 3
    let ?c = "tx_buf s (tx_r s)"
    let ?t = "s\<lparr>uart_time := uart_time s + 1, tx_r := (tx_r s + 1) mod UART_TX_BUF_SIZE,
      ptable := woken ChanUart {..<NPROC} (ptable s), uart_out := uart_out s @ [(THR, ?c)]\<rparr>"
    have p: "tx_ok ?t" "tx_queue s = ?c # tx_queue ?t" "tx_count s = Suc (tx_count ?t)"
      using tx_pop [OF Suc.prems(1) 3(1), of ?t] by simp_all
    have step: "uartstart_loop (Suc n) s = uartstart_loop n ?t"
      using 3 Suc.prems(2) by (simp add: kexec uart_defs)
    obtain t k where "uartstart_loop n ?t = Ret () t" "k \<le> tx_count ?t" "tx_ok t" "held t = held ?t"
        "tx_queue t = drop k (tx_queue ?t)" "uart_out t = uart_out ?t @ map (Pair THR) (take k (tx_queue ?t))"
        "k < tx_count ?t \<longrightarrow> uart_dev ?t LSR (uart_time ?t + k) AND LSR_TX_IDLE = 0"
      using Suc.IH [OF p(1)] Suc.prems(2,3) p(3) by auto
    then show ?thesis
      using p by (intro exI [of _ t] exI [of _ "Suc k"]) (simp add: step del: uartstart_loop.simps)
  qed
qed



end
