(* ===== verification/File.thy ===== *)
theory File
  imports Console
begin

text \<open>
  src/kernel/file.c, the table of open files, with \<open>pipealloc\<close> of src/kernel/pipe.c. The device switch holds
  names of the functions that can be installed in it. The bytes of the padding of a structure on the
  kernel stack are whatever the stack holds there (\<open>junk\<close>).
\<close>

section \<open>State\<close>

abbreviation (input) NFILE :: nat where "NFILE \<equiv> 100"
abbreviation (input) NDEV :: int where "NDEV \<equiv> 10"
abbreviation (input) CONSOLE :: nat where "CONSOLE \<equiv> 1"

datatype filetype = FD_NONE | FD_PIPE | FD_INODE | FD_DEVICE

record file_struct =
  f_type :: filetype
  f_ref :: u32
  f_readable :: bool
  f_writable :: bool
  f_pipe :: u64
  f_ip :: "nat option"
  f_off :: u32
  f_major :: u16

datatype devread = Consoleread

datatype devwrite = Consolewrite

record devsw_entry =
  dev_read :: "devread option"
  dev_write :: "devwrite option"

record kfile = kcons +
  ftable :: "nat \<Rightarrow> file_struct"
  devsw :: "nat \<Rightarrow> devsw_entry"
  junk :: "nat \<Rightarrow> u8"

definition set_file :: "nat \<Rightarrow> (file_struct \<Rightarrow> file_struct) \<Rightarrow> (unit, 'z kfile_scheme) kop" where
  "set_file f g = kmodify (\<lambda>s. s\<lparr>ftable := (ftable s)(f := g (ftable s f))\<rparr>)"

definition get_file :: "nat \<Rightarrow> (file_struct \<Rightarrow> 'a) \<Rightarrow> ('a, 'z kfile_scheme) kop" where
  "get_file f g = kget (\<lambda>s. g (ftable s f))"

lemmas file_defs = set_file_def get_file_def

definition consoleinit :: "(unit, 'z kfile_scheme) kop" where
  "consoleinit = kseq [
     uartinit,
     kmodify (\<lambda>s. s\<lparr>devsw := (devsw s)(CONSOLE := (devsw s CONSOLE)\<lparr>dev_read := Some Consoleread\<rparr>)\<rparr>),
     kmodify (\<lambda>s. s\<lparr>devsw := (devsw s)(CONSOLE := (devsw s CONSOLE)\<lparr>dev_write := Some Consolewrite\<rparr>)\<rparr>)]"

fun call_read :: "devread \<Rightarrow> xdst \<Rightarrow> int \<Rightarrow> (int, 'z kfile_scheme) kop" where
  "call_read Consoleread dst n = kbind (consoleread dst n) (\<lambda>(r, _). kreturn r)"

fun call_write :: "devwrite \<Rightarrow> xsrc \<Rightarrow> int \<Rightarrow> (int, 'z kfile_scheme) kop" where
  "call_write Consolewrite src n = consolewrite src n"

section \<open>Operations\<close>

definition filealloc :: "(nat option, 'z kfile_scheme) kop" where
  "filealloc = kthen (klock FtableLock) (kbind (kget ftable) (\<lambda>ft.
     case find (\<lambda>f. f_ref (ft f) = 0) [0..<NFILE] of
       Some f \<Rightarrow> kthen (kseq [set_file f (\<lambda>x. x\<lparr>f_ref := 1\<rparr>), kunlock FtableLock]) (kreturn (Some f))
     | None \<Rightarrow> kthen (kunlock FtableLock) (kreturn None)))"

definition filedup :: "nat \<Rightarrow> (nat, 'z kfile_scheme) kop" where
  "filedup f = kthen (kseq [
     klock FtableLock,
     kbind (get_file f f_ref) (\<lambda>r. kpanic_if (sint r < 1) ''filedup''),
     set_file f (\<lambda>x. x\<lparr>f_ref := f_ref x + 1\<rparr>),
     kunlock FtableLock]) (kreturn f)"

definition fileclose :: "nat \<Rightarrow> (unit, 'z kfile_scheme) kop" where
  "fileclose f = kseq [
     klock FtableLock,
     kbind (get_file f f_ref) (\<lambda>r. kpanic_if (sint r < 1) ''fileclose''),
     set_file f (\<lambda>x. x\<lparr>f_ref := f_ref x - 1\<rparr>),
     kbind (get_file f id) (\<lambda>ff.
       if sint (f_ref ff) > 0 then kunlock FtableLock
       else kseq [
         set_file f (\<lambda>x. x\<lparr>f_ref := 0\<rparr>),
         set_file f (\<lambda>x. x\<lparr>f_type := FD_NONE\<rparr>),
         kunlock FtableLock,
         (if f_type ff = FD_PIPE then pipeclose (f_pipe ff) (f_writable ff)
          else if f_type ff = FD_INODE \<or> f_type ff = FD_DEVICE then
            (case f_ip ff of None \<Rightarrow> kpanic ''kerneltrap''
             | Some ip \<Rightarrow> kseq [begin_op, iput ip, end_op])
          else kreturn ())])]"

text \<open>\<open>struct stat\<close> in memory: four bytes of padding stand before the size.\<close>

definition stat_bytes :: "stat \<Rightarrow> u8 list \<Rightarrow> u8 list" where
  "stat_bytes st pad = le_bytes 4 (st_dev st) @ le_bytes 4 (st_ino st) @ le_bytes 2 (st_type st) @
     le_bytes 2 (st_nlink st) @ pad @ le_bytes 8 (st_size st)"

definition filestat :: "nat \<Rightarrow> u64 \<Rightarrow> (int, 'z kfile_scheme) kop" where
  "filestat f addr = kbind (get_file f id) (\<lambda>ff.
     if f_type ff = FD_INODE \<or> f_type ff = FD_DEVICE then
       (case f_ip ff of None \<Rightarrow> kpanic ''ilock''
        | Some ip \<Rightarrow> kthen (ilock (Some ip)) (kbind (stati ip) (\<lambda>st. kthen (iunlock (Some ip))
            (kbind my_pagetable (\<lambda>pt. kbind (kget junk) (\<lambda>j.
             kbind (copyout pt addr (stat_bytes st (map j [0..<4])) 24) (\<lambda>r.
               kreturn (if r < 0 then - 1 else 0))))))))
     else kreturn (- 1))"

definition bad_major :: "u16 \<Rightarrow> bool" where
  "bad_major m \<longleftrightarrow> sint m < 0 \<or> sint m \<ge> NDEV"

definition fileread :: "nat \<Rightarrow> u64 \<Rightarrow> u32 \<Rightarrow> (int, 'z kfile_scheme) kop" where
  "fileread f addr n = kbind (get_file f id) (\<lambda>ff.
     if \<not> f_readable ff then kreturn (- 1)
     else case f_type ff of
       FD_PIPE \<Rightarrow> piperead (f_pipe ff) addr (sint n)
     | FD_DEVICE \<Rightarrow> if bad_major (f_major ff) then kreturn (- 1)
         else kbind (kget devsw) (\<lambda>d. case dev_read (d (unat (f_major ff))) of
             None \<Rightarrow> kreturn (- 1)
           | Some fn \<Rightarrow> call_read fn (UserDst addr) (sint n))
     | FD_INODE \<Rightarrow> (case f_ip ff of None \<Rightarrow> kpanic ''ilock''
         | Some ip \<Rightarrow> kthen (ilock (Some ip)) (kbind (readi ip (UserDst addr) (f_off ff) n) (\<lambda>(tot, _).
             let r = sint (of_nat tot :: u32) in
             kthen (kseq [kwhen (r > 0) (set_file f (\<lambda>x. x\<lparr>f_off := f_off x + of_nat tot\<rparr>)), iunlock (Some ip)])
               (kreturn r))))
     | FD_NONE \<Rightarrow> kpanic ''fileread'')"

text \<open>One transaction of \<open>filewrite\<close> writes at most \<open>max\<close> bytes.\<close>

abbreviation (input) WRITE_MAX :: nat where "WRITE_MAX \<equiv> 3072"

function filewrite_loop :: "nat \<Rightarrow> nat \<Rightarrow> u64 \<Rightarrow> nat \<Rightarrow> nat \<Rightarrow> (int, 'z kfile_scheme) kop" where
  "filewrite_loop f ip addr n i =
     (if i < n then
        (let n1 = min (n - i) WRITE_MAX in
         kthen (kseq [begin_op, ilock (Some ip)])
         (kbind (get_file f f_off) (\<lambda>off.
          kbind (writei ip (UserSrc (addr + of_nat i)) off (of_nat n1)) (\<lambda>r.
          kthen (kseq [
             kwhen (r > 0) (set_file f (\<lambda>x. x\<lparr>f_off := f_off x + of_int r\<rparr>)),
             iunlock (Some ip),
             end_op])
           (if r < 0 then kreturn (- 1)
            else if r \<noteq> int n1 then kpanic ''short filewrite''
            else filewrite_loop f ip addr n (i + n1))))))
      else kreturn (if i = n then int n else - 1))"
  by pat_completeness auto
termination
  by (relation "measure (\<lambda>(f, ip, addr, n, i). n - i)") auto

declare filewrite_loop.simps [simp del]

definition filewrite :: "nat \<Rightarrow> u64 \<Rightarrow> u32 \<Rightarrow> (int, 'z kfile_scheme) kop" where
  "filewrite f addr n = kbind (get_file f id) (\<lambda>ff.
     if \<not> f_writable ff then kreturn (- 1)
     else case f_type ff of
       FD_PIPE \<Rightarrow> pipewrite (f_pipe ff) addr (sint n)
     | FD_DEVICE \<Rightarrow> if bad_major (f_major ff) then kreturn (- 1)
         else kbind (kget devsw) (\<lambda>d. case dev_write (d (unat (f_major ff))) of
             None \<Rightarrow> kreturn (- 1)
           | Some fn \<Rightarrow> call_write fn (UserSrc addr) (sint n))
     | FD_INODE \<Rightarrow> if sint n < 0 then kreturn (- 1)
         else (case f_ip ff of
             None \<Rightarrow> if sint n = 0 then kreturn 0 else kthen begin_op (kpanic ''ilock'')
           | Some ip \<Rightarrow> filewrite_loop f ip addr (nat (sint n)) 0)
     | FD_NONE \<Rightarrow> kpanic ''filewrite'')"

section \<open>Opening a pipe\<close>

definition opt_close :: "nat option \<Rightarrow> (unit, 'z kfile_scheme) kop" where
  "opt_close f = (case f of None \<Rightarrow> kreturn () | Some f \<Rightarrow> fileclose f)"

text \<open>The label \<open>bad\<close> of \<open>pipealloc\<close>.\<close>

definition pipealloc_bad :: "u64 \<Rightarrow> nat option \<Rightarrow> nat option \<Rightarrow> ((nat \<times> nat) option, 'z kfile_scheme) kop" where
  "pipealloc_bad pi f0 f1 = kthen (kseq [kwhen (pi \<noteq> 0) (kfree pi), opt_close f0, opt_close f1]) (kreturn None)"

definition pipealloc :: "((nat \<times> nat) option, 'z kfile_scheme) kop" where
  "pipealloc = kbind filealloc (\<lambda>f0. case f0 of None \<Rightarrow> pipealloc_bad 0 None None
   | Some a \<Rightarrow> kbind filealloc (\<lambda>f1. case f1 of None \<Rightarrow> pipealloc_bad 0 f0 None
   | Some b \<Rightarrow> kbind kalloc (\<lambda>pi.
       if pi = 0 then pipealloc_bad 0 f0 f1
       else kthen (kseq [
         set_pipe pi (\<lambda>p. p\<lparr>pi_readopen := True\<rparr>),
         set_pipe pi (\<lambda>p. p\<lparr>pi_writeopen := True\<rparr>),
         set_pipe pi (\<lambda>p. p\<lparr>pi_nwrite := 0\<rparr>),
         set_pipe pi (\<lambda>p. p\<lparr>pi_nread := 0\<rparr>),
         set_file a (\<lambda>x. x\<lparr>f_type := FD_PIPE, f_readable := True, f_writable := False, f_pipe := pi\<rparr>),
         set_file b (\<lambda>x. x\<lparr>f_type := FD_PIPE, f_readable := False, f_writable := True, f_pipe := pi\<rparr>)])
         (kreturn (Some (a, b))))))"

end
