(* ===== verification/Machine.thy ===== *)
theory Machine
  imports File
begin

text \<open>
  The control registers of a CPU (src/kernel/riscv.h), the code that sets up a CPU before \<open>main\<close>
  (src/kernel/start.c), and the interrupt controller (src/kernel/plic.c). A register holds what was last
  written to it; the hardware sets the registers of a trap before the handler runs. The interrupt
  controller is a device outside the program: what a claim returns is a parameter of the state, and writes to
  its memory-mapped registers are recorded.
\<close>

section \<open>State\<close>

record csrs =
  r_mstatus_val :: u64
  r_mepc_val :: u64
  r_sstatus_val :: u64
  r_sip_val :: u64
  r_sie_val :: u64
  r_mie_val :: u64
  r_sepc_val :: u64
  r_medeleg_val :: u64
  r_mideleg_val :: u64
  r_stvec_val :: u64
  r_mtvec_val :: u64
  r_mscratch_val :: u64
  r_scause_val :: u64
  r_stval_val :: u64
  r_tp_val :: u64

text \<open>Addresses the linker gives to code the kernel refers to.\<close>

record symbols =
  sym_main :: u64
  sym_trampoline :: u64
  sym_uservec :: u64
  sym_userret :: u64
  sym_usertrap :: u64
  sym_kernelvec :: u64
  sym_timervec :: u64
  sym_forkret :: u64
  sym_mscratch0 :: u64
  sym_etext :: u64

record ksys = kfile +
  sym :: symbols
  csr :: csrs
  mhartid :: u64
  mmio_out :: "(u64 \<times> u64) list"
  mtime :: u64
  plic_dev :: "u64 \<Rightarrow> nat \<Rightarrow> u32"
  plic_time :: nat
  scratch0 :: "nat \<Rightarrow> u64"
  ticks :: u32
  forkret_first :: bool
  started :: bool

section \<open>Registers\<close>

definition r_mhartid :: "(u64, 'z ksys_scheme) kop" where
  "r_mhartid = kget mhartid"

definition r_satp :: "(u64, 'z ksys_scheme) kop" where
  "r_satp = kget satp"

definition w_satp :: "u64 \<Rightarrow> (unit, 'z ksys_scheme) kop" where
  "w_satp x = kmodify (\<lambda>s. s\<lparr>satp := x\<rparr>)"

definition r_mstatus :: "(u64, 'z ksys_scheme) kop" where
  "r_mstatus = kget (\<lambda>s. r_mstatus_val (csr s))"

definition w_mstatus :: "u64 \<Rightarrow> (unit, 'z ksys_scheme) kop" where
  "w_mstatus x = kmodify (\<lambda>s. s\<lparr>csr := (csr s)\<lparr>r_mstatus_val := x\<rparr>\<rparr>)"

definition w_mepc :: "u64 \<Rightarrow> (unit, 'z ksys_scheme) kop" where
  "w_mepc x = kmodify (\<lambda>s. s\<lparr>csr := (csr s)\<lparr>r_mepc_val := x\<rparr>\<rparr>)"

definition r_sstatus :: "(u64, 'z ksys_scheme) kop" where
  "r_sstatus = kget (\<lambda>s. r_sstatus_val (csr s))"

definition w_sstatus :: "u64 \<Rightarrow> (unit, 'z ksys_scheme) kop" where
  "w_sstatus x = kmodify (\<lambda>s. s\<lparr>csr := (csr s)\<lparr>r_sstatus_val := x\<rparr>\<rparr>)"

definition r_sip :: "(u64, 'z ksys_scheme) kop" where
  "r_sip = kget (\<lambda>s. r_sip_val (csr s))"

definition w_sip :: "u64 \<Rightarrow> (unit, 'z ksys_scheme) kop" where
  "w_sip x = kmodify (\<lambda>s. s\<lparr>csr := (csr s)\<lparr>r_sip_val := x\<rparr>\<rparr>)"

definition r_sie :: "(u64, 'z ksys_scheme) kop" where
  "r_sie = kget (\<lambda>s. r_sie_val (csr s))"

definition w_sie :: "u64 \<Rightarrow> (unit, 'z ksys_scheme) kop" where
  "w_sie x = kmodify (\<lambda>s. s\<lparr>csr := (csr s)\<lparr>r_sie_val := x\<rparr>\<rparr>)"

definition r_mie :: "(u64, 'z ksys_scheme) kop" where
  "r_mie = kget (\<lambda>s. r_mie_val (csr s))"

definition w_mie :: "u64 \<Rightarrow> (unit, 'z ksys_scheme) kop" where
  "w_mie x = kmodify (\<lambda>s. s\<lparr>csr := (csr s)\<lparr>r_mie_val := x\<rparr>\<rparr>)"

definition r_sepc :: "(u64, 'z ksys_scheme) kop" where
  "r_sepc = kget (\<lambda>s. r_sepc_val (csr s))"

definition w_sepc :: "u64 \<Rightarrow> (unit, 'z ksys_scheme) kop" where
  "w_sepc x = kmodify (\<lambda>s. s\<lparr>csr := (csr s)\<lparr>r_sepc_val := x\<rparr>\<rparr>)"

definition w_medeleg :: "u64 \<Rightarrow> (unit, 'z ksys_scheme) kop" where
  "w_medeleg x = kmodify (\<lambda>s. s\<lparr>csr := (csr s)\<lparr>r_medeleg_val := x\<rparr>\<rparr>)"

definition w_mideleg :: "u64 \<Rightarrow> (unit, 'z ksys_scheme) kop" where
  "w_mideleg x = kmodify (\<lambda>s. s\<lparr>csr := (csr s)\<lparr>r_mideleg_val := x\<rparr>\<rparr>)"

definition w_stvec :: "u64 \<Rightarrow> (unit, 'z ksys_scheme) kop" where
  "w_stvec x = kmodify (\<lambda>s. s\<lparr>csr := (csr s)\<lparr>r_stvec_val := x\<rparr>\<rparr>)"

definition w_mtvec :: "u64 \<Rightarrow> (unit, 'z ksys_scheme) kop" where
  "w_mtvec x = kmodify (\<lambda>s. s\<lparr>csr := (csr s)\<lparr>r_mtvec_val := x\<rparr>\<rparr>)"

definition w_mscratch :: "u64 \<Rightarrow> (unit, 'z ksys_scheme) kop" where
  "w_mscratch x = kmodify (\<lambda>s. s\<lparr>csr := (csr s)\<lparr>r_mscratch_val := x\<rparr>\<rparr>)"

definition r_scause :: "(u64, 'z ksys_scheme) kop" where
  "r_scause = kget (\<lambda>s. r_scause_val (csr s))"

definition r_stval :: "(u64, 'z ksys_scheme) kop" where
  "r_stval = kget (\<lambda>s. r_stval_val (csr s))"

definition r_tp :: "(u64, 'z ksys_scheme) kop" where
  "r_tp = kget (\<lambda>s. r_tp_val (csr s))"

definition w_tp :: "u64 \<Rightarrow> (unit, 'z ksys_scheme) kop" where
  "w_tp x = kmodify (\<lambda>s. s\<lparr>csr := (csr s)\<lparr>r_tp_val := x\<rparr>\<rparr>)"

lemmas csr_defs = r_mhartid_def r_satp_def w_satp_def r_mstatus_def w_mstatus_def w_mepc_def r_sstatus_def w_sstatus_def r_sip_def w_sip_def r_sie_def w_sie_def r_mie_def w_mie_def r_sepc_def w_sepc_def w_medeleg_def w_mideleg_def w_stvec_def w_mtvec_def w_mscratch_def r_scause_def r_stval_def r_tp_def w_tp_def

abbreviation (input) MSTATUS_MPP_MASK :: u64 where "MSTATUS_MPP_MASK \<equiv> 0x1800"
abbreviation (input) MSTATUS_MPP_S :: u64 where "MSTATUS_MPP_S \<equiv> 0x800"
abbreviation (input) MSTATUS_MIE :: u64 where "MSTATUS_MIE \<equiv> 8"
abbreviation (input) SSTATUS_SPP :: u64 where "SSTATUS_SPP \<equiv> 0x100"
abbreviation (input) SSTATUS_SPIE :: u64 where "SSTATUS_SPIE \<equiv> 0x20"
abbreviation (input) SSTATUS_SIE :: u64 where "SSTATUS_SIE \<equiv> 2"
abbreviation (input) SIE_SEIE :: u64 where "SIE_SEIE \<equiv> 0x200"
abbreviation (input) SIE_STIE :: u64 where "SIE_STIE \<equiv> 0x20"
abbreviation (input) SIE_SSIE :: u64 where "SIE_SSIE \<equiv> 2"
abbreviation (input) MIE_MTIE :: u64 where "MIE_MTIE \<equiv> 0x80"

text \<open>The interrupt switch of the CPU, in the register where theory Spinlock has a flag.\<close>

definition sie_on :: "(unit, 'z ksys_scheme) kop" where
  "sie_on = kbind r_sstatus (\<lambda>x. w_sstatus (x OR SSTATUS_SIE))"

definition sie_off :: "(unit, 'z ksys_scheme) kop" where
  "sie_off = kbind r_sstatus (\<lambda>x. w_sstatus (x AND NOT SSTATUS_SIE))"

definition sie_get :: "(bool, 'z ksys_scheme) kop" where
  "sie_get = kbind r_sstatus (\<lambda>x. kreturn (x AND SSTATUS_SIE \<noteq> 0))"

text \<open>\<open>cpuid\<close> is the low half of \<open>tp\<close>, a signed integer.\<close>

definition cpuid :: "(u32, 'z ksys_scheme) kop" where
  "cpuid = kbind r_tp (\<lambda>x. kreturn (ucast x))"

definition write_mmio :: "u64 \<Rightarrow> u64 \<Rightarrow> (unit, 'z ksys_scheme) kop" where
  "write_mmio a v = kmodify (\<lambda>s. s\<lparr>mmio_out := mmio_out s @ [(a, v)]\<rparr>)"

section \<open>Entry from machine mode\<close>

definition CLINT_MTIMECMP :: "u32 \<Rightarrow> u64" where
  "CLINT_MTIMECMP hartid = CLINT + 0x4000 + scast (8 * hartid)"

text \<open>The scratch area of a CPU is 32 words of \<open>mscratch0\<close>.\<close>

definition timerinit :: "(unit, 'z ksys_scheme) kop" where
  "timerinit = kbind r_mhartid (\<lambda>hart. let id = ucast hart :: u32; interval = 1000000 in
     kbind (kget mtime) (\<lambda>now. kbind (kget sym) (\<lambda>y. kseq [
       write_mmio (CLINT_MTIMECMP id) (now + interval),
       kmodify (\<lambda>s. s\<lparr>scratch0 := (scratch0 s)(32 * unat id + 4 := CLINT_MTIMECMP id)\<rparr>),
       kmodify (\<lambda>s. s\<lparr>scratch0 := (scratch0 s)(32 * unat id + 5 := interval)\<rparr>),
       w_mscratch (sym_mscratch0 y + 8 * 32 * scast id),
       w_mtvec (sym_timervec y),
       kbind r_mstatus (\<lambda>x. w_mstatus (x OR MSTATUS_MIE)),
       kbind r_mie (\<lambda>x. w_mie (x OR MIE_MTIE))])))"

text \<open>\<open>mret\<close> then continues at the address in \<open>mepc\<close>, in the mode of the \<open>MPP\<close> field.\<close>

definition start :: "(unit, 'z ksys_scheme) kop" where
  "start = kbind (kget sym) (\<lambda>y. kseq [
     kbind r_mstatus (\<lambda>x. w_mstatus ((x AND NOT MSTATUS_MPP_MASK) OR MSTATUS_MPP_S)),
     w_mepc (sym_main y),
     w_satp 0,
     w_medeleg 0xffff,
     w_mideleg 0xffff,
     kbind r_sie (\<lambda>x. w_sie (x OR SIE_SEIE OR SIE_STIE OR SIE_SSIE)),
     timerinit,
     kbind r_mhartid (\<lambda>id. w_tp (scast (ucast id :: u32)))])"

section \<open>The interrupt controller\<close>

abbreviation (input) UART0_IRQ :: nat where "UART0_IRQ \<equiv> 10"
abbreviation (input) VIRTIO0_IRQ :: nat where "VIRTIO0_IRQ \<equiv> 1"

definition PLIC_SENABLE :: "u32 \<Rightarrow> u64" where
  "PLIC_SENABLE hart = PLIC + 0x2080 + scast (hart * 0x100)"

definition PLIC_SPRIORITY :: "u32 \<Rightarrow> u64" where
  "PLIC_SPRIORITY hart = PLIC + 0x201000 + scast (hart * 0x2000)"

definition PLIC_SCLAIM :: "u32 \<Rightarrow> u64" where
  "PLIC_SCLAIM hart = PLIC + 0x201004 + scast (hart * 0x2000)"

definition plicinit :: "(unit, 'z ksys_scheme) kop" where
  "plicinit = kseq [
     write_mmio (PLIC + of_nat UART0_IRQ * 4) 1,
     write_mmio (PLIC + of_nat VIRTIO0_IRQ * 4) 1]"

definition plicinithart :: "(unit, 'z ksys_scheme) kop" where
  "plicinithart = kbind cpuid (\<lambda>hart. kseq [
     write_mmio (PLIC_SENABLE hart) (push_bit UART0_IRQ 1 OR push_bit VIRTIO0_IRQ 1),
     write_mmio (PLIC_SPRIORITY hart) 0])"

definition plic_claim :: "(u32, 'z ksys_scheme) kop" where
  "plic_claim = kbind cpuid (\<lambda>hart.
     (\<lambda>s. Ret (plic_dev s (PLIC_SCLAIM hart) (plic_time s)) (s\<lparr>plic_time := plic_time s + 1\<rparr>)))"

definition plic_complete :: "u32 \<Rightarrow> (unit, 'z ksys_scheme) kop" where
  "plic_complete irq = kbind cpuid (\<lambda>hart. write_mmio (PLIC_SCLAIM hart) (ucast irq))"

end
