(* ===== verification/Proc.thy ===== *)
theory Proc
  imports Machine
begin

text \<open>
  The life of a process, src/kernel/proc.c: allocation and release of process slots, \<open>fork\<close>, \<open>exit\<close>, \<open>wait\<close>,
  growing memory, and the scheduler. The switch between threads (swtch.S) is a parameter of the scheduler:
  what the chosen process does until it switches back. Following a null pointer ends in the panic of \<open>kerneltrap\<close>.
\<close>

section \<open>Slots\<close>

definition knull :: "('a, 's) kop" where
  "knull = kpanic ''kerneltrap''"

definition set_tf :: "nat \<Rightarrow> (trapframe \<Rightarrow> trapframe) \<Rightarrow> (unit, 'z kproc_scheme) kop" where
  "set_tf p f = kbind (get_proc p p_trapframe) (\<lambda>tf.
     if tf = 0 then knull else kmodify (\<lambda>s. s\<lparr>trapframes := (trapframes s)(tf := f (trapframes s tf))\<rparr>))"

definition get_tf :: "nat \<Rightarrow> (trapframe \<Rightarrow> 'a) \<Rightarrow> ('a, 'z kproc_scheme) kop" where
  "get_tf p f = kbind (get_proc p p_trapframe) (\<lambda>tf.
     if tf = 0 then knull else kget (\<lambda>s. f (trapframes s tf)))"

definition procinit_one :: "nat \<Rightarrow> (unit, 'z kproc_scheme) kop" where
  "procinit_one p = kbind kalloc (\<lambda>pa. kseq [
     kpanic_if (pa = 0) ''kalloc'',
     kvmmap (KSTACK p) pa PGSIZE (PTE_R OR PTE_W),
     set_proc p (\<lambda>q. q\<lparr>p_kstack := KSTACK p\<rparr>)])"

definition procinit :: "(unit, 'z kproc_scheme) kop" where
  "procinit = kthen (kfor [0..<NPROC] procinit_one) kvminithart"

definition proc_freepagetable :: "u64 \<Rightarrow> u64 \<Rightarrow> (unit, 'z kproc_scheme) kop" where
  "proc_freepagetable pagetable sz = kseq [
     uvmunmap pagetable TRAMPOLINE 1 False,
     uvmunmap pagetable TRAPFRAME 1 False,
     uvmfree pagetable sz]"

definition proc_pagetable :: "nat \<Rightarrow> (u64, 'z ksys_scheme) kop" where
  "proc_pagetable p = kbind uvmcreate (\<lambda>pagetable.
     if pagetable = 0 then kreturn 0
     else kbind (kget (\<lambda>s. sym_trampoline (sym s))) (\<lambda>trampoline.
       kbind (mappages pagetable TRAMPOLINE PGSIZE trampoline (PTE_R OR PTE_X)) (\<lambda>r.
       if r < 0 then kthen (uvmfree pagetable 0) (kreturn 0)
       else kbind (get_proc p p_trapframe) (\<lambda>tf.
         kbind (mappages pagetable TRAPFRAME PGSIZE tf (PTE_R OR PTE_W)) (\<lambda>r.
         if r < 0 then
           kthen (kthen (uvmunmap pagetable TRAMPOLINE 1 False) (uvmfree pagetable 0)) (kreturn 0)
         else kreturn pagetable)))))"

definition freeproc :: "nat \<Rightarrow> (unit, 'z ksys_scheme) kop" where
  "freeproc p = kseq [
     kbind (get_proc p p_trapframe) (\<lambda>tf. kwhen (tf \<noteq> 0) (kfree tf)),
     set_proc p (\<lambda>q. q\<lparr>p_trapframe := 0\<rparr>),
     kbind (get_proc p id) (\<lambda>q. kwhen (p_pagetable q \<noteq> 0) (proc_freepagetable (p_pagetable q) (p_sz q))),
     set_proc p (\<lambda>q. q\<lparr>p_pagetable := 0\<rparr>),
     set_proc p (\<lambda>q. q\<lparr>p_sz := 0\<rparr>),
     set_proc p (\<lambda>q. q\<lparr>p_pid := 0\<rparr>),
     set_proc p (\<lambda>q. q\<lparr>p_parent := None\<rparr>),
     set_proc p (\<lambda>q. q\<lparr>p_name := (p_name q)(0 := 0)\<rparr>),
     set_proc p (\<lambda>q. q\<lparr>p_chan := None\<rparr>),
     set_proc p (\<lambda>q. q\<lparr>p_killed := False\<rparr>),
     set_proc p (\<lambda>q. q\<lparr>p_xstate := 0\<rparr>),
     set_proc p (\<lambda>q. q\<lparr>p_state := UNUSED\<rparr>)]"

text \<open>The scan for an unused slot returns with the lock of the slot held.\<close>

fun allocproc_scan :: "nat list \<Rightarrow> (nat option, 'z kproc_scheme) kop" where
  "allocproc_scan [] = kreturn None"
| "allocproc_scan (p # ps) = kthen (klock (ProcLock p)) (kbind (get_proc p p_state) (\<lambda>st.
     if st = UNUSED then kreturn (Some p)
     else kthen (kunlock (ProcLock p)) (allocproc_scan ps)))"

definition allocproc_found :: "nat \<Rightarrow> (nat option, 'z ksys_scheme) kop" where
  "allocproc_found p = kbind allocpid (\<lambda>pid. kthen (set_proc p (\<lambda>q. q\<lparr>p_pid := pid\<rparr>))
     (kbind kalloc (\<lambda>tf. kthen (set_proc p (\<lambda>q. q\<lparr>p_trapframe := tf\<rparr>))
       (if tf = 0 then kthen (kunlock (ProcLock p)) (kreturn None)
        else kbind (proc_pagetable p) (\<lambda>pt. kthen (set_proc p (\<lambda>q. q\<lparr>p_pagetable := pt\<rparr>))
          (if pt = 0 then kthen (kseq [freeproc p, kunlock (ProcLock p)]) (kreturn None)
           else kbind (kget (\<lambda>s. sym_forkret (sym s))) (\<lambda>forkret. kthen (kseq [
             set_proc p (\<lambda>q. q\<lparr>p_context := \<lparr>ctx_ra = 0, ctx_sp = 0, ctx_s = (\<lambda>_. 0)\<rparr>\<rparr>),
             set_proc p (\<lambda>q. q\<lparr>p_context := (p_context q)\<lparr>ctx_ra := forkret\<rparr>\<rparr>),
             set_proc p (\<lambda>q. q\<lparr>p_context := (p_context q)\<lparr>ctx_sp := p_kstack q + PGSIZE\<rparr>\<rparr>)])
             (kreturn (Some p)))))))))"

definition allocproc :: "(nat option, 'z ksys_scheme) kop" where
  "allocproc = kbind (allocproc_scan [0..<NPROC]) (\<lambda>r. case r of
     None \<Rightarrow> kreturn None | Some p \<Rightarrow> allocproc_found p)"

section \<open>Creating processes\<close>

definition initcode :: "u8 list" where
  "initcode = [
     0x17, 0x05, 0x00, 0x00, 0x13, 0x05, 0x45, 0x02,
     0x97, 0x05, 0x00, 0x00, 0x93, 0x85, 0x35, 0x02,
     0x93, 0x08, 0x70, 0x00, 0x73, 0x00, 0x00, 0x00,
     0x93, 0x08, 0x20, 0x00, 0x73, 0x00, 0x00, 0x00,
     0xef, 0xf0, 0x9f, 0xff, 0x2f, 0x69, 0x6e, 0x69,
     0x74, 0x00, 0x00, 0x24, 0x00, 0x00, 0x00, 0x00,
     0x00, 0x00, 0x00, 0x00]"

definition userinit :: "(unit, 'z ksys_scheme) kop" where
  "userinit = kbind allocproc (\<lambda>r. kthen (kmodify (\<lambda>s. s\<lparr>initproc := r\<rparr>))
     (case r of None \<Rightarrow> knull | Some p \<Rightarrow> kbind (get_proc p p_pagetable) (\<lambda>pt. kseq [
        uvminit pt initcode,
        set_proc p (\<lambda>q. q\<lparr>p_sz := PGSIZE\<rparr>),
        set_tf p (\<lambda>tf. tf\<lparr>tf_epc := 0\<rparr>),
        set_tf p (\<lambda>tf. tf\<lparr>tf_sp := PGSIZE\<rparr>),
        set_proc p (\<lambda>q. q\<lparr>p_name := safestrcpy (p_name q) (str_view (chars ''initcode'')) 16\<rparr>),
        kbind (namei (chars ''/'')) (\<lambda>ip. set_proc p (\<lambda>q. q\<lparr>p_cwd := ip\<rparr>)),
        set_proc p (\<lambda>q. q\<lparr>p_state := RUNNABLE\<rparr>),
        kunlock (ProcLock p)])))"

text \<open>The size is held in a 32-bit variable, so sizes and sums are cut to 32 bits.\<close>

definition growproc :: "u32 \<Rightarrow> (int, 'z kproc_scheme) kop" where
  "growproc n = kbind the_proc (\<lambda>p. kbind (get_proc p id) (\<lambda>q. let sz = ucast (p_sz q) :: u32 in
     kbind (if sint n > 0 then uvmalloc (p_pagetable q) (ucast sz) (ucast (sz + n))
            else if sint n < 0 then uvmdealloc (p_pagetable q) (ucast sz) (ucast (sz + n))
            else kreturn (ucast sz)) (\<lambda>r. let sz = ucast r :: u32 in
     if sint n > 0 \<and> sz = 0 then kreturn (- 1)
     else kthen (set_proc p (\<lambda>q. q\<lparr>p_sz := ucast sz\<rparr>)) (kreturn 0))))"

definition fork_file :: "nat \<Rightarrow> nat \<Rightarrow> nat \<Rightarrow> (unit, 'z ksys_scheme) kop" where
  "fork_file p np i = kbind (get_proc p (\<lambda>q. p_ofile q i)) (\<lambda>f. case f of
       None \<Rightarrow> kreturn ()
     | Some f \<Rightarrow> kbind (filedup f) (\<lambda>g. set_proc np (\<lambda>q. q\<lparr>p_ofile := (p_ofile q)(i := Some g)\<rparr>)))"

definition fork :: "(int, 'z ksys_scheme) kop" where
  "fork = kbind the_proc (\<lambda>p. kbind allocproc (\<lambda>r. case r of None \<Rightarrow> kreturn (- 1)
     | Some np \<Rightarrow> kbind (get_proc p id) (\<lambda>pq. kbind (get_proc np p_pagetable) (\<lambda>npt.
         kbind (uvmcopy (p_pagetable pq) npt (p_sz pq)) (\<lambda>r.
           if r < 0 then kthen (kseq [freeproc np, kunlock (ProcLock np)]) (kreturn (- 1))
           else kthen (kseq [
               set_proc np (\<lambda>q. q\<lparr>p_sz := p_sz pq\<rparr>),
               set_proc np (\<lambda>q. q\<lparr>p_parent := Some p\<rparr>),
               kbind (get_tf p id) (\<lambda>tf. set_tf np (\<lambda>_. tf)),
               set_tf np (\<lambda>tf. tf\<lparr>tf_a := (tf_a tf)(0 := 0)\<rparr>),
               kfor [0..<NOFILE] (fork_file p np),
               kbind (get_proc p p_cwd) (\<lambda>c. case c of None \<Rightarrow> knull
                 | Some ip \<Rightarrow> kbind (idup ip) (\<lambda>i. set_proc np (\<lambda>q. q\<lparr>p_cwd := Some i\<rparr>))),
               set_proc np (\<lambda>q. q\<lparr>p_name := safestrcpy (p_name q) (p_name pq) 16\<rparr>)])
             (kbind (get_proc np p_pid) (\<lambda>pid. kthen (kseq [
               set_proc np (\<lambda>q. q\<lparr>p_state := RUNNABLE\<rparr>),
               kunlock (ProcLock np)]) (kreturn (sint pid)))))))))"

section \<open>Ending processes\<close>

definition reparent_one :: "nat \<Rightarrow> nat \<Rightarrow> (unit, 'z kproc_scheme) kop" where
  "reparent_one p pp = kbind (get_proc pp p_parent) (\<lambda>par. kwhen (par = Some p) (kseq [
     klock (ProcLock pp),
     kbind (kget initproc) (\<lambda>i. set_proc pp (\<lambda>q. q\<lparr>p_parent := i\<rparr>)),
     kunlock (ProcLock pp)]))"

definition reparent :: "nat \<Rightarrow> (unit, 'z kproc_scheme) kop" where
  "reparent p = kfor [0..<NPROC] (reparent_one p)"

definition exit_file :: "nat \<Rightarrow> nat \<Rightarrow> (unit, 'z ksys_scheme) kop" where
  "exit_file p fd = kbind (get_proc p (\<lambda>q. p_ofile q fd)) (\<lambda>f. case f of
       None \<Rightarrow> kreturn ()
     | Some f \<Rightarrow> kthen (fileclose f) (set_proc p (\<lambda>q. q\<lparr>p_ofile := (p_ofile q)(fd := None)\<rparr>)))"

text \<open>The part of \<open>exit\<close> that hands over to the parent, with no lock held at its start.\<close>

definition exit_zombie :: "nat \<Rightarrow> u32 \<Rightarrow> (unit, 'z kproc_scheme) kop" where
  "exit_zombie p status = kthen (klock (ProcLock p)) (kbind (get_proc p p_parent) (\<lambda>par.
     kthen (kunlock (ProcLock p)) (case par of None \<Rightarrow> knull
     | Some original_parent \<Rightarrow> kseq [
         klock (ProcLock original_parent),
         klock (ProcLock p),
         reparent p,
         wakeup1 original_parent,
         set_proc p (\<lambda>q. q\<lparr>p_xstate := status\<rparr>),
         set_proc p (\<lambda>q. q\<lparr>p_state := ZOMBIE\<rparr>),
         kunlock (ProcLock original_parent),
         sched,
         kpanic ''zombie exit''])))"

definition exit :: "u32 \<Rightarrow> (unit, 'z ksys_scheme) kop" where
  "exit status = kbind the_proc (\<lambda>p. kseq [
     kbind (kget initproc) (\<lambda>i. kpanic_if (i = Some p) ''init exiting''),
     kfor [0..<NOFILE] (exit_file p),
     begin_op,
     kbind (get_proc p p_cwd) (\<lambda>c. case c of None \<Rightarrow> knull | Some ip \<Rightarrow> iput ip),
     end_op,
     set_proc p (\<lambda>q. q\<lparr>p_cwd := None\<rparr>),
     kbind (kget initproc) (\<lambda>i. case i of None \<Rightarrow> knull
       | Some ini \<Rightarrow> kseq [klock (ProcLock ini), wakeup1 ini, kunlock (ProcLock ini)]),
     exit_zombie p status])"

text \<open>
  The scan of \<open>wait\<close>, with the lock of the caller held: \<open>Inl\<close> is the value \<open>wait\<close> returns, \<open>Inr\<close> says
  whether there are children.
\<close>

fun wait_scan :: "nat \<Rightarrow> u64 \<Rightarrow> nat list \<Rightarrow> bool \<Rightarrow> (int + bool, 'z ksys_scheme) kop" where
  "wait_scan p addr [] havekids = kreturn (Inr havekids)"
| "wait_scan p addr (np # nps) havekids = kbind (get_proc np p_parent) (\<lambda>par.
     if par = Some p then
       kthen (klock (ProcLock np)) (kbind (get_proc np id) (\<lambda>c.
         if p_state c = ZOMBIE then
           kbind (if addr \<noteq> 0 then kbind (get_proc p p_pagetable) (\<lambda>pt. copyout pt addr (le_bytes 4 (p_xstate c)) 4)
                  else kreturn 0) (\<lambda>r.
             if r < 0 then kthen (kseq [kunlock (ProcLock np), kunlock (ProcLock p)]) (kreturn (Inl (- 1)))
             else kthen (kseq [freeproc np, kunlock (ProcLock np), kunlock (ProcLock p)]) (kreturn (Inl (sint (p_pid c)))))
         else kthen (kunlock (ProcLock np)) (wait_scan p addr nps True)))
     else wait_scan p addr nps havekids)"

definition wait_loop :: "nat \<Rightarrow> u64 \<Rightarrow> (int, 'z ksys_scheme) kop" where
  "wait_loop p addr = kbind (wait_scan p addr [0..<NPROC] False) (\<lambda>r. case r of
       Inl v \<Rightarrow> kreturn v
     | Inr havekids \<Rightarrow> kbind (get_proc p p_killed) (\<lambda>killed.
         if \<not> havekids \<or> killed then kthen (kunlock (ProcLock p)) (kreturn (- 1))
         else sleep_on (ChanProc p) (ProcLock p)))"

definition wait :: "u64 \<Rightarrow> (int, 'z ksys_scheme) kop" where
  "wait addr = kbind the_proc (\<lambda>p. kthen (klock (ProcLock p)) (wait_loop p addr))"

definition wait_resume :: "u64 \<Rightarrow> (int, 'z ksys_scheme) kop" where
  "wait_resume addr = kbind the_proc (\<lambda>p. kthen (sleep_resume (ProcLock p)) (wait_loop p addr))"

section \<open>The scheduler\<close>

text \<open>
  One round of the scheduler loop; \<open>run p\<close> is what happens between the switch to process \<open>p\<close> and the
  switch back. The result says whether a process was found.
\<close>

fun scheduler_round :: "(nat \<Rightarrow> (unit, 'z ksys_scheme) kop) \<Rightarrow> nat list \<Rightarrow> bool \<Rightarrow> (bool, 'z ksys_scheme) kop" where
  "scheduler_round run [] any = kreturn any"
| "scheduler_round run (p # ps) any = kthen (klock (ProcLock p)) (kbind (get_proc p p_state) (\<lambda>st.
     if st = RUNNABLE then
       kthen (kseq [
         set_proc p (\<lambda>q. q\<lparr>p_state := RUNNING\<rparr>),
         kmodify (\<lambda>s. s\<lparr>cur := Some p\<rparr>),
         run p,
         kmodify (\<lambda>s. s\<lparr>cur := None\<rparr>),
         kunlock (ProcLock p)]) (scheduler_round run ps True)
     else kthen (kunlock (ProcLock p)) (scheduler_round run ps any)))"

definition scheduler_step :: "(nat \<Rightarrow> (unit, 'z ksys_scheme) kop) \<Rightarrow> (unit, 'z ksys_scheme) kop" where
  "scheduler_step run = kthen sie_on (kbind (scheduler_round run [0..<NPROC] False) (\<lambda>any. kwhen (\<not> any) sie_on))"

text \<open>The loop never ends: \<open>n\<close> of its rounds.\<close>

fun scheduler_rounds :: "(nat \<Rightarrow> (unit, 'z ksys_scheme) kop) \<Rightarrow> nat \<Rightarrow> (unit, 'z ksys_scheme) kop" where
  "scheduler_rounds run 0 = kreturn ()"
| "scheduler_rounds run (Suc n) = kthen (scheduler_step run) (scheduler_rounds run n)"

definition scheduler :: "(nat \<Rightarrow> (unit, 'z ksys_scheme) kop) \<Rightarrow> nat \<Rightarrow> (unit, 'z ksys_scheme) kop" where
  "scheduler run n = kthen (kmodify (\<lambda>s. s\<lparr>cur := None\<rparr>)) (scheduler_rounds run n)"

end
