(* ===== verification/Exec.thy ===== *)
theory Exec
  imports Proc
begin

text \<open>
  Fetching system call arguments (src/kernel/syscall.c) and running a program (src/kernel/exec.c). The argument
  vector of \<open>exec\<close> is the list of the addresses before the null pointer that ends it.
\<close>

section \<open>System call arguments\<close>

text \<open>The bytes of a string before its NUL.\<close>

definition cstr :: "u8 list \<Rightarrow> u8 list" where
  "cstr bs = takeWhile (\<lambda>c. c \<noteq> 0) bs"

definition fetchaddr :: "u64 \<Rightarrow> (u64 option, 'z ksys_scheme) kop" where
  "fetchaddr addr = kbind the_proc (\<lambda>p. kbind (get_proc p id) (\<lambda>q.
     if addr \<ge> p_sz q \<or> addr + 8 > p_sz q then kreturn None
     else kbind (copyin (p_pagetable q) addr 8) (\<lambda>(r, bs).
       kreturn (if r \<noteq> 0 then None else Some (le_word bs)))))"

text \<open>The second part of the result is what is stored in the buffer.\<close>

definition fetchstr :: "u64 \<Rightarrow> u64 \<Rightarrow> (int \<times> u8 list, 'z ksys_scheme) kop" where
  "fetchstr addr mx = kbind the_proc (\<lambda>p. kbind (get_proc p p_pagetable) (\<lambda>pt.
     kbind (copyinstr pt addr mx) (\<lambda>(err, bs).
       kreturn (if err < 0 then err else int (length (cstr bs)), bs))))"

definition argraw :: "nat \<Rightarrow> (u64, 'z ksys_scheme) kop" where
  "argraw n = (if n < 6 then kbind the_proc (\<lambda>p. get_tf p (\<lambda>tf. tf_a tf n)) else kpanic ''argraw'')"

definition argint :: "nat \<Rightarrow> (u32, 'z ksys_scheme) kop" where
  "argint n = kbind (argraw n) (\<lambda>x. kreturn (ucast x))"

definition argaddr :: "nat \<Rightarrow> (u64, 'z ksys_scheme) kop" where
  "argaddr n = argraw n"

text \<open>The string argument, or \<open>None\<close> where \<open>argstr\<close> returns a negative number.\<close>

definition argstr :: "nat \<Rightarrow> u64 \<Rightarrow> (u8 list option, 'z ksys_scheme) kop" where
  "argstr n mx = kbind (argaddr n) (\<lambda>addr. kbind (fetchstr addr mx) (\<lambda>(r, bs).
     kreturn (if r < 0 then None else Some (cstr bs))))"

section \<open>Executables\<close>

abbreviation (input) MAXARG :: nat where "MAXARG \<equiv> 32"
abbreviation (input) ELF_MAGIC :: u32 where "ELF_MAGIC \<equiv> 0x464C457F"
abbreviation (input) ELF_PROG_LOAD :: u32 where "ELF_PROG_LOAD \<equiv> 1"

text \<open>A little-endian field of \<open>n\<close> bytes at an offset of a structure.\<close>

definition field :: "u8 list \<Rightarrow> nat \<Rightarrow> nat \<Rightarrow> 'w::len word" where
  "field bs off n = le_word (take n (drop off bs))"

record elfhdr =
  elf_magic :: u32
  elf_elf :: "u8 list"
  elf_type :: u16
  elf_machine :: u16
  elf_version :: u32
  elf_entry :: u64
  elf_phoff :: u64
  elf_shoff :: u64
  elf_flags :: u32
  elf_ehsize :: u16
  elf_phentsize :: u16
  elf_phnum :: u16
  elf_shentsize :: u16
  elf_shnum :: u16
  elf_shstrndx :: u16

definition decode_elf :: "u8 list \<Rightarrow> elfhdr" where
  "decode_elf bs = \<lparr>elf_magic = field bs 0 4, elf_elf = take 12 (drop 4 bs), elf_type = field bs 16 2,
     elf_machine = field bs 18 2, elf_version = field bs 20 4, elf_entry = field bs 24 8, elf_phoff = field bs 32 8,
     elf_shoff = field bs 40 8, elf_flags = field bs 48 4, elf_ehsize = field bs 52 2, elf_phentsize = field bs 54 2,
     elf_phnum = field bs 56 2, elf_shentsize = field bs 58 2, elf_shnum = field bs 60 2, elf_shstrndx = field bs 62 2\<rparr>"

record proghdr =
  ph_type :: u32
  ph_flags :: u32
  ph_off :: u64
  ph_vaddr :: u64
  ph_paddr :: u64
  ph_filesz :: u64
  ph_memsz :: u64
  ph_align :: u64

definition decode_ph :: "u8 list \<Rightarrow> proghdr" where
  "decode_ph bs = \<lparr>ph_type = field bs 0 4, ph_flags = field bs 4 4, ph_off = field bs 8 8, ph_vaddr = field bs 16 8,
     ph_paddr = field bs 24 8, ph_filesz = field bs 32 8, ph_memsz = field bs 40 8, ph_align = field bs 48 8\<rparr>"

text \<open>
  The loop of \<open>loadseg\<close>. If the 32-bit counter wraps it starts again from zero and the loop repeats
  without end.
\<close>

function loadseg_loop :: "u64 \<Rightarrow> u64 \<Rightarrow> nat \<Rightarrow> u32 \<Rightarrow> u32 \<Rightarrow> u32 \<Rightarrow> (int, 'z ksys_scheme) kop" where
  "loadseg_loop pagetable va ip offset sz i =
     (if i < sz then
        kbind (walkaddr pagetable (va + ucast i)) (\<lambda>pa.
          if pa = 0 then kpanic ''loadseg: address should exist''
          else let n = (if sz - i < 4096 then sz - i else 4096) in
            kbind (readi ip KernDst (offset + i) n) (\<lambda>(tot, bs).
              kthen (kmodify (\<lambda>s. s\<lparr>mem := bytes_put (mem s) pa bs\<rparr>))
                (if tot \<noteq> unat n then kreturn (- 1)
                 else if i + 4096 < i then kdiverge
                 else loadseg_loop pagetable va ip offset sz (i + 4096))))
      else kreturn 0)"
  by pat_completeness auto
termination
proof (relation "measure (\<lambda>(pagetable, va, ip, offset, sz, i). unat sz - unat i)", simp)
  fix pagetable va :: u64 and ip :: nat and offset sz i :: u32
  assume a: "i < sz" "\<not> i + 4096 < i"
  have "i + 4096 \<noteq> i" by simp
  then have "i < i + 4096" using a(2) by (metis not_less_iff_gr_or_eq)
  then show "((pagetable, va, ip, offset, sz, i + 4096), (pagetable, va, ip, offset, sz, i))
      \<in> measure (\<lambda>(pagetable, va, ip, offset, sz, i). unat sz - unat i)"
    using a(1) by (simp add: word_less_nat_alt)
qed

declare loadseg_loop.simps [simp del]

definition loadseg :: "u64 \<Rightarrow> u64 \<Rightarrow> nat \<Rightarrow> u32 \<Rightarrow> u32 \<Rightarrow> (int, 'z ksys_scheme) kop" where
  "loadseg pagetable va ip offset sz = kthen (kpanic_if (va mod PGSIZE \<noteq> 0) ''loadseg: va must be page aligned'')
     (loadseg_loop pagetable va ip offset sz 0)"

text \<open>
  The loop over the program headers: \<open>n\<close> are left, the next one at \<open>off\<close>, and \<open>sz\<close> is the size of the image so
  far. \<open>Inl\<close> leaves for the label \<open>bad\<close> with that size.
\<close>

fun exec_load :: "u64 \<Rightarrow> nat \<Rightarrow> nat \<Rightarrow> u32 \<Rightarrow> u64 \<Rightarrow> (u64 + u64, 'z ksys_scheme) kop" where
  "exec_load pagetable ip 0 off sz = kreturn (Inr sz)"
| "exec_load pagetable ip (Suc n) off sz = kbind (readi ip KernDst off 56) (\<lambda>(tot, bs).
     if tot \<noteq> 56 then kreturn (Inl sz)
     else let ph = decode_ph bs in
       if ph_type ph \<noteq> ELF_PROG_LOAD then exec_load pagetable ip n (off + 56) sz
       else if ph_memsz ph < ph_filesz ph then kreturn (Inl sz)
       else if ph_vaddr ph + ph_memsz ph < ph_vaddr ph then kreturn (Inl sz)
       else kbind (uvmalloc pagetable sz (ph_vaddr ph + ph_memsz ph)) (\<lambda>sz1.
         if sz1 = 0 then kreturn (Inl sz)
         else if ph_vaddr ph mod PGSIZE \<noteq> 0 then kreturn (Inl sz1)
         else kbind (loadseg pagetable (ph_vaddr ph) ip (ucast (ph_off ph)) (ucast (ph_filesz ph))) (\<lambda>r.
           if r < 0 then kreturn (Inl sz1)
           else exec_load pagetable ip n (off + 56) sz1)))"

text \<open>The string at an address of kernel memory.\<close>

definition kstring :: "u64 \<Rightarrow> (u8 list, 'z ksys_scheme) kop" where
  "kstring a = kbind (kget mem) (\<lambda>m. case strlen (\<lambda>k. m (a + of_nat k)) of
     None \<Rightarrow> kdiverge | Some n \<Rightarrow> kreturn (map (\<lambda>k. m (a + of_nat k)) [0..<n]))"

text \<open>
  Pushing the argument strings: the stack pointer and the addresses pushed so far; \<open>None\<close> leaves for
  the label \<open>bad\<close>.
\<close>

definition align16 :: "u64 \<Rightarrow> u64" where
  "align16 sp = sp - sp mod 16"

fun exec_push :: "u64 \<Rightarrow> u64 \<Rightarrow> u64 list \<Rightarrow> u64 \<Rightarrow> u64 list \<Rightarrow> ((u64 \<times> u64 list) option, 'z ksys_scheme) kop" where
  "exec_push pagetable stackbase [] sp ustack = kreturn (Some (sp, ustack))"
| "exec_push pagetable stackbase (a # argv) sp ustack =
     (if length ustack \<ge> MAXARG then kreturn None
      else kbind (kstring a) (\<lambda>str. let sp = align16 (sp - (of_nat (length str) + 1)) in
        if sp < stackbase then kreturn None
        else kbind (copyout pagetable sp (str @ [0]) (of_nat (length str) + 1)) (\<lambda>r.
          if r < 0 then kreturn None
          else exec_push pagetable stackbase argv sp (ustack @ [sp]))))"

definition exec_bad :: "u64 \<Rightarrow> u64 \<Rightarrow> nat option \<Rightarrow> (int, 'z ksys_scheme) kop" where
  "exec_bad pagetable sz ip = kthen (kseq [
     kwhen (pagetable \<noteq> 0) (proc_freepagetable pagetable sz),
     (case ip of None \<Rightarrow> kreturn () | Some ip \<Rightarrow> kthen (iunlockput ip) end_op)]) (kreturn (- 1))"

text \<open>The part of a path after the last slash.\<close>

definition path_last :: "u8 list \<Rightarrow> u8 list" where
  "path_last path = rev (takeWhile (\<lambda>c. c \<noteq> SLASH) (rev path))"

text \<open>Installing the new image, when nothing can fail any more.\<close>

definition exec_commit :: "nat \<Rightarrow> u8 list \<Rightarrow> u64 \<Rightarrow> u64 \<Rightarrow> u64 \<Rightarrow> u64 \<Rightarrow> u64 \<Rightarrow> (unit, 'z ksys_scheme) kop" where
  "exec_commit p path pagetable sz oldsz pc sp = kseq [
     set_tf p (\<lambda>tf. tf\<lparr>tf_a := (tf_a tf)(1 := sp)\<rparr>),
     set_proc p (\<lambda>q. q\<lparr>p_name := safestrcpy (p_name q) (str_view (path_last path)) 16\<rparr>),
     kbind (get_proc p p_pagetable) (\<lambda>oldpagetable. kseq [
       set_proc p (\<lambda>q. q\<lparr>p_pagetable := pagetable\<rparr>),
       set_proc p (\<lambda>q. q\<lparr>p_sz := sz\<rparr>),
       set_tf p (\<lambda>tf. tf\<lparr>tf_epc := pc\<rparr>),
       set_tf p (\<lambda>tf. tf\<lparr>tf_sp := sp\<rparr>),
       proc_freepagetable oldpagetable oldsz])]"

definition exec_stack :: "nat \<Rightarrow> u8 list \<Rightarrow> u64 list \<Rightarrow> u64 \<Rightarrow> u64 \<Rightarrow> u64 \<Rightarrow> (int, 'z ksys_scheme) kop" where
  "exec_stack p path argv pagetable sz pc = kbind (get_proc p p_sz) (\<lambda>oldsz. let sz = PGROUNDUP sz in
     kbind (uvmalloc pagetable sz (sz + 2 * PGSIZE)) (\<lambda>sz1.
     if sz1 = 0 then exec_bad pagetable sz None
     else let sz = sz1; stackbase = sz - PGSIZE in
       kthen (uvmclear pagetable (sz - 2 * PGSIZE)) (kbind (exec_push pagetable stackbase argv sz []) (\<lambda>r. case r of
           None \<Rightarrow> exec_bad pagetable sz None
         | Some (sp, ustack) \<Rightarrow> let argc = length ustack; sp = align16 (sp - (of_nat argc + 1) * 8) in
             if sp < stackbase then exec_bad pagetable sz None
             else kbind (copyout pagetable sp (concat (map (le_bytes 8) (ustack @ [0]))) ((of_nat argc + 1) * 8)) (\<lambda>r.
               if r < 0 then exec_bad pagetable sz None
               else kthen (exec_commit p path pagetable sz oldsz pc sp) (kreturn (int argc)))))))"

definition exec :: "u8 list \<Rightarrow> u64 list \<Rightarrow> (int, 'z ksys_scheme) kop" where
  "exec path argv = kbind the_proc (\<lambda>p. kthen begin_op (kbind (namei path) (\<lambda>r. case r of
       None \<Rightarrow> kthen end_op (kreturn (- 1))
     | Some ip \<Rightarrow> kthen (ilock (Some ip)) (kbind (readi ip KernDst 0 64) (\<lambda>(tot, bs).
         let elf = decode_elf bs in
         if tot \<noteq> 64 then exec_bad 0 0 (Some ip)
         else if elf_magic elf \<noteq> ELF_MAGIC then exec_bad 0 0 (Some ip)
         else kbind (proc_pagetable p) (\<lambda>pagetable.
           if pagetable = 0 then exec_bad 0 0 (Some ip)
           else kbind (exec_load pagetable ip (unat (elf_phnum elf)) (ucast (elf_phoff elf)) 0) (\<lambda>r. case r of
               Inl sz \<Rightarrow> exec_bad pagetable sz (Some ip)
             | Inr sz \<Rightarrow> kthen (kseq [iunlockput ip, end_op]) (exec_stack p path argv pagetable sz (elf_entry elf)))))))))"

end
