(* ===== verification/Sysfile.thy ===== *)
theory Sysfile
  imports Exec
begin

text \<open>
  The file system calls, src/kernel/sysfile.c. Each returns the value that ends up in register \<open>a0\<close>. The buffer
  for a path is \<open>MAXPATH\<close> bytes, so a path argument is a string that fits in it.
\<close>

abbreviation (input) MAXPATH :: u64 where "MAXPATH \<equiv> 128"
abbreviation (input) O_RDONLY :: u32 where "O_RDONLY \<equiv> 0"
abbreviation (input) O_WRONLY :: u32 where "O_WRONLY \<equiv> 1"
abbreviation (input) O_RDWR :: u32 where "O_RDWR \<equiv> 2"
abbreviation (input) O_CREATE :: u32 where "O_CREATE \<equiv> 0x200"
abbreviation (input) O_TRUNC :: u32 where "O_TRUNC \<equiv> 0x400"

section \<open>File descriptors\<close>

text \<open>The descriptor and the file it stands for.\<close>

definition argfd :: "nat \<Rightarrow> ((nat \<times> nat) option, 'z ksys_scheme) kop" where
  "argfd n = kbind (argint n) (\<lambda>fd.
     if sint fd < 0 \<or> sint fd \<ge> int NOFILE then kreturn None
     else kbind the_proc (\<lambda>p. kbind (get_proc p (\<lambda>q. p_ofile q (unat fd))) (\<lambda>f. case f of
         None \<Rightarrow> kreturn None
       | Some f \<Rightarrow> kreturn (Some (unat fd, f)))))"

definition fdalloc :: "nat \<Rightarrow> (int, 'z ksys_scheme) kop" where
  "fdalloc f = kbind the_proc (\<lambda>p. kbind (get_proc p p_ofile) (\<lambda>ofile.
     case find (\<lambda>fd. ofile fd = None) [0..<NOFILE] of
       Some fd \<Rightarrow> kthen (set_proc p (\<lambda>q. q\<lparr>p_ofile := (p_ofile q)(fd := Some f)\<rparr>)) (kreturn (int fd))
     | None \<Rightarrow> kreturn (- 1)))"

definition sys_dup :: "(int, 'z ksys_scheme) kop" where
  "sys_dup = kbind (argfd 0) (\<lambda>r. case r of None \<Rightarrow> kreturn (- 1)
     | Some (_, f) \<Rightarrow> kbind (fdalloc f) (\<lambda>fd.
         if fd < 0 then kreturn (- 1) else kbind (filedup f) (\<lambda>_. kreturn fd)))"

definition sys_read :: "(int, 'z ksys_scheme) kop" where
  "sys_read = kbind (argfd 0) (\<lambda>r. case r of None \<Rightarrow> kreturn (- 1)
     | Some (_, f) \<Rightarrow> kbind (argint 2) (\<lambda>n. kbind (argaddr 1) (\<lambda>p. fileread f p n)))"

definition sys_write :: "(int, 'z ksys_scheme) kop" where
  "sys_write = kbind (argfd 0) (\<lambda>r. case r of None \<Rightarrow> kreturn (- 1)
     | Some (_, f) \<Rightarrow> kbind (argint 2) (\<lambda>n. kbind (argaddr 1) (\<lambda>p. filewrite f p n)))"

definition sys_close :: "(int, 'z ksys_scheme) kop" where
  "sys_close = kbind (argfd 0) (\<lambda>r. case r of None \<Rightarrow> kreturn (- 1)
     | Some (fd, f) \<Rightarrow> kbind the_proc (\<lambda>p. kthen (kseq [
         set_proc p (\<lambda>q. q\<lparr>p_ofile := (p_ofile q)(fd := None)\<rparr>),
         fileclose f]) (kreturn 0)))"

definition sys_fstat :: "(int, 'z ksys_scheme) kop" where
  "sys_fstat = kbind (argfd 0) (\<lambda>r. case r of None \<Rightarrow> kreturn (- 1)
     | Some (_, f) \<Rightarrow> kbind (argaddr 1) (\<lambda>st. filestat f st))"

section \<open>Links\<close>

definition set_nlink :: "nat \<Rightarrow> (u16 \<Rightarrow> u16) \<Rightarrow> (unit, 'z ksys_scheme) kop" where
  "set_nlink ip f = set_dinode ip (\<lambda>d. d\<lparr>d_nlink := f (d_nlink d)\<rparr>)"

definition get_type :: "nat \<Rightarrow> (u16, 'z ksys_scheme) kop" where
  "get_type ip = get_inode ip (\<lambda>x. d_type (i_d x))"

text \<open>\<open>return -1\<close> after ending the transaction.\<close>

definition op_fail :: "(int, 'z ksys_scheme) kop" where
  "op_fail = kthen end_op (kreturn (- 1))"

definition link_bad :: "nat \<Rightarrow> (int, 'z ksys_scheme) kop" where
  "link_bad ip = kthen (kseq [
     ilock (Some ip),
     set_nlink ip (\<lambda>n. n - 1),
     iupdate ip,
     iunlockput ip]) op_fail"

definition link_at :: "nat \<Rightarrow> u8 list \<Rightarrow> (int, 'z ksys_scheme) kop" where
  "link_at ip new = kbind (nameiparent new) (\<lambda>r. case r of None \<Rightarrow> link_bad ip
     | Some (dp, nm) \<Rightarrow> kthen (ilock (Some dp)) (kbind (get_inode dp i_dev) (\<lambda>ddev. kbind (get_inode ip id) (\<lambda>x.
         kbind (if ddev \<noteq> i_dev x then kreturn (- 1) else dirlink dp nm (i_inum x)) (\<lambda>r.
           if r < 0 then kthen (iunlockput dp) (link_bad ip)
           else kthen (kseq [iunlockput dp, iput ip, end_op]) (kreturn 0))))))"

definition sys_link :: "(int, 'z ksys_scheme) kop" where
  "sys_link = kbind (argstr 0 MAXPATH) (\<lambda>a. case a of None \<Rightarrow> kreturn (- 1)
   | Some old \<Rightarrow> kbind (argstr 1 MAXPATH) (\<lambda>b. case b of None \<Rightarrow> kreturn (- 1)
   | Some new \<Rightarrow> kthen begin_op (kbind (namei old) (\<lambda>r. case r of None \<Rightarrow> op_fail
   | Some ip \<Rightarrow> kthen (ilock (Some ip)) (kbind (get_type ip) (\<lambda>type.
       if type = T_DIR then kthen (iunlockput ip) op_fail
       else kthen (kseq [
         set_nlink ip (\<lambda>n. n + 1),
         iupdate ip,
         iunlock (Some ip)]) (link_at ip new)))))))"

text \<open>The first two entries of a directory are \<open>.\<close> and \<open>..\<close>\<close>

fun isdirempty_loop :: "nat \<Rightarrow> nat list \<Rightarrow> (bool, 'z ksys_scheme) kop" where
  "isdirempty_loop dp [] = kreturn True"
| "isdirempty_loop dp (off # offs) = kbind (readi dp KernDst (of_nat off) (of_nat DIRENT)) (\<lambda>(n, de).
     kthen (kpanic_if (n \<noteq> DIRENT) ''isdirempty: readi'')
       (if de_inum de \<noteq> 0 then kreturn False else isdirempty_loop dp offs))"

definition isdirempty :: "nat \<Rightarrow> (bool, 'z ksys_scheme) kop" where
  "isdirempty dp = kbind (get_inode dp (\<lambda>x. d_size (i_d x))) (\<lambda>size. isdirempty_loop dp (drop 2 (entry_offs size)))"

definition unlink_bad :: "nat \<Rightarrow> (int, 'z ksys_scheme) kop" where
  "unlink_bad dp = kthen (iunlockput dp) op_fail"

text \<open>Removing the entry at \<open>off\<close> of \<open>dp\<close>, which names \<open>ip\<close>; both are locked.\<close>

definition unlink_entry :: "nat \<Rightarrow> nat \<Rightarrow> nat \<Rightarrow> (int, 'z ksys_scheme) kop" where
  "unlink_entry dp ip off = kbind (writei dp (KernSrc (replicate DIRENT 0)) (of_nat off) (of_nat DIRENT)) (\<lambda>n.
     kthen (kseq [
       kpanic_if (n \<noteq> int DIRENT) ''unlink: writei'',
       kbind (get_type ip) (\<lambda>type. kwhen (type = T_DIR) (kthen (set_nlink dp (\<lambda>n. n - 1)) (iupdate dp))),
       iunlockput dp,
       set_nlink ip (\<lambda>n. n - 1),
       iupdate ip,
       iunlockput ip,
       end_op]) (kreturn 0))"

definition sys_unlink :: "(int, 'z ksys_scheme) kop" where
  "sys_unlink = kbind (argstr 0 MAXPATH) (\<lambda>a. case a of None \<Rightarrow> kreturn (- 1)
   | Some path \<Rightarrow> kthen begin_op (kbind (nameiparent path) (\<lambda>r. case r of None \<Rightarrow> op_fail
   | Some (dp, nm) \<Rightarrow> kthen (ilock (Some dp))
       (if namecmp (str_view nm) (str_view (chars ''.'')) = 0 \<or> namecmp (str_view nm) (str_view (chars ''..'')) = 0
        then unlink_bad dp
        else kbind (dirlookup dp nm) (\<lambda>r. case r of None \<Rightarrow> unlink_bad dp
          | Some (ip, off) \<Rightarrow> kthen (ilock (Some ip)) (kbind (get_inode ip i_d) (\<lambda>d.
              kthen (kpanic_if (sint (d_nlink d) < 1) ''unlink: nlink < 1'')
              (kbind (if d_type d = T_DIR then isdirempty ip else kreturn True) (\<lambda>ok.
                 if \<not> ok then kthen (iunlockput ip) (unlink_bad dp)
                 else unlink_entry dp ip off)))))))))"

section \<open>Creating and opening files\<close>

text \<open>\<open>create\<close> returns the inode locked.\<close>

definition create_new :: "nat \<Rightarrow> u8 list \<Rightarrow> u16 \<Rightarrow> u16 \<Rightarrow> u16 \<Rightarrow> (nat option, 'z ksys_scheme) kop" where
  "create_new dp nm type major minor = kbind (get_inode dp i_dev) (\<lambda>dev. kbind (ialloc dev type) (\<lambda>ip.
     kthen (kseq [
       ilock (Some ip),
       set_dinode ip (\<lambda>d. d\<lparr>d_major := major\<rparr>),
       set_dinode ip (\<lambda>d. d\<lparr>d_minor := minor\<rparr>),
       set_dinode ip (\<lambda>d. d\<lparr>d_nlink := 1\<rparr>),
       iupdate ip])
     (kbind (get_inode ip i_inum) (\<lambda>inum. kbind (get_inode dp i_inum) (\<lambda>dinum. kthen (kseq [
       kwhen (type = T_DIR) (kseq [
         set_nlink dp (\<lambda>n. n + 1),
         iupdate dp,
         kbind (dirlink ip (chars ''.'') inum) (\<lambda>r. kpanic_if (r < 0) ''create dots''),
         kbind (dirlink ip (chars ''..'') dinum) (\<lambda>r. kpanic_if (r < 0) ''create dots'')]),
       kbind (dirlink dp nm inum) (\<lambda>r. kpanic_if (r < 0) ''create: dirlink''),
       iunlockput dp]) (kreturn (Some ip)))))))"

definition create :: "u8 list \<Rightarrow> u16 \<Rightarrow> u16 \<Rightarrow> u16 \<Rightarrow> (nat option, 'z ksys_scheme) kop" where
  "create path type major minor = kbind (nameiparent path) (\<lambda>r. case r of None \<Rightarrow> kreturn None
   | Some (dp, nm) \<Rightarrow> kthen (ilock (Some dp)) (kbind (dirlookup dp nm) (\<lambda>r. case r of
       Some (ip, _) \<Rightarrow> kthen (kseq [iunlockput dp, ilock (Some ip)]) (kbind (get_type ip) (\<lambda>t.
         if type = T_FILE \<and> (t = T_FILE \<or> t = T_DEVICE) then kreturn (Some ip)
         else kthen (iunlockput ip) (kreturn None)))
     | None \<Rightarrow> create_new dp nm type major minor)))"

text \<open>The rest of \<open>sys_open\<close> with a locked inode.\<close>

definition open_file :: "nat \<Rightarrow> u32 \<Rightarrow> nat \<Rightarrow> (unit, 'z ksys_scheme) kop" where
  "open_file ip omode f = kbind (get_inode ip i_d) (\<lambda>d. kseq [
     (if d_type d = T_DEVICE
      then set_file f (\<lambda>x. x\<lparr>f_type := FD_DEVICE, f_major := d_major d\<rparr>)
      else set_file f (\<lambda>x. x\<lparr>f_type := FD_INODE, f_off := 0\<rparr>)),
     set_file f (\<lambda>x. x\<lparr>f_ip := Some ip\<rparr>),
     set_file f (\<lambda>x. x\<lparr>f_readable := (omode AND O_WRONLY = 0)\<rparr>),
     set_file f (\<lambda>x. x\<lparr>f_writable := (omode AND O_WRONLY \<noteq> 0 \<or> omode AND O_RDWR \<noteq> 0)\<rparr>),
     kwhen (omode AND O_TRUNC \<noteq> 0 \<and> d_type d = T_FILE) (itrunc ip),
     iunlock (Some ip),
     end_op])"

definition open_inode :: "nat \<Rightarrow> u32 \<Rightarrow> (int, 'z ksys_scheme) kop" where
  "open_inode ip omode = kbind (get_inode ip i_d) (\<lambda>d.
     if d_type d = T_DEVICE \<and> bad_major (d_major d) then kthen (iunlockput ip) op_fail
     else kbind filealloc (\<lambda>r. case r of None \<Rightarrow> kthen (iunlockput ip) op_fail
       | Some f \<Rightarrow> kbind (fdalloc f) (\<lambda>fd.
           if fd < 0 then kthen (kseq [fileclose f, iunlockput ip]) op_fail
           else kthen (open_file ip omode f) (kreturn fd))))"

definition sys_open :: "(int, 'z ksys_scheme) kop" where
  "sys_open = kbind (argstr 0 MAXPATH) (\<lambda>a. case a of None \<Rightarrow> kreturn (- 1)
   | Some path \<Rightarrow> kbind (argint 1) (\<lambda>omode. kthen begin_op
       (if omode AND O_CREATE \<noteq> 0 then
          kbind (create path T_FILE 0 0) (\<lambda>r. case r of None \<Rightarrow> op_fail | Some ip \<Rightarrow> open_inode ip omode)
        else kbind (namei path) (\<lambda>r. case r of None \<Rightarrow> op_fail
          | Some ip \<Rightarrow> kthen (ilock (Some ip)) (kbind (get_type ip) (\<lambda>type.
              if type = T_DIR \<and> omode \<noteq> O_RDONLY then kthen (iunlockput ip) op_fail
              else open_inode ip omode))))))"

definition sys_mkdir :: "(int, 'z ksys_scheme) kop" where
  "sys_mkdir = kthen begin_op (kbind (argstr 0 MAXPATH) (\<lambda>a. case a of None \<Rightarrow> op_fail
   | Some path \<Rightarrow> kbind (create path T_DIR 0 0) (\<lambda>r. case r of None \<Rightarrow> op_fail
   | Some ip \<Rightarrow> kthen (kseq [iunlockput ip, end_op]) (kreturn 0))))"

definition sys_mknod :: "(int, 'z ksys_scheme) kop" where
  "sys_mknod = kthen begin_op (kbind (argstr 0 MAXPATH) (\<lambda>a. case a of None \<Rightarrow> op_fail
   | Some path \<Rightarrow> kbind (argint 1) (\<lambda>major. kbind (argint 2) (\<lambda>minor.
       kbind (create path T_DEVICE (ucast major) (ucast minor)) (\<lambda>r. case r of None \<Rightarrow> op_fail
       | Some ip \<Rightarrow> kthen (kseq [iunlockput ip, end_op]) (kreturn 0))))))"

definition sys_chdir :: "(int, 'z ksys_scheme) kop" where
  "sys_chdir = kbind the_proc (\<lambda>p. kthen begin_op (kbind (argstr 0 MAXPATH) (\<lambda>a. case a of None \<Rightarrow> op_fail
   | Some path \<Rightarrow> kbind (namei path) (\<lambda>r. case r of None \<Rightarrow> op_fail
   | Some ip \<Rightarrow> kthen (ilock (Some ip)) (kbind (get_type ip) (\<lambda>type.
       if type \<noteq> T_DIR then kthen (iunlockput ip) op_fail
       else kthen (kseq [
         iunlock (Some ip),
         kbind (get_proc p p_cwd) (\<lambda>c. case c of None \<Rightarrow> knull | Some old \<Rightarrow> iput old),
         end_op,
         set_proc p (\<lambda>q. q\<lparr>p_cwd := Some ip\<rparr>)]) (kreturn 0)))))))"

section \<open>Running programs\<close>

definition free_argv :: "u64 list \<Rightarrow> (unit, 'z ksys_scheme) kop" where
  "free_argv argv = kfor argv kfree"

definition exec_args_bad :: "u64 list \<Rightarrow> (int, 'z ksys_scheme) kop" where
  "exec_args_bad argv = kthen (free_argv argv) (kreturn (- 1))"

text \<open>The loop that fetches the arguments: \<open>n\<close> entries of \<open>argv\<close> are still free.\<close>

fun exec_args :: "u8 list \<Rightarrow> u64 \<Rightarrow> nat \<Rightarrow> u64 list \<Rightarrow> (int, 'z ksys_scheme) kop" where
  "exec_args path uargv 0 argv = exec_args_bad argv"
| "exec_args path uargv (Suc n) argv = kbind (fetchaddr (uargv + 8 * of_nat (length argv))) (\<lambda>r. case r of
     None \<Rightarrow> exec_args_bad argv
   | Some uarg \<Rightarrow>
       if uarg = 0 then kbind (exec path argv) (\<lambda>ret. kthen (free_argv argv) (kreturn ret))
       else kbind kalloc (\<lambda>pg.
         if pg = 0 then exec_args_bad argv
         else kbind (fetchstr uarg PGSIZE) (\<lambda>(r, bs).
           kthen (kmodify (\<lambda>s. s\<lparr>mem := bytes_put (mem s) pg bs\<rparr>))
             (if r < 0 then exec_args_bad (argv @ [pg]) else exec_args path uargv n (argv @ [pg])))))"

definition sys_exec :: "(int, 'z ksys_scheme) kop" where
  "sys_exec = kbind (argstr 0 MAXPATH) (\<lambda>a. case a of None \<Rightarrow> kreturn (- 1)
   | Some path \<Rightarrow> kbind (argaddr 1) (\<lambda>uargv. exec_args path uargv MAXARG []))"

section \<open>Pipes\<close>

definition pipe_fail :: "nat \<Rightarrow> nat \<Rightarrow> (int, 'z ksys_scheme) kop" where
  "pipe_fail rf wfile = kthen (kseq [fileclose rf, fileclose wfile]) (kreturn (- 1))"

definition drop_fd :: "nat \<Rightarrow> int \<Rightarrow> (unit, 'z ksys_scheme) kop" where
  "drop_fd p fd = set_proc p (\<lambda>q. q\<lparr>p_ofile := (p_ofile q)(nat fd := None)\<rparr>)"

definition sys_pipe :: "(int, 'z ksys_scheme) kop" where
  "sys_pipe = kbind the_proc (\<lambda>p. kbind (argaddr 0) (\<lambda>fdarray. kbind pipealloc (\<lambda>r. case r of
     None \<Rightarrow> kreturn (- 1)
   | Some (rf, wfile) \<Rightarrow> kbind (fdalloc rf) (\<lambda>fd0.
       if fd0 < 0 then pipe_fail rf wfile
       else kbind (fdalloc wfile) (\<lambda>fd1.
         if fd1 < 0 then kthen (drop_fd p fd0) (pipe_fail rf wfile)
         else kbind (get_proc p p_pagetable) (\<lambda>pt.
           kbind (copyout pt fdarray (le_bytes 4 (of_int fd0 :: u32)) 4) (\<lambda>r.
           kbind (if r < 0 then kreturn r else copyout pt (fdarray + 4) (le_bytes 4 (of_int fd1 :: u32)) 4) (\<lambda>r.
             if r < 0 then kthen (kseq [drop_fd p fd0, drop_fd p fd1]) (pipe_fail rf wfile)
             else kreturn 0))))))))"

end
