(* ===== verification/Syscall.thy ===== *)
theory Syscall
  imports Sysfile
begin

text \<open>
  The process system calls (src/kernel/sysproc.c), the dispatch of system calls (src/kernel/syscall.c), traps
  (src/kernel/trap.c), the first return of a new process (\<open>forkret\<close>) and booting (src/kernel/main.c).
\<close>

section \<open>Process system calls\<close>

definition sys_exit :: "(int, 'z ksys_scheme) kop" where
  "sys_exit = kbind (argint 0) (\<lambda>n. kthen (exit n) (kreturn 0))"

definition sys_getpid :: "(int, 'z ksys_scheme) kop" where
  "sys_getpid = kbind the_proc (\<lambda>p. kbind (get_proc p p_pid) (\<lambda>pid. kreturn (sint pid)))"

definition sys_fork :: "(int, 'z ksys_scheme) kop" where
  "sys_fork = fork"

definition sys_wait :: "(int, 'z ksys_scheme) kop" where
  "sys_wait = kbind (argaddr 0) wait"

text \<open>The old size is returned through a signed 32-bit variable.\<close>

definition sys_sbrk :: "(int, 'z ksys_scheme) kop" where
  "sys_sbrk = kbind (argint 0) (\<lambda>n. kbind the_proc (\<lambda>p. kbind (get_proc p p_sz) (\<lambda>sz.
     let addr = ucast sz :: u32 in
     kbind (growproc n) (\<lambda>r. kreturn (if r < 0 then - 1 else sint addr)))))"

definition sys_sleep_loop :: "u32 \<Rightarrow> u32 \<Rightarrow> (int, 'z ksys_scheme) kop" where
  "sys_sleep_loop n ticks0 = kbind (kget ticks) (\<lambda>now.
     if now - ticks0 < n then
       kbind the_proc (\<lambda>p. kbind (get_proc p p_killed) (\<lambda>killed.
         if killed then kthen (kunlock TicksLock) (kreturn (- 1))
         else sleep_on ChanTicks TicksLock))
     else kthen (kunlock TicksLock) (kreturn 0))"

definition sys_sleep :: "(int, 'z ksys_scheme) kop" where
  "sys_sleep = kbind (argint 0) (\<lambda>n. kthen (klock TicksLock) (kbind (kget ticks) (\<lambda>ticks0. sys_sleep_loop n ticks0)))"

definition sys_sleep_resume :: "u32 \<Rightarrow> u32 \<Rightarrow> (int, 'z ksys_scheme) kop" where
  "sys_sleep_resume n ticks0 = kthen (sleep_resume TicksLock) (sys_sleep_loop n ticks0)"

definition sys_kill :: "(int, 'z ksys_scheme) kop" where
  "sys_kill = kbind (argint 0) kill"

definition sys_uptime :: "(int, 'z ksys_scheme) kop" where
  "sys_uptime = kthen (klock TicksLock) (kbind (kget ticks) (\<lambda>xticks. kthen (kunlock TicksLock) (kreturn (uint xticks))))"

section \<open>Dispatch\<close>

definition syscalls :: "(int, 'z ksys_scheme) kop list" where
  "syscalls = [sys_fork, sys_exit, sys_wait, sys_pipe, sys_read, sys_kill, sys_exec, sys_fstat, sys_chdir, sys_dup,
     sys_getpid, sys_sbrk, sys_sleep, sys_uptime, sys_open, sys_write, sys_mknod, sys_unlink, sys_link, sys_mkdir, sys_close]"

text \<open>The table has 22 entries and none for 0: system call \<open>n\<close> is element \<open>n - 1\<close> of the list.\<close>

definition syscall :: "(unit, 'z ksys_scheme) kop" where
  "syscall = kbind the_proc (\<lambda>p. kbind (get_tf p (\<lambda>tf. ucast (tf_a tf 7) :: u32)) (\<lambda>num.
     if sint num > 0 \<and> sint num < 22 then
       kbind (syscalls ! (nat (sint num) - 1)) (\<lambda>r. set_tf p (\<lambda>tf. tf\<lparr>tf_a := (tf_a tf)(0 := of_int r)\<rparr>))
     else kbind (get_proc p id) (\<lambda>q. kseq [
       (case proc_name q of None \<Rightarrow> kdiverge
        | Some nm \<Rightarrow> printf (''%d %s: unknown sys call %d'' @ [CHR 0x0A]) [PInt (p_pid q), PStr (Some nm), PInt num]),
       set_tf p (\<lambda>tf. tf\<lparr>tf_a := (tf_a tf)(0 := - 1)\<rparr>)])))"

section \<open>Interrupts\<close>

definition trapinithart :: "(unit, 'z ksys_scheme) kop" where
  "trapinithart = kbind (kget sym) (\<lambda>y. w_stvec (sym_kernelvec y))"

definition clockintr :: "(unit, 'z ksys_scheme) kop" where
  "clockintr = kseq [
     klock TicksLock,
     kmodify (\<lambda>s. s\<lparr>ticks := ticks s + 1\<rparr>),
     wakeup ChanTicks,
     kunlock TicksLock]"

text \<open>
  \<open>devintr\<close>: 2 for a timer interrupt, 1 for another device, 0 for anything else. The handler of the disk is
  an argument: its model is theory Virtio.
\<close>

definition devintr :: "(unit, 'z ksys_scheme) kop \<Rightarrow> (nat, 'z ksys_scheme) kop" where
  "devintr virtio_disk_intr = kbind r_scause (\<lambda>scause.
     if scause AND 0x8000000000000000 \<noteq> 0 \<and> scause AND 0xff = 9 then
       kbind plic_claim (\<lambda>irq. kthen (kseq [
         (if irq = of_nat UART0_IRQ then uartintr
          else if irq = of_nat VIRTIO0_IRQ then virtio_disk_intr
          else if irq \<noteq> 0 then printf (''unexpected interrupt irq=%d'' @ [CHR 0x0A]) [PInt irq]
          else kreturn ()),
         kwhen (irq \<noteq> 0) (plic_complete irq)]) (kreturn 1))
     else if scause = 0x8000000000000001 then
       kthen (kseq [
         kbind cpuid (\<lambda>c. kwhen (c = 0) clockintr),
         kbind r_sip (\<lambda>x. w_sip (x AND NOT 2))]) (kreturn 2)
     else kreturn 0)"

text \<open>The last call of \<open>usertrapret\<close> jumps to \<open>userret\<close> in trampoline.S with these arguments.\<close>

definition usertrapret :: "(u64 \<times> u64 \<times> u64, 'z ksys_scheme) kop" where
  "usertrapret = kbind the_proc (\<lambda>p. kbind (kget sym) (\<lambda>y. kthen (kseq [
     sie_off,
     w_stvec (TRAMPOLINE + (sym_uservec y - sym_trampoline y)),
     kbind r_satp (\<lambda>x. set_tf p (\<lambda>tf. tf\<lparr>tf_kernel_satp := x\<rparr>)),
     kbind (get_proc p p_kstack) (\<lambda>k. set_tf p (\<lambda>tf. tf\<lparr>tf_kernel_sp := k + PGSIZE\<rparr>)),
     set_tf p (\<lambda>tf. tf\<lparr>tf_kernel_trap := sym_usertrap y\<rparr>),
     kbind r_tp (\<lambda>x. set_tf p (\<lambda>tf. tf\<lparr>tf_kernel_hartid := x\<rparr>)),
     kbind r_sstatus (\<lambda>x. w_sstatus ((x AND NOT SSTATUS_SPP) OR SSTATUS_SPIE)),
     kbind (get_tf p tf_epc) w_sepc])
     (kbind (get_proc p p_pagetable) (\<lambda>pt.
       kreturn (TRAMPOLINE + (sym_userret y - sym_trampoline y), TRAPFRAME, MAKE_SATP pt)))))"

definition exit_if_killed :: "nat \<Rightarrow> (unit, 'z ksys_scheme) kop" where
  "exit_if_killed p = kbind (get_proc p p_killed) (\<lambda>killed. kwhen killed (exit (- 1)))"

definition usertrap :: "(unit, 'z ksys_scheme) kop \<Rightarrow> (u64 \<times> u64 \<times> u64, 'z ksys_scheme) kop" where
  "usertrap virtio_disk_intr = kthen (kbind r_sstatus (\<lambda>x. kpanic_if (x AND SSTATUS_SPP \<noteq> 0) ''usertrap: not from user mode''))
     (kbind (kget sym) (\<lambda>y. kthen (w_stvec (sym_kernelvec y)) (kbind the_proc (\<lambda>p.
      kthen (kbind r_sepc (\<lambda>x. set_tf p (\<lambda>tf. tf\<lparr>tf_epc := x\<rparr>)))
      (kbind r_scause (\<lambda>scause.
       kbind
        (if scause = 8 then kthen (kseq [
            exit_if_killed p,
            set_tf p (\<lambda>tf. tf\<lparr>tf_epc := tf_epc tf + 4\<rparr>),
            sie_on,
            syscall]) (kreturn 0)
         else kbind (devintr virtio_disk_intr) (\<lambda>which_dev.
           if which_dev \<noteq> 0 then kreturn which_dev
           else kbind (get_proc p p_pid) (\<lambda>pid. kbind r_sepc (\<lambda>sepc. kbind r_stval (\<lambda>stval. kthen (kseq [
             printf (''usertrap(): unexpected scause %p pid=%d'' @ [CHR 0x0A]) [PPtr scause, PInt pid],
             printf (''            sepc=%p stval=%p'' @ [CHR 0x0A]) [PPtr sepc, PPtr stval],
             set_proc p (\<lambda>q. q\<lparr>p_killed := True\<rparr>)]) (kreturn 0))))))
        (\<lambda>which_dev. kthen (kseq [exit_if_killed p, kwhen (which_dev = 2) yield]) usertrapret)))))))"

definition kerneltrap :: "(unit, 'z ksys_scheme) kop \<Rightarrow> (unit, 'z ksys_scheme) kop" where
  "kerneltrap virtio_disk_intr = kbind r_sepc (\<lambda>sepc. kbind r_sstatus (\<lambda>sstatus. kbind r_scause (\<lambda>scause. kseq [
     kpanic_if (sstatus AND SSTATUS_SPP = 0) ''kerneltrap: not from supervisor mode'',
     kbind sie_get (\<lambda>on. kpanic_if on ''kerneltrap: interrupts enabled''),
     kbind (devintr virtio_disk_intr) (\<lambda>which_dev.
       if which_dev = 0 then
         kbind r_stval (\<lambda>stval. kseq [
           printf (''scause %p'' @ [CHR 0x0A]) [PPtr scause],
           printf (''sepc=%p stval=%p'' @ [CHR 0x0A]) [PPtr sepc, PPtr stval],
           panic ''kerneltrap''])
       else kbind myproc (\<lambda>me. case me of None \<Rightarrow> kreturn ()
         | Some p \<Rightarrow> kbind (get_proc p p_state) (\<lambda>st. kwhen (which_dev = 2 \<and> st = RUNNING) yield))),
     w_sepc sepc,
     w_sstatus sstatus])))"

section \<open>First run and boot\<close>

definition forkret :: "(u64 \<times> u64 \<times> u64, 'z ksys_scheme) kop" where
  "forkret = kbind the_proc (\<lambda>p. kthen (kunlock (ProcLock p)) (kbind (kget forkret_first) (\<lambda>first. kthen
     (kwhen first (kthen (kmodify (\<lambda>s. s\<lparr>forkret_first := False\<rparr>)) (fsinit ROOTDEV)))
     usertrapret)))"

text \<open>
  \<open>main\<close> up to the call of the scheduler. The initialization of the disk is an argument. A CPU other than
  the first waits until the first is done: it has no result before that.
\<close>

definition main :: "(unit, 'z ksys_scheme) kop \<Rightarrow> (unit, 'z ksys_scheme) kop" where
  "main virtio_disk_init = kbind cpuid (\<lambda>id.
     if id = 0 then kbind (kget sym) (\<lambda>y. kseq [
       consoleinit,
       printfinit,
       printf [CHR 0x0A] [],
       printf (''xv6 kernel is booting'' @ [CHR 0x0A]) [],
       printf [CHR 0x0A] [],
       kinit,
       kvminit (sym_etext y) (sym_trampoline y),
       kvminithart,
       procinit,
       trapinithart,
       plicinit,
       plicinithart,
       binit,
       iinit,
       virtio_disk_init,
       userinit,
       kmodify (\<lambda>s. s\<lparr>started := True\<rparr>)])
     else kseq [
       kbind (kget started) (\<lambda>b. if b then kreturn () else kdiverge),
       printf (''hart %d starting'' @ [CHR 0x0A]) [PInt id],
       kvminithart,
       trapinithart,
       plicinithart])"

end
