(* ===== verification/Proc_Correct.thy ===== *)
theory Proc_Correct
  imports Proc
begin

text \<open>
  What the operations on processes do: the hand-over from an exiting process to its parent, the sleep and wakeup
  protocol, a round of the scheduler, \<open>kill\<close>, and two errors in allocating and growing processes.
\<close>

section \<open>Execution of the loops over the process table\<close>

lemma reparent_one_exec:
  assumes "p_parent (ptable s x) = Some p \<Longrightarrow> ProcLock x \<notin> held s"
  shows "reparent_one p x s = Ret () (s\<lparr>ptable := (\<lambda>y. if y = x \<and> p_parent (ptable s y) = Some p
    then (ptable s y)\<lparr>p_parent := initproc s\<rparr> else ptable s y)\<rparr>)"
proof (cases "p_parent (ptable s x) = Some p")
  case True
  then have "(ptable s)(x := (ptable s x)\<lparr>p_parent := initproc s\<rparr>) =
      (\<lambda>y. if y = x \<and> p_parent (ptable s y) = Some p then (ptable s y)\<lparr>p_parent := initproc s\<rparr> else ptable s y)"
    by (auto simp: fun_eq_iff)
  then show ?thesis using True assms by (simp add: reparent_one_def proc_defs kexec)
next
  case False
  then have "(\<lambda>y. if y = x \<and> p_parent (ptable s y) = Some p then (ptable s y)\<lparr>p_parent := initproc s\<rparr> else ptable s y) = ptable s"
    by (auto simp: fun_eq_iff)
  then show ?thesis using False by (simp add: reparent_one_def proc_defs kexec)
qed

definition reparented :: "nat \<Rightarrow> nat set \<Rightarrow> 'z kproc_scheme \<Rightarrow> (nat \<Rightarrow> proc)" where
  "reparented p X s = (\<lambda>x. if x \<in> X \<and> p_parent (ptable s x) = Some p
     then (ptable s x)\<lparr>p_parent := initproc s\<rparr> else ptable s x)"

lemma reparent_list:
  assumes "distinct xs" "\<And>x. x \<in> set xs \<Longrightarrow> p_parent (ptable s x) = Some p \<Longrightarrow> ProcLock x \<notin> held s"
  shows "kfor xs (reparent_one p) s = Ret () (s\<lparr>ptable := reparented p (set xs) s\<rparr>)"
  using assms
proof (induction xs arbitrary: s)
  case Nil
  then show ?case by (simp add: kexec reparented_def)
next
  case (Cons x xs)
  let ?s = "s\<lparr>ptable := (\<lambda>y. if y = x \<and> p_parent (ptable s y) = Some p
    then (ptable s y)\<lparr>p_parent := initproc s\<rparr> else ptable s y)\<rparr>"
  have "kfor xs (reparent_one p) ?s = Ret () (?s\<lparr>ptable := reparented p (set xs) ?s\<rparr>)"
    by (rule Cons.IH) (use Cons.prems in \<open>auto split: if_splits\<close>)
  moreover have "reparented p (set xs) ?s = reparented p (set (x # xs)) s"
    using Cons.prems(1) by (auto simp: reparented_def fun_eq_iff)
  ultimately show ?case using reparent_one_exec [of s x p] Cons.prems(2) by (simp add: kexec)
qed

lemma kill_loop_exec:
  assumes "\<And>x. x \<in> set xs \<Longrightarrow> ProcLock x \<notin> held s"
  shows "kill_loop pid xs s = (case find (\<lambda>x. p_pid (ptable s x) = pid) xs of None \<Rightarrow> Ret (- 1) s
    | Some p \<Rightarrow> Ret 0 (s\<lparr>ptable := (ptable s)(p := (ptable s p)\<lparr>p_killed := True,
        p_state := (if p_state (ptable s p) = SLEEPING then RUNNABLE else p_state (ptable s p))\<rparr>)\<rparr>))"
  using assms by (induction xs) (auto simp: kexec proc_defs)

lemma allocproc_scan_exec:
  assumes "\<And>x. x \<in> set xs \<Longrightarrow> ProcLock x \<notin> held s"
  shows "allocproc_scan xs s = (case find (\<lambda>x. p_state (ptable s x) = UNUSED) xs of None \<Rightarrow> Ret None s
    | Some p \<Rightarrow> Ret (Some p) (s\<lparr>held := insert (ProcLock p) (held s)\<rparr>))"
  using assms by (induction xs) (auto simp: kexec proc_defs)

section \<open>Properties\<close>

text \<open>
  C22: the end of a process loses no wakeup. The last part of \<open>exit\<close> leaves the CPU for good, holding only the
  lock of the process: the process is a zombie with its exit status, its children have the first process
  as their parent and no other process changes parents, and the parent, if it slept in \<open>wait\<close>, is
  runnable, in the same critical section in which the child became a zombie.
\<close>

theorem exit_hands_over:
  fixes s :: "'z kproc_scheme"
  assumes "held s = {}" "cur s = Some p" "p < NPROC" "q < NPROC" "p \<noteq> q"
    and "p_parent (ptable s p) = Some q" "p_parent (ptable s q) \<noteq> Some p"
  shows "\<exists>t. exit_zombie p status s = Sleep t \<and> held t = {ProcLock p} \<and>
    p_state (ptable t p) = ZOMBIE \<and> p_xstate (ptable t p) = status \<and>
    \<not> (p_state (ptable t q) = SLEEPING \<and> p_chan (ptable t q) = Some (ChanProc q)) \<and>
    (\<forall>x < NPROC. p_parent (ptable t x) =
       (if p_parent (ptable s x) = Some p then initproc s else p_parent (ptable s x)))"
proof -
  let ?s = "s\<lparr>held := {ProcLock q, ProcLock p}\<rparr>"
  let ?r = "reparented p {..<NPROC} ?s"
  have set: "set [0..<NPROC] = {..<NPROC}" by (simp add: atLeast0LessThan del: upt_rec_numeral)
  have "kfor [0..<NPROC] (reparent_one p) ?s = Ret () (?s\<lparr>ptable := reparented p (set [0..<NPROC]) ?s\<rparr>)"
    by (rule reparent_list) (use assms(5-7) in auto)
  then have "reparent p ?s = Ret () (?s\<lparr>ptable := ?r\<rparr>)" unfolding reparent_def set .
  moreover have "p_parent (?r x) = (if p_parent (ptable s x) = Some p then initproc s else p_parent (ptable s x))"
    "p_state (?r x) = p_state (ptable s x)" "p_chan (?r x) = p_chan (ptable s x)" if "x < NPROC" for x
    using that by (auto simp: reparented_def)
  ultimately show ?thesis
    using assms by (auto simp: exit_zombie_def kexec proc_defs wakeup1_def sched_def insert_commute)
qed

text \<open>A parent that waits for its only child.\<close>

definition demo_procs :: kproc where
  "demo_procs = \<lparr>held = {}, mem = (\<lambda>_. 0), freelist = 0, kend = 0, kernel_pagetable = 0, satp = 0,
     ptable = (\<lambda>_. zero_proc)(
       0 := zero_proc\<lparr>p_state := SLEEPING, p_chan := Some (ChanProc 0), p_pid := 1\<rparr>,
       1 := zero_proc\<lparr>p_state := RUNNING, p_pid := 2, p_parent := Some 0\<rparr>),
     trapframes = (\<lambda>_. zero_trapframe), cur = Some 1, nextpid = 3, initproc = Some 0\<rparr>"

theorem exit_hands_over_witness:
  "\<exists>t. exit_zombie 1 7 demo_procs = Sleep t \<and> p_state (ptable t 1) = ZOMBIE \<and> p_xstate (ptable t 1) = 7"
  using exit_hands_over [of demo_procs 1 0 7] by (auto simp: demo_procs_def zero_proc_def)



text \<open>
  C25: \<open>kill\<close> marks exactly one process. It looks the process table up in order for the first slot with the
  process number, sets its killed flag and makes it runnable if it sleeps, whatever it sleeps on; it returns -1 and
  changes nothing if there is none.
\<close>

theorem kill_marks_first:
  assumes "held s = {}"
  shows "kill pid s = (case find (\<lambda>x. p_pid (ptable s x) = pid) [0..<NPROC] of None \<Rightarrow> Ret (- 1) s
    | Some p \<Rightarrow> Ret 0 (s\<lparr>ptable := (ptable s)(p := (ptable s p)\<lparr>p_killed := True,
        p_state := (if p_state (ptable s p) = SLEEPING then RUNNABLE else p_state (ptable s p))\<rparr>)\<rparr>))"
  unfolding kill_def by (rule kill_loop_exec) (simp add: assms)

theorem kill_marks_first_witness: "kill 9 demo_procs = Ret (- 1) demo_procs"
proof -
  have "find (\<lambda>x. p_pid (ptable demo_procs x) = 9) [0..<NPROC] = None"
    unfolding find_None_iff by (simp add: demo_procs_def zero_proc_def del: upt_rec_numeral)
  then show ?thesis using kill_marks_first [of demo_procs 9] by (simp add: demo_procs_def del: upt_rec_numeral)
qed

lemma unat_ucast_32_64: "unat (ucast (x :: u32) :: u64) = unat x"
  using unat_bound [of x] by (simp add: unsigned_ucast_eq take_bit_nat_eq_self)

lemma kalloc_empty:
  assumes "KmemLock \<notin> held s" "freelist s = 0"
  shows "kalloc s = Ret 0 s"
  using assms by (simp add: kalloc_def kexec)

text \<open>
  C27: a process slot whose allocation failed can be killed. When no memory is left for the trap frame,
  \<open>allocproc\<close> returns nothing but leaves the new process number in the unused slot; \<open>kill\<close> of that number then succeeds
  and sets the killed flag of the unused slot, which no later \<open>allocproc\<close> clears.
\<close>

theorem failed_slot_can_be_killed:
  fixes s :: "'z ksys_scheme"
  assumes "held s = {}" "freelist s = 0" "find (\<lambda>x. p_state (ptable s x) = UNUSED) [0..<NPROC] = Some p"
    and "\<forall>x < NPROC. p_pid (ptable s x) \<noteq> nextpid s"
  shows "\<exists>t u. allocproc s = Ret None t \<and> kill (nextpid s) t = Ret 0 u \<and> held u = {} \<and>
    p_state (ptable u p) = UNUSED \<and> p_killed (ptable u p)"
proof -
  let ?t = "s\<lparr>nextpid := nextpid s + 1, ptable := (ptable s)(p := (ptable s p)\<lparr>p_pid := nextpid s, p_trapframe := 0\<rparr>)\<rparr>"
  have p: "p < NPROC" "p_state (ptable s p) = UNUSED" using assms(3) by (auto simp: find_Some_iff)
  have "allocproc_scan [0..<NPROC] s = Ret (Some p) (s\<lparr>held := {ProcLock p}\<rparr>)"
    using allocproc_scan_exec [of "[0..<NPROC]" s] assms(1,3) by (simp del: upt_rec_numeral)
  then have a: "allocproc s = Ret None ?t"
    using assms(1,2) by (simp add: allocproc_def allocproc_found_def allocpid_def kexec proc_defs kalloc_empty del: upt_rec_numeral)
  have "find (\<lambda>x. p_pid (ptable ?t x) = nextpid s) [0..<NPROC] = Some p"
  proof -
    have "find (\<lambda>x. p_pid (ptable ?t x) = nextpid s) [0..<NPROC] \<noteq> None"
      unfolding find_None_iff using p(1) by (auto simp del: upt_rec_numeral)
    then obtain y where y: "find (\<lambda>x. p_pid (ptable ?t x) = nextpid s) [0..<NPROC] = Some y" by blast
    then have "y < NPROC" "p_pid (ptable ?t y) = nextpid s" by (auto simp: find_Some_iff)
    then have "y = p" using assms(4) by (auto split: if_splits)
    then show ?thesis using y by simp
  qed
  then have "kill (nextpid s) ?t = Ret 0 (?t\<lparr>ptable := (ptable ?t)(p := (ptable ?t p)\<lparr>p_killed := True, p_state := UNUSED\<rparr>)\<rparr>)"
    unfolding kill_def using assms(1) p(2)
    by (subst kill_loop_exec) (simp_all del: upt_rec_numeral fun_upd_upd)
  then show ?thesis using a assms(1) p(2) by auto
qed

text \<open>A machine that has not booted: all tables are zero.\<close>

definition zero_symbols :: symbols where
  "zero_symbols = \<lparr>sym_main = 0, sym_trampoline = 0, sym_uservec = 0, sym_userret = 0, sym_usertrap = 0, sym_kernelvec = 0,
     sym_timervec = 0, sym_forkret = 0, sym_mscratch0 = 0, sym_etext = 0\<rparr>"

definition zero_csrs :: csrs where
  "zero_csrs = \<lparr>r_mstatus_val = 0, r_mepc_val = 0, r_sstatus_val = 0, r_sip_val = 0, r_sie_val = 0, r_mie_val = 0,
     r_sepc_val = 0, r_medeleg_val = 0, r_mideleg_val = 0, r_stvec_val = 0, r_mtvec_val = 0, r_mscratch_val = 0,
     r_scause_val = 0, r_stval_val = 0, r_tp_val = 0\<rparr>"

definition zero_file :: file_struct where
  "zero_file = \<lparr>f_type = FD_NONE, f_ref = 0, f_readable = False, f_writable = False, f_pipe = 0, f_ip = None, f_off = 0,
     f_major = 0\<rparr>"

definition zero_sys :: ksys where
  "zero_sys = zero_fs (\<lambda>_. zero_block)
     (kpipe_ext (\<lambda>_. \<lparr>pi_data = (\<lambda>_. 0), pi_nread = 0, pi_nwrite = 0, pi_readopen = False, pi_writeopen = False\<rparr>)
     (kcons_ext (\<lambda>r n. 0x20) 0 [] (\<lambda>_. 0) 0 0 False \<lparr>c_buf = (\<lambda>_. 0), c_r = 0, c_w = 0, c_e = 0\<rparr> True
     (kfile_ext (\<lambda>_. zero_file) (\<lambda>_. \<lparr>dev_read = None, dev_write = None\<rparr>) (\<lambda>_. 0)
     (ksys_ext zero_symbols zero_csrs 0 [] 0 (\<lambda>_ _. 0) 0 (\<lambda>_. 0) 0 True False ()))))"

lemma zero_sys_sel:
  "held zero_sys = {}" "freelist zero_sys = 0" "ptable zero_sys = (\<lambda>_. zero_proc)" "nextpid zero_sys = 1" "cur zero_sys = None"
  by (simp_all add: zero_sys_def zero_fs_def zero_bio_def)

theorem failed_slot_can_be_killed_witness:
  "\<exists>t u. allocproc zero_sys = Ret None t \<and> kill 1 t = Ret 0 u \<and> p_state (ptable u 0) = UNUSED \<and> p_killed (ptable u 0)"
proof -
  have "find (\<lambda>x. p_state (ptable zero_sys x) = UNUSED) [0..<NPROC] = Some 0"
    by (simp add: zero_sys_sel zero_proc_def upt_rec)
  then show ?thesis
    using failed_slot_can_be_killed [of zero_sys 0] by (auto simp: zero_sys_sel zero_proc_def)
qed

text \<open>
  C28: shrinking a process by more than its size succeeds and does nothing. \<open>growproc\<close> computes the new size in
  32 bits, where it wraps to a size above the old one; \<open>uvmdealloc\<close> then keeps the old size, and \<open>growproc\<close> returns 0
  as if memory had been released.
\<close>

theorem growproc_overshrink:
  assumes "cur s = Some p" "sint n < 0" "unat (- n) > unat (p_sz (ptable s p))"
  shows "growproc n s = Ret 0 s"
proof -
  let ?sz = "p_sz (ptable s p)"
  have big: "unat (- n) \<le> 2 ^ 31"
  proof -
    have "uint (- n) = (- sint n) mod 2 ^ 32"
      by (simp add: uint_word_ariths(4) uint_sint [of n] take_bit_eq_mod mod_minus_eq)
    also have "\<dots> = - sint n" using assms(2) sint_ge [of n] by (intro mod_pos_pos_trivial) auto
    also have "\<dots> \<le> 2 ^ 31" using sint_ge [of n] by simp
    finally have "int (unat (- n)) \<le> int (2 ^ 31)" by simp
    then show ?thesis by (simp only: of_nat_le_iff)
  qed
  have sz: "unat ?sz < 2 ^ 32" using assms(3) big by simp
  then have u: "unat (ucast ?sz :: u32) = unat ?sz" by (simp add: unsigned_ucast_eq take_bit_nat_eq_self)
  have cast: "ucast (ucast ?sz :: u32) = ?sz"
    unfolding word_unat_eq_iff unat_ucast_32_64 u ..
  have "unat n + unat (- n) = 2 ^ 32"
  proof -
    have "(unat n + unat (- n)) mod 2 ^ 32 = 0" using unat_word_ariths(1) [of n "- n"] by simp
    then obtain k where "unat n + unat (- n) = 2 ^ 32 * k" by (auto elim: dvdE)
    moreover have "0 < unat (- n)" using assms(3) by linarith
    moreover have "unat n < 2 ^ 32" "unat (- n) < 2 ^ 32" using unat_bound [of n] unat_bound [of "- n"] by simp_all
    ultimately have "k = 1" by (cases "k = 0"; cases "k = 1") (auto simp: nat_neq_iff)
    then show ?thesis using \<open>unat n + unat (- n) = 2 ^ 32 * k\<close> by simp
  qed
  then have "unat (ucast ?sz + n) = unat ?sz + unat n"
    using unat_add_lem [of "ucast ?sz :: u32" n] u assms(3) by simp
  then have "(ucast ?sz :: u32) \<le> ucast ?sz + n" using u by (simp add: word_le_nat_alt)
  then have "(ucast (ucast ?sz :: u32) :: u64) \<le> ucast (ucast ?sz + n)"
    unfolding word_le_nat_alt unat_ucast_32_64 .
  then show ?thesis
    using assms(1,2) by (simp add: growproc_def kexec proc_defs Let_def uvmdealloc_def cast)
qed

theorem growproc_overshrink_witness: "growproc (- 5) demo_procs = Ret 0 demo_procs"
  using growproc_overshrink [of demo_procs 1 "- 5"] by (simp add: demo_procs_def zero_proc_def)

text \<open>
  What the scheduler needs of a process it runs: started as the running process with only its own lock
  held, it comes back with that lock, has had its turn, and leaves other processes runnable that were. \<open>had p\<close> is
  any fact that a turn of process \<open>p\<close> establishes and that later turns keep.
\<close>

definition takes_turn :: "(nat \<Rightarrow> 'z ksys_scheme \<Rightarrow> bool) \<Rightarrow> (nat \<Rightarrow> (unit, 'z ksys_scheme) kop) \<Rightarrow> bool" where
  "takes_turn had run \<longleftrightarrow> (\<forall>p s. held s = {ProcLock p} \<and> cur s = Some p \<and> p_state (ptable s p) = RUNNING \<longrightarrow>
     (\<exists>t. run p s = Ret () t \<and> held t = {ProcLock p} \<and> had p t \<and> (\<forall>q. had q s \<longrightarrow> had q t) \<and>
        (\<forall>q. q \<noteq> p \<longrightarrow> p_state (ptable s q) = RUNNABLE \<longrightarrow> p_state (ptable t q) = RUNNABLE)))"

definition ignores_sched :: "(nat \<Rightarrow> 'z ksys_scheme \<Rightarrow> bool) \<Rightarrow> bool" where
  "ignores_sched had \<longleftrightarrow> (\<forall>p s h c q st x. had p s \<longrightarrow>
     had p (s\<lparr>csr := x\<rparr>) \<and> had p (s\<lparr>held := h\<rparr>) \<and> had p (s\<lparr>cur := c\<rparr>) \<and> had p (s\<lparr>ptable := (ptable s)(q := (ptable s q)\<lparr>p_state := st\<rparr>)\<rparr>))"

lemma scheduler_round_spec:
  fixes s :: "'z ksys_scheme"
  assumes "takes_turn had run" "ignores_sched had" "held s = {}" "distinct ps"
  shows "wp (scheduler_round run ps any) (\<lambda>_ t. held t = {} \<and> (\<forall>q. had q s \<longrightarrow> had q t) \<and>
    (\<forall>q \<in> set ps. p_state (ptable s q) = RUNNABLE \<longrightarrow> had q t)) s"
  using assms(3,4)
proof (induction ps arbitrary: s any)
  case Nil
  then show ?case by (simp add: wp_def kexec)
next
  case (Cons p ps)
  show ?case
  proof (cases "p_state (ptable s p) = RUNNABLE")
    case False
    have "wp (scheduler_round run ps any) (\<lambda>_ t. held t = {} \<and> (\<forall>q. had q s \<longrightarrow> had q t) \<and>
        (\<forall>q \<in> set ps. p_state (ptable s q) = RUNNABLE \<longrightarrow> had q t)) s"
      by (rule Cons.IH) (use Cons.prems in auto)
    moreover have e: "s\<lparr>held := {}\<rparr> = s" using Cons.prems(1) by (cases s) simp
    have "scheduler_round run (p # ps) any s = scheduler_round run ps any (s\<lparr>held := {}\<rparr>)"
      using False Cons.prems(1) by (simp add: kexec proc_defs)
    ultimately show ?thesis using False unfolding e by (auto simp: wp_iff simp del: scheduler_round.simps)
  next
    case True
    let ?s = "s\<lparr>held := {ProcLock p}, ptable := (ptable s)(p := (ptable s p)\<lparr>p_state := RUNNING\<rparr>), cur := Some p\<rparr>"
    obtain t where t: "run p ?s = Ret () t" "held t = {ProcLock p}" "had p t" "\<forall>q. had q ?s \<longrightarrow> had q t"
        "\<forall>q. q \<noteq> p \<longrightarrow> p_state (ptable ?s q) = RUNNABLE \<longrightarrow> p_state (ptable t q) = RUNNABLE"
      using assms(1) unfolding takes_turn_def by (elim allE [of _ p] allE [of _ ?s]) auto
    let ?t = "t\<lparr>cur := None, held := {}\<rparr>"
    have keep: "had q ?s" if "had q s" for q
    proof -
      let ?a = "s\<lparr>held := {ProcLock p}\<rparr>"
      have "had q ?a" using that assms(2) unfolding ignores_sched_def by blast
      then have "had q (?a\<lparr>ptable := (ptable ?a)(p := (ptable ?a p)\<lparr>p_state := RUNNING\<rparr>)\<rparr>)"
        using assms(2) unfolding ignores_sched_def by blast
      then have "had q (?a\<lparr>ptable := (ptable ?a)(p := (ptable ?a p)\<lparr>p_state := RUNNING\<rparr>)\<rparr>\<lparr>cur := Some p\<rparr>)"
        using assms(2) unfolding ignores_sched_def by blast
      then show ?thesis by simp
    qed
    have kt: "had q ?t" if "had q t" for q using that assms(2) unfolding ignores_sched_def by blast
    have "wp (scheduler_round run ps True) (\<lambda>_ u. held u = {} \<and> (\<forall>q. had q ?t \<longrightarrow> had q u) \<and>
        (\<forall>q \<in> set ps. p_state (ptable ?t q) = RUNNABLE \<longrightarrow> had q u)) ?t"
      by (rule Cons.IH) (use Cons.prems in auto)
    then obtain b u where u: "scheduler_round run ps True ?t = Ret b u" "held u = {}" "\<forall>q. had q ?t \<longrightarrow> had q u"
        "\<forall>q \<in> set ps. p_state (ptable ?t q) = RUNNABLE \<longrightarrow> had q u" by (auto simp: wp_iff)
    have "scheduler_round run (p # ps) any s = Ret b u"
      using True Cons.prems(1) t(1,2) u(1) by (simp add: kexec proc_defs)
    moreover have "had q u" if "had q s" for q using keep [OF that] t(4) kt u(3) by blast
    moreover have "had q u" if "q \<in> set (p # ps)" "p_state (ptable s q) = RUNNABLE" for q
    proof (cases "q = p")
      case True
      then show ?thesis using t(3) kt u(3) by blast
    next
      case False
      then show ?thesis using that t(5) u(4) by auto
    qed
    ultimately show ?thesis using u(2) by (auto simp: wp_iff)
  qed
qed

text \<open>
  C24: the scheduler starves nobody. In one round of its loop every process that is runnable when the
  round starts gets its turn, whatever the others do, as long as each process that runs comes back and no
  process makes another one not runnable; the round ends with no lock held. Each process is switched to
  in state \<open>RUNNING\<close>, as the current process of the CPU, with exactly its own lock held.
\<close>

theorem scheduler_round_runs_all:
  fixes s :: "'z ksys_scheme"
  assumes "takes_turn had run" "ignores_sched had" "held s = {}"
  shows "wp (scheduler_step run) (\<lambda>_ t. held t = {} \<and>
    (\<forall>q < NPROC. p_state (ptable s q) = RUNNABLE \<longrightarrow> had q t)) s"
proof -
  let ?s = "s\<lparr>csr := (csr s)\<lparr>r_sstatus_val := r_sstatus_val (csr s) OR SSTATUS_SIE\<rparr>\<rparr>"
  have "wp (scheduler_round run [0..<NPROC] False) (\<lambda>_ t. held t = {} \<and> (\<forall>q. had q ?s \<longrightarrow> had q t) \<and>
      (\<forall>q \<in> set [0..<NPROC]. p_state (ptable ?s q) = RUNNABLE \<longrightarrow> had q t)) ?s"
    by (rule scheduler_round_spec [OF assms(1,2)]) (use assms(3) in auto)
  then obtain b t where t: "scheduler_round run [0..<NPROC] False ?s = Ret b t" "held t = {}"
      "\<forall>q < NPROC. p_state (ptable s q) = RUNNABLE \<longrightarrow> had q t" by (auto simp: wp_iff)
  have "had q (t\<lparr>csr := x\<rparr>)" if "had q t" for q x using that assms(2) unfolding ignores_sched_def by blast
  then show ?thesis
    using t by (auto simp: wp_def scheduler_step_def sie_on_def csr_defs kexec simp del: upt_rec_numeral)
qed

definition demo_run :: "nat \<Rightarrow> (unit, ksys) kop" where
  "demo_run p = set_proc p (\<lambda>q. q\<lparr>p_state := ZOMBIE, p_xstate := 1\<rparr>)"

theorem scheduler_round_runs_all_witness:
  "wp (scheduler_step demo_run) (\<lambda>_ t. p_xstate (ptable t 3) = 1)
     (zero_sys\<lparr>ptable := (\<lambda>_. zero_proc\<lparr>p_state := RUNNABLE\<rparr>)\<rparr>)"
proof -
  have 1: "takes_turn (\<lambda>p s. p_xstate (ptable s p) = 1) demo_run"
    by (simp add: takes_turn_def demo_run_def proc_defs kexec)
  have 2: "ignores_sched (\<lambda>p s :: ksys. p_xstate (ptable s p) = 1)" by (simp add: ignores_sched_def)
  show ?thesis by (rule wp_mono [OF scheduler_round_runs_all [OF 1 2]]) (simp_all add: zero_sys_sel)
qed

lemma wait_scan_no_zombie:
  assumes "\<And>x. x \<in> set xs \<Longrightarrow> p_parent (ptable s x) = Some p \<Longrightarrow> p_state (ptable s x) \<noteq> ZOMBIE \<and> ProcLock x \<notin> held s"
  shows "wait_scan p addr xs havekids s = Ret (Inr (havekids \<or> (\<exists>x \<in> set xs. p_parent (ptable s x) = Some p))) s"
  using assms by (induction xs arbitrary: havekids) (auto simp: kexec proc_defs)

text \<open>
  C26: \<open>wait\<close> without a child to collect. A process with no children gets -1 at once, and so does a killed process
  none of whose children has exited; nothing is changed and no lock is kept. Otherwise the process goes to
  sleep on its own address, holding its own lock from before it looked at its children until it is asleep, so that a
  child that exits in between finds it asleep.
\<close>

theorem wait_without_zombie:
  fixes s :: "'z ksys_scheme"
  assumes "held s = {}" "cur s = Some p" "p_parent (ptable s p) \<noteq> Some p" "p_state (ptable s p) = RUNNING"
    and "\<forall>x < NPROC. p_parent (ptable s x) = Some p \<longrightarrow> p_state (ptable s x) \<noteq> ZOMBIE"
  shows "wait addr s = (if (\<forall>x < NPROC. p_parent (ptable s x) \<noteq> Some p) \<or> p_killed (ptable s p) then Ret (- 1) s
    else Sleep (s\<lparr>held := {ProcLock p},
      ptable := (ptable s)(p := (ptable s p)\<lparr>p_chan := Some (ChanProc p), p_state := SLEEPING\<rparr>)\<rparr>))"
proof -
  let ?s = "s\<lparr>held := {ProcLock p}\<rparr>"
  have e: "s\<lparr>held := {}\<rparr> = s" using assms(1) by (cases s) simp
  have "wait_scan p addr [0..<NPROC] False ?s = Ret (Inr (False \<or> (\<exists>x \<in> set [0..<NPROC]. p_parent (ptable ?s x) = Some p))) ?s"
    by (rule wait_scan_no_zombie) (use assms(3,5) in auto)
  then have scan: "wait_scan p addr [0..<NPROC] False ?s = Ret (Inr (\<exists>x < NPROC. p_parent (ptable s x) = Some p)) ?s"
    by (simp add: Bex_def)
  show ?thesis
  proof (cases "(\<forall>x < NPROC. p_parent (ptable s x) \<noteq> Some p) \<or> p_killed (ptable s p)")
    case True
    then have "wait addr s = Ret (- 1) (s\<lparr>held := {}\<rparr>)"
      using assms(1,2) scan by (auto simp: wait_def wait_loop_def kexec proc_defs simp del: upt_rec_numeral)
    then show ?thesis using True unfolding e by simp
  next
    case False
    then show ?thesis
      using assms(1,2) scan
      by (auto simp: wait_def wait_loop_def kexec proc_defs sleep_on_def sleep_def sched_def simp del: upt_rec_numeral)
  qed
qed

theorem wait_without_zombie_witness: "\<exists>s. wait 0 (zero_sys\<lparr>cur := Some 1, ptable := ptable demo_procs\<rparr>) = Ret (- 1) s"
  using wait_without_zombie [of "zero_sys\<lparr>cur := Some 1, ptable := ptable demo_procs\<rparr>" 1 0]
  by (auto simp: zero_sys_sel demo_procs_def zero_proc_def)

end
