(* ===== verification/Virtio.thy ===== *)
theory Virtio
  imports Proc_Correct
begin

text \<open>
  src/kernel/virtio_disk.c, the driver of the disk: descriptors, the submission of a request and the interrupt
  handler. The device is outside the program: the values of its registers and the used ring it fills in are
  parameters of the state, and the driver's register writes are recorded. A request waits twice, for
  descriptors and for its completion; the thread continues with \<open>rw_alloc_resume\<close> and \<open>rw_wait_resume\<close>. The buffer
  cache (theory Bio) sees only the effect of a completed request.
\<close>

section \<open>State\<close>

abbreviation (input) NUM :: nat where "NUM \<equiv> 8"
abbreviation (input) VRING_DESC_F_NEXT :: u16 where "VRING_DESC_F_NEXT \<equiv> 1"
abbreviation (input) VRING_DESC_F_WRITE :: u16 where "VRING_DESC_F_WRITE \<equiv> 2"
abbreviation (input) VIRTIO_BLK_T_IN :: u32 where "VIRTIO_BLK_T_IN \<equiv> 0"
abbreviation (input) VIRTIO_BLK_T_OUT :: u32 where "VIRTIO_BLK_T_OUT \<equiv> 1"

record vring_desc =
  vd_addr :: u64
  vd_len :: u32
  vd_flags :: u16
  vd_next :: u16

record used_area =
  ua_id :: u16
  ua_elems :: "nat \<Rightarrow> u32"

record blk_outhdr =
  bh_type :: u32
  bh_reserved :: u32
  bh_sector :: u64

record disk_info =
  di_b :: "nat option"
  di_status :: u8

text \<open>
  The header of a request is on the stack of the thread: \<open>vq_hdr i\<close> is the one of the request whose first
  descriptor is \<open>i\<close>. The addresses of headers, buffers and status bytes are those of \<open>vq_addrs\<close>.
\<close>

record disk_addrs =
  da_hdr :: "nat \<Rightarrow> u64"
  da_data :: "nat \<Rightarrow> u64"
  da_status :: "nat \<Rightarrow> u64"
  da_pages :: u64

record vdisk =
  vq_desc :: "nat \<Rightarrow> vring_desc"
  vq_avail :: "nat \<Rightarrow> u16"
  vq_used :: used_area
  vq_free :: "nat \<Rightarrow> bool"
  vq_used_idx :: u16
  vq_info :: "nat \<Rightarrow> disk_info"
  vq_hdr :: "nat \<Rightarrow> blk_outhdr"
  vq_addrs :: disk_addrs

record kdisk = ksys +
  vdisk_st :: vdisk
  b_disk :: "nat \<Rightarrow> bool"
  virtio_dev :: "nat \<Rightarrow> nat \<Rightarrow> u32"
  virtio_time :: nat

definition set_disk :: "(vdisk \<Rightarrow> vdisk) \<Rightarrow> (unit, 'z kdisk_scheme) kop" where
  "set_disk f = kmodify (\<lambda>s. s\<lparr>vdisk_st := f (vdisk_st s)\<rparr>)"

definition get_disk :: "(vdisk \<Rightarrow> 'a) \<Rightarrow> ('a, 'z kdisk_scheme) kop" where
  "get_disk f = kget (\<lambda>s. f (vdisk_st s))"

definition set_desc :: "nat \<Rightarrow> (vring_desc \<Rightarrow> vring_desc) \<Rightarrow> (unit, 'z kdisk_scheme) kop" where
  "set_desc i f = set_disk (\<lambda>d. d\<lparr>vq_desc := (vq_desc d)(i := f (vq_desc d i))\<rparr>)"

definition set_free :: "nat \<Rightarrow> bool \<Rightarrow> (unit, 'z kdisk_scheme) kop" where
  "set_free i b = set_disk (\<lambda>d. d\<lparr>vq_free := (vq_free d)(i := b)\<rparr>)"

definition set_info :: "nat \<Rightarrow> (disk_info \<Rightarrow> disk_info) \<Rightarrow> (unit, 'z kdisk_scheme) kop" where
  "set_info i f = set_disk (\<lambda>d. d\<lparr>vq_info := (vq_info d)(i := f (vq_info d i))\<rparr>)"

lemmas disk_defs = set_disk_def get_disk_def set_desc_def set_free_def set_info_def

text \<open>Reading and writing a register of the device, by its offset.\<close>

definition read_R :: "nat \<Rightarrow> (u32, 'z kdisk_scheme) kop" where
  "read_R r = (\<lambda>s. Ret (virtio_dev s r (virtio_time s)) (s\<lparr>virtio_time := virtio_time s + 1\<rparr>))"

definition write_R :: "nat \<Rightarrow> u32 \<Rightarrow> (unit, 'z kdisk_scheme) kop" where
  "write_R r v = write_mmio (VIRTIO0 + of_nat r) (ucast v)"

section \<open>Initialization\<close>

text \<open>The features the driver turns off: bits 5, 7, 11, 12, 27, 29 and 28.\<close>

definition negotiate :: "u32 \<Rightarrow> u32" where
  "negotiate f = (let f = ucast f :: u64;
     f = f AND NOT (push_bit 5 1);
     f = f AND NOT (push_bit 7 1);
     f = f AND NOT (push_bit 11 1);
     f = f AND NOT (push_bit 12 1);
     f = f AND NOT (push_bit 27 1);
     f = f AND NOT (push_bit 29 1);
     f = f AND NOT (push_bit 28 1)
   in ucast f)"

definition virtio_disk_init :: "(unit, 'z kdisk_scheme) kop" where
  "virtio_disk_init = kseq [
     kbind (read_R 0x000) (\<lambda>v. kpanic_if (v \<noteq> 0x74726976) ''could not find virtio disk''),
     kbind (read_R 0x004) (\<lambda>v. kpanic_if (v \<noteq> 1) ''could not find virtio disk''),
     kbind (read_R 0x008) (\<lambda>v. kpanic_if (v \<noteq> 2) ''could not find virtio disk''),
     kbind (read_R 0x00c) (\<lambda>v. kpanic_if (v \<noteq> 0x554d4551) ''could not find virtio disk''),
     write_R 0x070 1,
     write_R 0x070 (1 OR 2),
     kbind (read_R 0x010) (\<lambda>f. write_R 0x020 (negotiate f)),
     write_R 0x070 (1 OR 2 OR 8),
     write_R 0x070 (1 OR 2 OR 8 OR 4),
     write_R 0x028 4096,
     write_R 0x030 0,
     kbind (read_R 0x034) (\<lambda>mx. kthen (kpanic_if (mx = 0) ''virtio disk has no queue 0'')
       (kpanic_if (mx < of_nat NUM) ''virtio disk max queue too short'')),
     write_R 0x038 (of_nat NUM),
     set_disk (\<lambda>d. d\<lparr>vq_desc := (\<lambda>_. \<lparr>vd_addr = 0, vd_len = 0, vd_flags = 0, vd_next = 0\<rparr>), vq_avail := (\<lambda>_. 0),
       vq_used := \<lparr>ua_id = 0, ua_elems = (\<lambda>_. 0)\<rparr>\<rparr>),
     kbind (get_disk (\<lambda>d. da_pages (vq_addrs d))) (\<lambda>pages. write_R 0x040 (ucast (drop_bit 12 pages))),
     kfor [0..<NUM] (\<lambda>i. set_free i True)]"

section \<open>Descriptors\<close>

definition alloc_desc :: "(nat option, 'z kdisk_scheme) kop" where
  "alloc_desc = kbind (get_disk vq_free) (\<lambda>fr. case find fr [0..<NUM] of
     Some i \<Rightarrow> kthen (set_free i False) (kreturn (Some i))
   | None \<Rightarrow> kreturn None)"

definition free_desc :: "nat \<Rightarrow> (unit, 'z kdisk_scheme) kop" where
  "free_desc i = kseq [
     kpanic_if (i \<ge> NUM) ''virtio_disk_intr 1'',
     kbind (get_disk (\<lambda>d. vq_free d i)) (\<lambda>f. kpanic_if f ''virtio_disk_intr 2''),
     set_desc i (\<lambda>d. d\<lparr>vd_addr := 0\<rparr>),
     set_free i True,
     wakeup ChanDiskFree]"

text \<open>
  \<open>free_chain\<close> follows a chain until its end. Each step frees a descriptor that was in use or panics, so
  the steps the argument allows for, one more than there are descriptors, are never used up.
\<close>

fun free_chain_loop :: "nat \<Rightarrow> nat \<Rightarrow> (unit, 'z kdisk_scheme) kop" where
  "free_chain_loop 0 i = kdiverge"
| "free_chain_loop (Suc n) i = kthen (free_desc i) (kbind (get_disk (\<lambda>d. vq_desc d i)) (\<lambda>d.
     if vd_flags d AND VRING_DESC_F_NEXT \<noteq> 0 then free_chain_loop n (unat (vd_next d)) else kreturn ()))"

definition free_chain :: "nat \<Rightarrow> (unit, 'z kdisk_scheme) kop" where
  "free_chain i = free_chain_loop (NUM + 1) i"

text \<open>Three descriptors or none: \<open>ix\<close> are those already taken, and \<open>n\<close> are still to be taken.\<close>

fun alloc3_loop :: "nat \<Rightarrow> nat list \<Rightarrow> (nat list option, 'z kdisk_scheme) kop" where
  "alloc3_loop 0 ix = kreturn (Some ix)"
| "alloc3_loop (Suc n) ix = kbind alloc_desc (\<lambda>r. case r of
     None \<Rightarrow> kthen (kfor ix free_desc) (kreturn None)
   | Some i \<Rightarrow> alloc3_loop n (ix @ [i]))"

definition alloc3_desc :: "(nat list option, 'z kdisk_scheme) kop" where
  "alloc3_desc = alloc3_loop 3 []"

section \<open>Requests\<close>

text \<open>The wait for the completion of the request on buffer \<open>b\<close> with first descriptor \<open>i0\<close>, and its end.\<close>

definition rw_wait :: "nat \<Rightarrow> nat \<Rightarrow> (unit, 'z kdisk_scheme) kop" where
  "rw_wait b i0 = kbind (kget (\<lambda>s. b_disk s b)) (\<lambda>busy.
     if busy then sleep (ChanBufIO b) VdiskLock
     else kseq [
       set_info i0 (\<lambda>x. x\<lparr>di_b := None\<rparr>),
       free_chain i0,
       kunlock VdiskLock])"

definition rw_submit :: "nat \<Rightarrow> u32 \<Rightarrow> bool \<Rightarrow> nat list \<Rightarrow> (unit, 'z kdisk_scheme) kop" where
  "rw_submit b blockno write ix = (let i0 = ix ! 0; i1 = ix ! 1; i2 = ix ! 2 in
     kbind (get_disk vq_addrs) (\<lambda>a. kbind (kvmpa (da_hdr a i0)) (\<lambda>hdr. kseq [
       set_disk (\<lambda>d. d\<lparr>vq_hdr := (vq_hdr d)(i0 := \<lparr>bh_type = (if write then VIRTIO_BLK_T_OUT else VIRTIO_BLK_T_IN),
         bh_reserved = 0, bh_sector = ucast (blockno * 2)\<rparr>)\<rparr>),
       set_desc i0 (\<lambda>_. \<lparr>vd_addr = hdr, vd_len = 16, vd_flags = VRING_DESC_F_NEXT, vd_next = of_nat i1\<rparr>),
       set_desc i1 (\<lambda>_. \<lparr>vd_addr = da_data a b, vd_len = 1024,
         vd_flags = (if write then 0 else VRING_DESC_F_WRITE) OR VRING_DESC_F_NEXT, vd_next = of_nat i2\<rparr>),
       set_info i0 (\<lambda>x. x\<lparr>di_status := 0\<rparr>),
       set_desc i2 (\<lambda>_. \<lparr>vd_addr = da_status a i0, vd_len = 1, vd_flags = VRING_DESC_F_WRITE, vd_next = 0\<rparr>),
       kmodify (\<lambda>s. s\<lparr>b_disk := (b_disk s)(b := True)\<rparr>),
       set_info i0 (\<lambda>x. x\<lparr>di_b := Some b\<rparr>),
       set_disk (\<lambda>d. d\<lparr>vq_avail := (vq_avail d)(2 + unat (vq_avail d 1) mod NUM := of_nat i0)\<rparr>),
       set_disk (\<lambda>d. d\<lparr>vq_avail := (vq_avail d)(1 := vq_avail d 1 + 1)\<rparr>),
       write_R 0x050 0])))"

definition rw_alloc :: "nat \<Rightarrow> u32 \<Rightarrow> bool \<Rightarrow> (unit, 'z kdisk_scheme) kop" where
  "rw_alloc b blockno write = kbind alloc3_desc (\<lambda>r. case r of
     None \<Rightarrow> sleep ChanDiskFree VdiskLock
   | Some ix \<Rightarrow> kthen (rw_submit b blockno write ix) (rw_wait b (ix ! 0)))"

definition virtio_disk_rw :: "nat \<Rightarrow> bool \<Rightarrow> (unit, 'z kdisk_scheme) kop" where
  "virtio_disk_rw b write = kbind (get_buf b b_blockno) (\<lambda>blockno.
     kthen (klock VdiskLock) (rw_alloc b blockno write))"

definition rw_alloc_resume :: "nat \<Rightarrow> u32 \<Rightarrow> bool \<Rightarrow> (unit, 'z kdisk_scheme) kop" where
  "rw_alloc_resume b blockno write = kthen (sleep_resume VdiskLock) (rw_alloc b blockno write)"

definition rw_wait_resume :: "nat \<Rightarrow> nat \<Rightarrow> (unit, 'z kdisk_scheme) kop" where
  "rw_wait_resume b i0 = kthen (sleep_resume VdiskLock) (rw_wait b i0)"

section \<open>The interrupt\<close>

text \<open>
  The loop of \<open>virtio_disk_intr\<close> advances \<open>used_idx\<close> modulo \<open>NUM\<close> until it meets the index of the device, so it
  takes fewer than \<open>NUM\<close> steps.
\<close>

fun intr_loop :: "nat \<Rightarrow> (unit, 'z kdisk_scheme) kop" where
  "intr_loop 0 = kdiverge"
| "intr_loop (Suc n) = kbind (get_disk id) (\<lambda>d.
     if unat (vq_used_idx d) mod NUM \<noteq> unat (ua_id (vq_used d)) mod NUM then
       (let i = unat (ua_elems (vq_used d) (unat (vq_used_idx d))) in
        if i \<ge> NUM then kdiverge
        else kthen (kpanic_if (di_status (vq_info d i) \<noteq> 0) ''virtio_disk_intr status'')
          (case di_b (vq_info d i) of None \<Rightarrow> knull
           | Some b \<Rightarrow> kthen (kseq [
               kmodify (\<lambda>s. s\<lparr>b_disk := (b_disk s)(b := False)\<rparr>),
               wakeup (ChanBufIO b),
               set_disk (\<lambda>d. d\<lparr>vq_used_idx := of_nat ((unat (vq_used_idx d) + 1) mod NUM)\<rparr>)]) (intr_loop n)))
     else kreturn ())"

definition virtio_disk_intr :: "(unit, 'z kdisk_scheme) kop" where
  "virtio_disk_intr = kseq [
     klock VdiskLock,
     intr_loop NUM,
     kbind (read_R 0x060) (\<lambda>v. write_R 0x064 (v AND 3)),
     kunlock VdiskLock]"

section \<open>The pool of descriptors\<close>

definition free_set :: "'z kdisk_scheme \<Rightarrow> nat set" where
  "free_set s = {i. i < NUM \<and> vq_free (vdisk_st s) i}"

definition no_proc_lock :: "'z kthread_scheme \<Rightarrow> bool" where
  "no_proc_lock s \<longleftrightarrow> (\<forall>p < NPROC. ProcLock p \<notin> held s)"

lemma free_desc_exec:
  assumes "i < NUM" "\<not> vq_free (vdisk_st s) i" "no_proc_lock s"
  shows "free_desc i s = Ret () (s\<lparr>vdisk_st := (vdisk_st s)\<lparr>vq_desc := (vq_desc (vdisk_st s))(i := (vq_desc (vdisk_st s) i)\<lparr>vd_addr := 0\<rparr>),
     vq_free := (vq_free (vdisk_st s))(i := True)\<rparr>, ptable := woken ChanDiskFree {..<NPROC} (ptable s)\<rparr>)"
  using assms by (simp add: free_desc_def kexec disk_defs no_proc_lock_def)

lemma free_list_exec:
  assumes "distinct ix" "set ix \<subseteq> {..<NUM} - free_set s" "no_proc_lock s"
  shows "wp (kfor ix free_desc) (\<lambda>_ t. held t = held s \<and> free_set t = free_set s \<union> set ix) s"
  using assms
proof (induction ix arbitrary: s)
  case Nil
  then show ?case by (simp add: wp_def kexec)
next
  case (Cons i ix)
  have i: "i < NUM" "\<not> vq_free (vdisk_st s) i" using Cons.prems(2) by (auto simp: free_set_def)
  obtain t where t: "free_desc i s = Ret () t" "held t = held s" "vq_free (vdisk_st t) = (vq_free (vdisk_st s))(i := True)"
    using free_desc_exec [OF i Cons.prems(3)] by simp
  have f: "free_set t = insert i (free_set s)" using t(3) i(1) by (auto simp: free_set_def)
  have "wp (kfor ix free_desc) (\<lambda>_ u. held u = held t \<and> free_set u = free_set t \<union> set ix) t"
    by (rule Cons.IH) (use Cons.prems f t(2) in \<open>auto simp: no_proc_lock_def\<close>)
  then show ?case using t(1,2) f by (auto simp: wp_iff kexec)
qed

lemma alloc_desc_exec:
  "alloc_desc s = (if free_set s = {} then Ret None s else
     Ret (Some (Min (free_set s))) (s\<lparr>vdisk_st := (vdisk_st s)\<lparr>vq_free := (vq_free (vdisk_st s))(Min (free_set s) := False)\<rparr>\<rparr>))"
proof (cases "find (vq_free (vdisk_st s)) [0..<NUM]")
  case None
  then have "free_set s = {}" by (auto simp: find_None_iff free_set_def simp del: upt_rec_numeral)
  then show ?thesis using None by (simp add: alloc_desc_def kexec disk_defs del: upt_rec_numeral)
next
  case (Some i)
  then obtain k where k: "k < NUM" "i = k" "vq_free (vdisk_st s) k" "\<forall>j < k. \<not> vq_free (vdisk_st s) j"
    by (auto simp: find_Some_iff)
  have fin: "finite (free_set s)" by (simp add: free_set_def)
  have "Min (free_set s) = i"
    using k by (intro Min_eqI [OF fin]) (auto simp: free_set_def not_less [symmetric])
  moreover have "free_set s \<noteq> {}" using k by (auto simp: free_set_def)
  ultimately show ?thesis using Some by (simp add: alloc_desc_def kexec disk_defs del: upt_rec_numeral)
qed

lemma alloc3_loop_spec:
  assumes "distinct ix" "set ix \<subseteq> {..<NUM} - free_set s" "no_proc_lock s"
  shows "wp (alloc3_loop n ix) (\<lambda>r t. held t = held s \<and> (case r of
      Some jx \<Rightarrow> length jx = length ix + n \<and> distinct jx \<and> set jx \<subseteq> {..<NUM} \<and> set jx \<subseteq> set ix \<union> free_set s \<and>
        set ix \<subseteq> set jx \<and> free_set t = free_set s - set jx
    | None \<Rightarrow> card (free_set s) < n \<and> free_set t = free_set s \<union> set ix)) s"
  using assms
proof (induction n arbitrary: ix s)
  case 0
  then show ?case by (auto simp: wp_def kexec)
next
  case (Suc n)
  show ?case
  proof (cases "free_set s = {}")
    case True
    have "wp (kfor ix free_desc) (\<lambda>_ t. held t = held s \<and> free_set t = free_set s \<union> set ix) s"
      by (rule free_list_exec) (use Suc.prems in auto)
    then show ?thesis using True by (auto simp: wp_iff kexec alloc_desc_exec)
  next
    case False
    let ?i = "Min (free_set s)"
    let ?t = "s\<lparr>vdisk_st := (vdisk_st s)\<lparr>vq_free := (vq_free (vdisk_st s))(?i := False)\<rparr>\<rparr>"
    have i: "?i \<in> free_set s" using False by (intro Min_in) (simp_all add: free_set_def)
    then have f: "free_set ?t = free_set s - {?i}" "?i < NUM" by (auto simp: free_set_def)
    have c: "card (free_set s) = Suc (card (free_set ?t))"
      unfolding f(1) using i by (intro card.remove) (simp_all add: free_set_def)
    have "wp (alloc3_loop n (ix @ [?i])) (\<lambda>r t. held t = held ?t \<and> (case r of
        Some jx \<Rightarrow> length jx = length (ix @ [?i]) + n \<and> distinct jx \<and> set jx \<subseteq> {..<NUM} \<and>
          set jx \<subseteq> set (ix @ [?i]) \<union> free_set ?t \<and> set (ix @ [?i]) \<subseteq> set jx \<and> free_set t = free_set ?t - set jx
      | None \<Rightarrow> card (free_set ?t) < n \<and> free_set t = free_set ?t \<union> set (ix @ [?i]))) ?t"
      by (rule Suc.IH) (use Suc.prems i f in \<open>auto simp: no_proc_lock_def\<close>)
    then have "wp (alloc3_loop (Suc n) ix) (\<lambda>r t. held t = held ?t \<and> (case r of
        Some jx \<Rightarrow> length jx = length (ix @ [?i]) + n \<and> distinct jx \<and> set jx \<subseteq> {..<NUM} \<and>
          set jx \<subseteq> set (ix @ [?i]) \<union> free_set ?t \<and> set (ix @ [?i]) \<subseteq> set jx \<and> free_set t = free_set ?t - set jx
      | None \<Rightarrow> card (free_set ?t) < n \<and> free_set t = free_set ?t \<union> set (ix @ [?i]))) s"
      using False by (simp add: wp_def kexec alloc_desc_exec)
    then show ?thesis
      by (rule wp_mono) (use i f c in \<open>auto split: option.splits\<close>)
  qed
qed

text \<open>
  C21: descriptors are allocated three at a time or not at all. \<open>alloc3_desc\<close> takes three different free
  descriptors, which are then no longer free, exactly when three are free; otherwise it gives back those it
  took and the pool is as before. No other descriptor changes hands and no lock is taken or released.
\<close>

theorem alloc3_desc_all_or_nothing:
  fixes s :: "'z kdisk_scheme"
  assumes "no_proc_lock s"
  shows "wp alloc3_desc (\<lambda>r t. held t = held s \<and> (case r of
      Some ix \<Rightarrow> length ix = 3 \<and> distinct ix \<and> set ix \<subseteq> free_set s \<and> free_set t = free_set s - set ix
    | None \<Rightarrow> card (free_set s) < 3 \<and> free_set t = free_set s)) s"
  unfolding alloc3_desc_def
  by (rule wp_mono [OF alloc3_loop_spec]) (use assms in \<open>auto split: option.splits\<close>)

section \<open>A request from submission to completion\<close>

fun is_chain :: "(nat \<Rightarrow> vring_desc) \<Rightarrow> nat list \<Rightarrow> bool" where
  "is_chain D [] \<longleftrightarrow> False"
| "is_chain D [i] \<longleftrightarrow> vd_flags (D i) AND VRING_DESC_F_NEXT = 0"
| "is_chain D (i # j # ix) \<longleftrightarrow> vd_flags (D i) AND VRING_DESC_F_NEXT \<noteq> 0 \<and> unat (vd_next (D i)) = j \<and> is_chain D (j # ix)"

lemma is_chain_cong:
  "(\<And>i. i \<in> set ix \<Longrightarrow> vd_flags (E i) = vd_flags (D i) \<and> vd_next (E i) = vd_next (D i)) \<Longrightarrow> is_chain E ix = is_chain D ix"
  by (induction D ix rule: is_chain.induct) auto

lemma free_chain_loop_spec:
  assumes "is_chain (vq_desc (vdisk_st s)) ix" "distinct ix" "set ix \<subseteq> {..<NUM} - free_set s" "no_proc_lock s" "length ix \<le> n"
  shows "wp (free_chain_loop n (hd ix)) (\<lambda>_ t. held t = held s \<and> free_set t = free_set s \<union> set ix) s"
  using assms
proof (induction n arbitrary: ix s)
  case 0
  then show ?case by (cases ix) auto
next
  case (Suc n)
  obtain i jx where ix: "ix = i # jx" using Suc.prems(1) by (cases ix) auto
  have i: "i < NUM" "\<not> vq_free (vdisk_st s) i" using Suc.prems(3) ix by (auto simp: free_set_def)
  obtain t where t: "free_desc i s = Ret () t" "held t = held s" "vq_free (vdisk_st t) = (vq_free (vdisk_st s))(i := True)"
      "vq_desc (vdisk_st t) = (vq_desc (vdisk_st s))(i := (vq_desc (vdisk_st s) i)\<lparr>vd_addr := 0\<rparr>)"
    using free_desc_exec [OF i Suc.prems(4)] by simp
  have f: "free_set t = insert i (free_set s)" using t(3) i(1) by (auto simp: free_set_def)
  show ?case
  proof (cases jx)
    case Nil
    then show ?thesis using Suc.prems(1) ix t f by (simp add: wp_def kexec disk_defs)
  next
    case (Cons j kx)
    have "is_chain (vq_desc (vdisk_st t)) jx = is_chain (vq_desc (vdisk_st s)) jx"
      by (rule is_chain_cong) (simp add: t(4))
    then have "wp (free_chain_loop n (hd jx)) (\<lambda>_ u. held u = held t \<and> free_set u = free_set t \<union> set jx) t"
      by (intro Suc.IH) (use Suc.prems ix Cons t(2) f in \<open>auto simp: no_proc_lock_def\<close>)
    then show ?thesis using Suc.prems(1) ix Cons t f by (auto simp: wp_iff kexec disk_defs)
  qed
qed

text \<open>A request for a block, laid out in three descriptors and published to the device.\<close>

definition published :: "nat \<Rightarrow> u32 \<Rightarrow> bool \<Rightarrow> nat list \<Rightarrow> vdisk \<Rightarrow> vdisk \<Rightarrow> bool" where
  "published b blockno write ix d e \<longleftrightarrow> is_chain (vq_desc e) ix \<and>
     bh_type (vq_hdr e (ix ! 0)) = (if write then VIRTIO_BLK_T_OUT else VIRTIO_BLK_T_IN) \<and>
     bh_sector (vq_hdr e (ix ! 0)) = ucast (blockno * 2) \<and>
     vd_addr (vq_desc e (ix ! 1)) = da_data (vq_addrs e) b \<and> vd_len (vq_desc e (ix ! 1)) = 1024 \<and>
     (vd_flags (vq_desc e (ix ! 1)) AND VRING_DESC_F_WRITE = 0) = write \<and>
     di_b (vq_info e (ix ! 0)) = Some b \<and> di_status (vq_info e (ix ! 0)) = 0 \<and>
     vq_avail e (2 + unat (vq_avail d 1) mod NUM) = of_nat (ix ! 0) \<and> vq_avail e 1 = vq_avail d 1 + 1"

lemma rw_submit_exec:
  fixes s :: "'z kdisk_scheme"
  assumes "length ix = 3" "distinct ix" "set ix \<subseteq> {..<NUM}" "kvmpa (da_hdr (vq_addrs (vdisk_st s)) (ix ! 0)) s = Ret h s"
  shows "wp (rw_submit b blockno write ix) (\<lambda>_ t. held t = held s \<and> cur t = cur s \<and> ptable t = ptable s \<and>
    vq_free (vdisk_st t) = vq_free (vdisk_st s) \<and> b_disk t b \<and> published b blockno write ix (vdisk_st s) (vdisk_st t)) s"
proof -
  obtain i j k where ix: "ix = [i, j, k]" using assms(1) by (auto simp: length_Suc_conv numeral_3_eq_3)
  have "unat (of_nat j :: u16) = j" "unat (of_nat k :: u16) = k" using assms(3) ix by (auto intro!: unat_of_nat_small)
  then show ?thesis
    using assms(2,4) unfolding ix
    by (auto simp: wp_def rw_submit_def Let_def kexec disk_defs write_R_def write_mmio_def published_def)
qed

lemma alloc3_loop_frame:
  "alloc3_loop n ix s = Ret (Some jx) t \<Longrightarrow> \<exists>f. t = s\<lparr>vdisk_st := (vdisk_st s)\<lparr>vq_free := f\<rparr>\<rparr>"
proof (induction n arbitrary: ix s)
  case 0
  then show ?case by (intro exI [of _ "vq_free (vdisk_st s)"]) (simp add: kexec)
next
  case (Suc n)
  show ?case
  proof (cases "free_set s = {}")
    case True
    then show ?thesis using Suc.prems by (auto simp: alloc_desc_exec kexec split: outcome.splits)
  next
    case False
    let ?t = "s\<lparr>vdisk_st := (vdisk_st s)\<lparr>vq_free := (vq_free (vdisk_st s))(Min (free_set s) := False)\<rparr>\<rparr>"
    have "alloc3_loop n (ix @ [Min (free_set s)]) ?t = Ret (Some jx) t"
      using Suc.prems False by (simp add: alloc_desc_exec kexec)
    from Suc.IH [OF this] show ?thesis by auto
  qed
qed

text \<open>
  C19: a disk request, from submission to completion. With three descriptors free, \<open>virtio_disk_rw\<close> publishes a
  request for the block of the buffer, in the right direction, in three descriptors it took from the pool,
  and sleeps until the buffer is done, with no lock but that of its process. When it runs again and the interrupt
  handler has marked the buffer done, it returns, with no lock held, and its three descriptors are free again.
\<close>

theorem virtio_disk_rw_request:
  fixes s :: "'z kdisk_scheme"
  assumes "held s = {}" "cur s = Some p" "3 \<le> card (free_set s)"
    and "\<And>i f. i < NUM \<Longrightarrow> \<exists>h. kvmpa (da_hdr (vq_addrs (vdisk_st s)) i)
      (s\<lparr>held := {VdiskLock}, vdisk_st := (vdisk_st s)\<lparr>vq_free := f\<rparr>\<rparr>) =
        Ret h (s\<lparr>held := {VdiskLock}, vdisk_st := (vdisk_st s)\<lparr>vq_free := f\<rparr>\<rparr>)"
  shows "\<exists>ix t. virtio_disk_rw b write s = Sleep t \<and> held t = {ProcLock p} \<and> b_disk t b \<and>
    p_state (ptable t p) = SLEEPING \<and> p_chan (ptable t p) = Some (ChanBufIO b) \<and>
    distinct ix \<and> length ix = 3 \<and> set ix \<subseteq> free_set s \<and> free_set t = free_set s - set ix \<and>
    published b (b_blockno (bufs s b)) write ix (vdisk_st s) (vdisk_st t) \<and>
    (\<forall>u :: 'z kdisk_scheme. held u = {ProcLock p} \<and> cur u = Some p \<and> \<not> b_disk u b \<and>
       vq_desc (vdisk_st u) = vq_desc (vdisk_st t) \<and> free_set u = free_set t \<longrightarrow>
       (\<exists>v. rw_wait_resume b (ix ! 0) u = Ret () v \<and> held v = {} \<and> free_set v = free_set s))"
proof -
  let ?s = "s\<lparr>held := {VdiskLock}\<rparr>"
  have fs: "free_set ?s = free_set s" by (simp add: free_set_def)
  have "no_proc_lock ?s" by (simp add: no_proc_lock_def)
  from alloc3_loop_spec [of "[]" ?s 3, OF _ _ this] obtain ix t where a: "alloc3_desc ?s = Ret (Some ix) t" "held t = held ?s"
      "length ix = 3" "distinct ix" "set ix \<subseteq> {..<NUM}" "set ix \<subseteq> free_set s" "free_set t = free_set s - set ix"
    using assms(3) by (auto simp: wp_iff fs alloc3_desc_def split: option.splits)
  obtain f where tf: "t = ?s\<lparr>vdisk_st := (vdisk_st ?s)\<lparr>vq_free := f\<rparr>\<rparr>"
    using alloc3_loop_frame a(1) unfolding alloc3_desc_def by blast
  have i0: "ix ! 0 < NUM" using a(3,5) by (auto simp: subset_iff)
  then obtain h where h: "kvmpa (da_hdr (vq_addrs (vdisk_st t)) (ix ! 0)) t = Ret h t" using assms(4) [OF i0, of f] tf by auto
  obtain w where w: "rw_submit b (b_blockno (bufs s b)) write ix t = Ret () w" "held w = held t" "cur w = cur t" "ptable w = ptable t"
      "vq_free (vdisk_st w) = vq_free (vdisk_st t)" "b_disk w b" "published b (b_blockno (bufs s b)) write ix (vdisk_st t) (vdisk_st w)"
    using rw_submit_exec [OF a(3-5) h, of b "b_blockno (bufs s b)" "write"] by (auto simp: wp_iff)
  let ?w = "w\<lparr>held := {ProcLock p}, ptable := (ptable w)(p := (ptable w p)\<lparr>p_chan := Some (ChanBufIO b), p_state := SLEEPING\<rparr>)\<rparr>"
  have run: "virtio_disk_rw b write s = Sleep ?w"
    using assms(1,2) a(1,2) w tf
    by (simp add: virtio_disk_rw_def rw_alloc_def rw_wait_def kexec get_buf_def sleep_def sched_def proc_defs insert_commute)
  have pub: "published b (b_blockno (bufs s b)) write ix (vdisk_st s) (vdisk_st ?w)"
    using w(7) tf by (simp add: published_def)
  have fw: "free_set ?w = free_set s - set ix" using w(5) a(7) by (simp add: free_set_def)
  have fin: "\<exists>v. rw_wait_resume b (ix ! 0) u = Ret () v \<and> held v = {} \<and> free_set v = free_set s"
    if u: "held u = {ProcLock p}" "cur u = Some p" "\<not> b_disk u b" "vq_desc (vdisk_st u) = vq_desc (vdisk_st ?w)" "free_set u = free_set ?w"
    for u :: "'z kdisk_scheme"
  proof -
    let ?u = "u\<lparr>ptable := (ptable u)(p := (ptable u p)\<lparr>p_chan := None\<rparr>), held := {VdiskLock},
      vdisk_st := (vdisk_st u)\<lparr>vq_info := (vq_info (vdisk_st u))(ix ! 0 := (vq_info (vdisk_st u) (ix ! 0))\<lparr>di_b := None\<rparr>)\<rparr>\<rparr>"
    have fu: "free_set ?u = free_set s - set ix" using u(5) fw by (simp add: free_set_def)
    have head: "ix ! 0 = hd ix" using a(3) by (cases ix) auto
    have "wp (free_chain_loop (NUM + 1) (hd ix)) (\<lambda>_ v. held v = held ?u \<and> free_set v = free_set ?u \<union> set ix) ?u"
      by (rule free_chain_loop_spec) (use u(4) pub a(3-5) fu in \<open>auto simp: published_def no_proc_lock_def\<close>)
    then obtain v where v: "free_chain (ix ! 0) ?u = Ret () v" "held v = {VdiskLock}" "free_set v = free_set s"
      using fu a(6) head by (auto simp: wp_iff free_chain_def Un_absorb2)
    show ?thesis
      using u(1-3) v by (simp add: rw_wait_resume_def sleep_resume_def rw_wait_def kexec proc_defs disk_defs free_set_def)
  qed
  show ?thesis
    using run pub fw fin a(3,4,6) w(6) by (intro exI [of _ ix] exI [of _ ?w]) simp
qed

section \<open>The interrupt handler\<close>

text \<open>The requests the device has completed and the handler has not seen.\<close>

definition pending :: "vdisk \<Rightarrow> nat" where
  "pending d = (unat (ua_id (vq_used d)) + NUM - unat (vq_used_idx d)) mod NUM"

definition done_id :: "vdisk \<Rightarrow> nat \<Rightarrow> nat" where
  "done_id d k = unat (ua_elems (vq_used d) ((unat (vq_used_idx d) + k) mod NUM))"

definition intr_ok :: "vdisk \<Rightarrow> bool" where
  "intr_ok d \<longleftrightarrow> unat (vq_used_idx d) < NUM \<and> (\<forall>k < pending d. done_id d k < NUM \<and>
     di_status (vq_info d (done_id d k)) = 0 \<and> di_b (vq_info d (done_id d k)) \<noteq> None)"

definition finished :: "nat \<Rightarrow> 'z kdisk_scheme \<Rightarrow> bool" where
  "finished b s \<longleftrightarrow> \<not> b_disk s b \<and> (\<forall>p < NPROC. \<not> (p_state (ptable s p) = SLEEPING \<and> p_chan (ptable s p) = Some (ChanBufIO b)))"

lemma ring_empty:
  fixes a b :: nat
  assumes "a < NUM"
  shows "a mod NUM = b mod NUM \<longleftrightarrow> (b + NUM - a) mod NUM = 0"
proof -
  have "(b + NUM) mod NUM = a mod NUM \<longleftrightarrow> NUM dvd b + NUM - a"
    by (rule mod_eq_dvd_iff_nat) (use assms in simp)
  then show ?thesis by (auto simp: dvd_eq_mod_eq_0)
qed

lemma pending_0: "unat (vq_used_idx d) < NUM \<Longrightarrow>
   unat (vq_used_idx d) mod NUM = unat (ua_id (vq_used d)) mod NUM \<longleftrightarrow> pending d = 0"
  unfolding pending_def by (rule ring_empty)

lemma ring_step:
  fixes a b :: nat
  assumes "a < NUM" "(b + NUM - a) mod NUM \<noteq> 0"
  shows "(b + NUM - a) mod NUM = Suc ((b + NUM - (a + 1) mod NUM) mod NUM)"
proof (cases "a = 7")
  case True
  then show ?thesis using assms(2) by (simp add: mod_Suc split: if_splits)
next
  case False
  then have "(a + 1) mod NUM = a + 1" "b + NUM - a = Suc (b + NUM - (a + 1))" using assms(1) by simp_all
  then show ?thesis using assms(2) by (simp only: mod_Suc) (simp split: if_splits)
qed

lemma pending_step:
  assumes "unat (vq_used_idx d) < NUM" "pending d \<noteq> 0" "vq_used e = vq_used d" "vq_info e = vq_info d"
    and "vq_used_idx e = of_nat ((unat (vq_used_idx d) + 1) mod NUM)"
  shows "pending d = Suc (pending e)" "done_id e k = done_id d (Suc k)" "unat (vq_used_idx e) < NUM"
proof -
  have lt: "(unat (vq_used_idx d) + 1) mod NUM < NUM" by (rule mod_less_divisor) simp
  have "(NUM :: nat) < 2 ^ LENGTH(16)" by simp
  from unat_of_nat_small [OF less_trans [OF lt this]]
  have u: "unat (vq_used_idx e) = (unat (vq_used_idx d) + 1) mod NUM" unfolding assms(5) .
  show "unat (vq_used_idx e) < NUM" unfolding u by (rule lt)
  show "pending d = Suc (pending e)"
    using ring_step [OF assms(1) assms(2) [unfolded pending_def]] unfolding pending_def u assms(3) .
  show "done_id e k = done_id d (Suc k)" unfolding done_id_def u assms(3) by (simp add: mod_simps)
qed

lemma intr_loop_spec:
  fixes s :: "'z kdisk_scheme"
  assumes "intr_ok (vdisk_st s)" "no_proc_lock s" "pending (vdisk_st s) < n"
  shows "wp (intr_loop n) (\<lambda>_ t. held t = held s \<and> pending (vdisk_st t) = 0 \<and> free_set t = free_set s \<and>
    vq_desc (vdisk_st t) = vq_desc (vdisk_st s) \<and> (\<forall>b. finished b s \<longrightarrow> finished b t) \<and>
    (\<forall>k < pending (vdisk_st s). finished (the (di_b (vq_info (vdisk_st s) (done_id (vdisk_st s) k)))) t)) s"
  using assms
proof (induction n arbitrary: s)
  case 0
  then show ?case by simp
next
  case (Suc n)
  let ?d = "vdisk_st s"
  have u: "unat (vq_used_idx ?d) < NUM" using Suc.prems(1) by (simp add: intr_ok_def)
  show ?case
  proof (cases "pending ?d = 0")
    case True
    then have "unat (vq_used_idx ?d) mod NUM = unat (ua_id (vq_used ?d)) mod NUM" using pending_0 [OF u] by blast
    then show ?thesis using True by (simp add: wp_def kexec disk_defs)
  next
    case False
    then have ne: "unat (vq_used_idx ?d) mod NUM \<noteq> unat (ua_id (vq_used ?d)) mod NUM" using pending_0 [OF u] by simp
    let ?i = "done_id ?d 0"
    obtain b where b: "?i < NUM" "di_status (vq_info ?d ?i) = 0" "di_b (vq_info ?d ?i) = Some b"
      using Suc.prems(1) False unfolding intr_ok_def by blast
    have i: "?i = unat (ua_elems (vq_used ?d) (unat (vq_used_idx ?d)))" using u by (simp add: done_id_def)
    let ?e = "?d\<lparr>vq_used_idx := of_nat ((unat (vq_used_idx ?d) + 1) mod NUM)\<rparr>"
    let ?t = "s\<lparr>b_disk := (b_disk s)(b := False), ptable := woken (ChanBufIO b) {..<NPROC} (ptable s), vdisk_st := ?e\<rparr>"
    note st = pending_step [OF u False, of ?e]
    have step: "intr_loop (Suc n) s = intr_loop n ?t"
      using ne b i Suc.prems(2) by (simp add: kexec disk_defs Let_def no_proc_lock_def)
    have ok: "intr_ok ?e"
      unfolding intr_ok_def using st Suc.prems(1) by (auto simp: intr_ok_def)
    have "wp (intr_loop n) (\<lambda>_ v. held v = held ?t \<and> pending (vdisk_st v) = 0 \<and> free_set v = free_set ?t \<and>
        vq_desc (vdisk_st v) = vq_desc (vdisk_st ?t) \<and> (\<forall>c. finished c ?t \<longrightarrow> finished c v) \<and>
        (\<forall>k < pending (vdisk_st ?t). finished (the (di_b (vq_info (vdisk_st ?t) (done_id (vdisk_st ?t) k)))) v)) ?t"
      by (rule Suc.IH) (use ok st(1) Suc.prems(2,3) in \<open>auto simp: no_proc_lock_def\<close>)
    then obtain v where v: "intr_loop n ?t = Ret () v" "held v = held s" "pending (vdisk_st v) = 0" "free_set v = free_set ?t"
        "vq_desc (vdisk_st v) = vq_desc ?d" "\<forall>c. finished c ?t \<longrightarrow> finished c v"
        "\<forall>k < pending ?e. finished (the (di_b (vq_info ?d (done_id ?e k)))) v" by (auto simp: wp_iff)
    have fb: "finished b ?t" "finished c s \<Longrightarrow> finished c ?t" for c by (auto simp: finished_def woken_def)
    have all: "finished (the (di_b (vq_info ?d (done_id ?d k)))) v" if "k < pending ?d" for k
      using that v(6,7) fb(1) b(3) st(1,2) by (cases k) auto
    show ?thesis
      using v all fb(2) step by (auto simp: wp_iff free_set_def simp del: intr_loop.simps)
  qed
qed

text \<open>
  C20: the disk interrupt completes every finished request. If the device has set the status of each request in
  the used ring to success, the handler returns: every buffer whose request is in the ring is marked done and no
  process sleeps on it any more, the handler has caught up with the index of the device, and no
  descriptor or lock changes. It takes fewer rounds than there are descriptors.
\<close>

theorem virtio_disk_intr_completes:
  fixes s :: "'z kdisk_scheme"
  assumes "intr_ok (vdisk_st s)" "held s = {}"
  shows "wp virtio_disk_intr (\<lambda>_ t. held t = {} \<and> pending (vdisk_st t) = 0 \<and> free_set t = free_set s \<and>
    vq_desc (vdisk_st t) = vq_desc (vdisk_st s) \<and>
    (\<forall>k < pending (vdisk_st s). finished (the (di_b (vq_info (vdisk_st s) (done_id (vdisk_st s) k)))) t)) s"
proof -
  let ?s = "s\<lparr>held := {VdiskLock}\<rparr>"
  have "pending (vdisk_st s) < NUM" by (simp add: pending_def)
  then have "wp (intr_loop NUM) (\<lambda>_ t. held t = held ?s \<and> pending (vdisk_st t) = 0 \<and> free_set t = free_set ?s \<and>
      vq_desc (vdisk_st t) = vq_desc (vdisk_st ?s) \<and> (\<forall>b. finished b ?s \<longrightarrow> finished b t) \<and>
      (\<forall>k < pending (vdisk_st ?s). finished (the (di_b (vq_info (vdisk_st ?s) (done_id (vdisk_st ?s) k)))) t)) ?s"
    by (intro intr_loop_spec) (use assms in \<open>auto simp: no_proc_lock_def\<close>)
  then obtain t where t: "intr_loop NUM ?s = Ret () t" "held t = {VdiskLock}" "pending (vdisk_st t) = 0" "free_set t = free_set s"
      "vq_desc (vdisk_st t) = vq_desc (vdisk_st s)"
      "\<forall>k < pending (vdisk_st s). finished (the (di_b (vq_info (vdisk_st s) (done_id (vdisk_st s) k)))) t"
    by (auto simp: wp_iff free_set_def)
  then show ?thesis
    using assms(2) by (simp add: wp_def virtio_disk_intr_def kexec read_R_def write_R_def write_mmio_def free_set_def finished_def
        del: intr_loop.simps)
qed

section \<open>Concrete instances\<close>

definition zero_vdisk :: vdisk where
  "zero_vdisk = \<lparr>vq_desc = (\<lambda>_. \<lparr>vd_addr = 0, vd_len = 0, vd_flags = 0, vd_next = 0\<rparr>), vq_avail = (\<lambda>_. 0),
     vq_used = \<lparr>ua_id = 0, ua_elems = (\<lambda>_. 0)\<rparr>, vq_free = (\<lambda>_. True), vq_used_idx = 0,
     vq_info = (\<lambda>_. \<lparr>di_b = None, di_status = 0\<rparr>),
     vq_hdr = (\<lambda>_. \<lparr>bh_type = 0, bh_reserved = 0, bh_sector = 0\<rparr>),
     vq_addrs = \<lparr>da_hdr = (\<lambda>_. 16), da_data = (\<lambda>b. 1024 * of_nat b), da_status = (\<lambda>i. of_nat i), da_pages = 0\<rparr>\<rparr>"

definition zero_disk :: kdisk where
  "zero_disk = zero_fs (\<lambda>_. zero_block)
     (kpipe_ext (\<lambda>_. \<lparr>pi_data = (\<lambda>_. 0), pi_nread = 0, pi_nwrite = 0, pi_readopen = False, pi_writeopen = False\<rparr>)
     (kcons_ext (\<lambda>r n. 0x20) 0 [] (\<lambda>_. 0) 0 0 False \<lparr>c_buf = (\<lambda>_. 0), c_r = 0, c_w = 0, c_e = 0\<rparr> True
     (kfile_ext (\<lambda>_. zero_file) (\<lambda>_. \<lparr>dev_read = None, dev_write = None\<rparr>) (\<lambda>_. 0)
     (ksys_ext zero_symbols zero_csrs 0 [] 0 (\<lambda>_ _. 0) 0 (\<lambda>_. 0) 0 True False
     (kdisk_ext zero_vdisk (\<lambda>_. False) (\<lambda>_ _. 0) 0 ())))))"

lemma zero_disk_sel:
  "held zero_disk = {}" "vdisk_st zero_disk = zero_vdisk" "ptable zero_disk = (\<lambda>_. zero_proc)" "b_disk zero_disk = (\<lambda>_. False)"
  by (simp_all add: zero_disk_def zero_fs_def zero_bio_def)

theorem alloc3_desc_all_or_nothing_witness: "wp alloc3_desc (\<lambda>r t. r \<noteq> None) zero_disk"
proof (rule wp_mono [OF alloc3_desc_all_or_nothing])
  have "free_set zero_disk = {..<8}" by (auto simp: free_set_def zero_disk_sel zero_vdisk_def)
  then show "r \<noteq> None" if "held t = held zero_disk \<and> (case r of
      Some ix \<Rightarrow> length ix = 3 \<and> distinct ix \<and> set ix \<subseteq> free_set zero_disk \<and> free_set t = free_set zero_disk - set ix
    | None \<Rightarrow> card (free_set zero_disk) < 3 \<and> free_set t = free_set zero_disk)" for r t
    using that by (auto split: option.splits)
qed (simp add: no_proc_lock_def zero_disk_sel)

lemma kvmpa_demo:
  assumes "mem s = demo_mem" "kernel_pagetable s = 0x87FFC000"
  shows "kvmpa 16 s = Ret 0x87FFF010 s"
proof -
  have z: "idx 0 16 = 0" "idx (Suc 0) 16 = 0" "idx (Suc (Suc 0)) 16 = 0" by (simp_all add: idx_def PX_def)
  have "leaf_addr demo_mem (Suc (Suc 0)) 0x87FFC000 16 = Some 0x87FFE000"
    by (simp add: demo_entries demo_valid Let_def z pte_addr_idx)
  then have "leaf_addr (mem s) 2 0x87FFC000 16 = Some 0x87FFE000" by (simp only: assms(1) numeral_2_eq_2)
  then have w: "walk 0x87FFC000 16 False s = Ret 0x87FFE000 s"
    by (simp add: walk_def walk_loop_find)
  have e: "load64 demo_mem 0x87FFE000 = PA2PTE 0x87FFF000 OR 0x1F"
    using demo_entries(3) [of 0] by (simp add: entry_def)
  show ?thesis
    using demo_valid(2,7) assms by (simp add: kvmpa_def kexec w read_pte_def e valid_def)
qed

theorem virtio_disk_rw_request_witness:
  "\<exists>t. virtio_disk_rw 2 True (zero_disk\<lparr>mem := demo_mem, kernel_pagetable := 0x87FFC000, cur := Some 0\<rparr>) = Sleep t \<and>
     held t = {ProcLock 0}"
proof -
  let ?s = "zero_disk\<lparr>mem := demo_mem, kernel_pagetable := 0x87FFC000, cur := Some 0\<rparr>"
  have "free_set ?s = {..<8}" by (auto simp: free_set_def zero_disk_sel zero_vdisk_def)
  then have c: "3 \<le> card (free_set ?s)" by simp
  have k: "\<exists>h. kvmpa (da_hdr (vq_addrs (vdisk_st ?s)) i) (?s\<lparr>held := {VdiskLock}, vdisk_st := (vdisk_st ?s)\<lparr>vq_free := f\<rparr>\<rparr>) =
      Ret h (?s\<lparr>held := {VdiskLock}, vdisk_st := (vdisk_st ?s)\<lparr>vq_free := f\<rparr>\<rparr>)" for i f
    using kvmpa_demo [of "?s\<lparr>held := {VdiskLock}, vdisk_st := (vdisk_st ?s)\<lparr>vq_free := f\<rparr>\<rparr>"]
    by (simp add: zero_disk_sel zero_vdisk_def)
  have "held ?s = {}" "cur ?s = Some 0" by (simp_all add: zero_disk_sel)
  from virtio_disk_rw_request [OF this c k, of 2 True] show ?thesis by blast
qed

theorem virtio_disk_intr_completes_witness:
  "wp virtio_disk_intr (\<lambda>_ t. \<not> b_disk t 5)
     (zero_disk\<lparr>b_disk := (\<lambda>_. True), vdisk_st := zero_vdisk\<lparr>vq_used := \<lparr>ua_id = 1, ua_elems = (\<lambda>_. 3)\<rparr>,
        vq_info := (\<lambda>_. \<lparr>di_b = Some 5, di_status = 0\<rparr>)\<rparr>\<rparr>)" (is "wp _ _ ?s")
proof (rule wp_mono [OF virtio_disk_intr_completes])
  have p: "pending (vdisk_st ?s) = 1" by (simp add: pending_def zero_vdisk_def)
  then show "intr_ok (vdisk_st ?s)" by (simp add: intr_ok_def done_id_def zero_vdisk_def)
  show "\<not> b_disk t 5" if "held t = {} \<and> pending (vdisk_st t) = 0 \<and> free_set t = free_set ?s \<and>
      vq_desc (vdisk_st t) = vq_desc (vdisk_st ?s) \<and>
      (\<forall>k < pending (vdisk_st ?s). finished (the (di_b (vq_info (vdisk_st ?s) (done_id (vdisk_st ?s) k)))) t)" for r :: unit and t
    using that p by (auto simp: finished_def)
qed (simp add: zero_disk_sel)

end
