(* ===== verification/User_Lib.thy ===== *)
theory User_Lib
  imports Sysfile
begin

text \<open>
  The C library of user programs: src/user/ulib.c and src/user/printf.c, and the interface to the kernel that
  src/user/user.h declares. A user program is a function of the world outside the process. It returns, ends
  the process (\<open>UExit\<close>), or has no result (\<open>None\<close>: it never returns, or does what C leaves undefined). The
  system calls are a parameter, the record \<open>os\<close>: the programs are verified for every kernel, and what a
  theorem relies on is one of its hypotheses. A C string is the list of its characters before the NUL.
\<close>

section \<open>User programs\<close>

datatype ('a, 'w) uout = URet 'a 'w | UExit int 'w

type_synonym ('a, 'w) uop = "'w \<Rightarrow> ('a, 'w) uout option"

definition ureturn :: "'a \<Rightarrow> ('a, 'w) uop" where
  "ureturn a = (\<lambda>w. Some (URet a w))"

definition ubind :: "('a, 'w) uop \<Rightarrow> ('a \<Rightarrow> ('b, 'w) uop) \<Rightarrow> ('b, 'w) uop" where
  "ubind m f = (\<lambda>w. Option.bind (m w) (\<lambda>r. case r of URet a v \<Rightarrow> f a v | UExit c v \<Rightarrow> Some (UExit c v)))"

definition uthen :: "('a, 'w) uop \<Rightarrow> ('b, 'w) uop \<Rightarrow> ('b, 'w) uop" where
  "uthen m n = ubind m (\<lambda>_. n)"

definition uexit :: "int \<Rightarrow> ('a, 'w) uop" where
  "uexit c = (\<lambda>w. Some (UExit c w))"

definition ustuck :: "('a, 'w) uop" where
  "ustuck = (\<lambda>w. None)"

fun ufor :: "'a list \<Rightarrow> ('a \<Rightarrow> (unit, 'w) uop) \<Rightarrow> (unit, 'w) uop" where
  "ufor [] f = ureturn ()"
| "ufor (x # xs) f = uthen (f x) (ufor xs f)"

named_theorems uexec "evaluation of a user program at a world"

lemma ureturn_exec [uexec]: "ureturn a w = Some (URet a w)"
  by (simp add: ureturn_def)

lemma ubind_exec [uexec]:
  "ubind m f w = (case m w of None \<Rightarrow> None | Some (URet a v) \<Rightarrow> f a v | Some (UExit c v) \<Rightarrow> Some (UExit c v))"
  by (auto simp: ubind_def split: option.splits uout.splits)

lemma uthen_exec [uexec]:
  "uthen m n w = (case m w of None \<Rightarrow> None | Some (URet a v) \<Rightarrow> n v | Some (UExit c v) \<Rightarrow> Some (UExit c v))"
  by (simp add: uthen_def ubind_exec)

lemma uexit_exec [uexec]: "uexit c w = Some (UExit c w)"
  by (simp add: uexit_def)

lemma ustuck_exec [uexec]: "ustuck w = None"
  by (simp add: ustuck_def)

lemma ubind_mono [partial_function_mono]:
  assumes "mono_option (\<lambda>f. m f w)" "\<And>a v. mono_option (\<lambda>f. g f a v)"
  shows "mono_option (\<lambda>f. ubind (m f) (g f) w)"
proof -
  have "mono_option (\<lambda>f. case r of URet a v \<Rightarrow> g f a v | UExit c v \<Rightarrow> Some (UExit c v))" for r
    using assms(2) by (cases r) (simp_all add: option.const_mono)
  then show ?thesis unfolding ubind_def by (intro bind_mono assms(1))
qed

abbreviation (input) newline :: string where "newline \<equiv> [CHR 0x0A]"

section \<open>System calls\<close>

text \<open>
  A call that fails returns a negative number, or \<open>None\<close> where it would give data. \<open>os_exec\<close> returns only when it
  fails; \<open>os_fork\<close> is given what the child does, the code after the call where \<open>fork\<close> returned 0.
\<close>

record 'w os =
  os_fork :: "(unit, 'w) uop \<Rightarrow> (int, 'w) uop"
  os_wait :: "(int, 'w) uop"
  os_pipe :: "((int \<times> int) option, 'w) uop"
  os_read :: "int \<Rightarrow> nat \<Rightarrow> (string option, 'w) uop"
  os_write :: "int \<Rightarrow> string \<Rightarrow> (int, 'w) uop"
  os_open :: "string \<Rightarrow> u32 \<Rightarrow> (int, 'w) uop"
  os_close :: "int \<Rightarrow> (int, 'w) uop"
  os_dup :: "int \<Rightarrow> (int, 'w) uop"
  os_exec :: "string \<Rightarrow> string list \<Rightarrow> (int, 'w) uop"
  os_fstat :: "int \<Rightarrow> (stat option, 'w) uop"
  os_mknod :: "string \<Rightarrow> u16 \<Rightarrow> u16 \<Rightarrow> (int, 'w) uop"
  os_unlink :: "string \<Rightarrow> (int, 'w) uop"
  os_link :: "string \<Rightarrow> string \<Rightarrow> (int, 'w) uop"
  os_mkdir :: "string \<Rightarrow> (int, 'w) uop"
  os_chdir :: "string \<Rightarrow> (int, 'w) uop"
  os_kill :: "u32 \<Rightarrow> (int, 'w) uop"
  os_sleep :: "u32 \<Rightarrow> (int, 'w) uop"

section \<open>Strings and memory\<close>

text \<open>The string at the start of an array.\<close>

definition c_string :: "string \<Rightarrow> string" where
  "c_string p = takeWhile (\<lambda>c. c \<noteq> CHR 0x00) p"

text \<open>\<open>strcpy(s, t)\<close> on an array that does not overlap \<open>t\<close>: the string and its NUL replace the start of the array.\<close>

fun strcpy :: "string \<Rightarrow> string \<Rightarrow> string" where
  "strcpy s [] = CHR 0x00 # tl s"
| "strcpy s (c # t) = c # strcpy (tl s) t"

definition chr_val :: "char \<Rightarrow> int" where
  "chr_val c = of_char c"

fun strcmp :: "string \<Rightarrow> string \<Rightarrow> int" where
  "strcmp [] [] = 0"
| "strcmp (p # ps) [] = chr_val p"
| "strcmp [] (q # qs) = - chr_val q"
| "strcmp (p # ps) (q # qs) = (if p = q then strcmp ps qs else chr_val p - chr_val q)"

fun strlen_user :: "string \<Rightarrow> nat" where
  "strlen_user [] = 0"
| "strlen_user (c # s) = Suc (strlen_user s)"

text \<open>\<open>strchr\<close>: the suffix that starts with the character, as the pointer into the string.\<close>

fun strchr :: "string \<Rightarrow> char \<Rightarrow> string option" where
  "strchr [] c = None"
| "strchr (x # s) c = (if x = c then Some (x # s) else strchr s c)"

lemma strchr_eq: "strchr s c = (if c \<in> set s then Some (dropWhile (\<lambda>x. x \<noteq> c) s) else None)"
  by (induction s) auto

definition memset_user :: "mem \<Rightarrow> u64 \<Rightarrow> u32 \<Rightarrow> u32 \<Rightarrow> mem" where
  "memset_user m dst c n = memset_loop m dst c n 0"

definition memmove_user :: "mem \<Rightarrow> u64 \<Rightarrow> u64 \<Rightarrow> u32 \<Rightarrow> mem" where
  "memmove_user m vdst vsrc n = (let k = nat (sint n) in
     if vsrc > vdst then move_up m vdst vsrc k
     else move_down m (vdst + scast n) (vsrc + scast n) k)"

definition memcpy_user :: "mem \<Rightarrow> u64 \<Rightarrow> u64 \<Rightarrow> u32 \<Rightarrow> mem" where
  "memcpy_user m dst src n = memmove_user m dst src n"

fun memcmp_user :: "view \<Rightarrow> view \<Rightarrow> nat \<Rightarrow> int" where
  "memcmp_user p1 p2 0 = 0"
| "memcmp_user p1 p2 (Suc n) =
     (if p1 0 \<noteq> p2 0 then int (unat (p1 0)) - int (unat (p2 0))
      else memcmp_user (next_ptr p1) (next_ptr p2) n)"

fun atoi_loop :: "u32 \<Rightarrow> string \<Rightarrow> u32" where
  "atoi_loop n [] = n"
| "atoi_loop n (c # s) = (if chr_val (CHR ''0'') \<le> chr_val c \<and> chr_val c \<le> chr_val (CHR ''9'')
     then atoi_loop (n * 10 + of_int (chr_val c) - of_int (chr_val (CHR ''0''))) s else n)"

definition atoi :: "string \<Rightarrow> u32" where
  "atoi s = atoi_loop 0 s"

text \<open>\<open>gets\<close> reads at most \<open>max - 1\<close> characters, up to the end of a line.\<close>

fun gets_loop :: "'w os \<Rightarrow> nat \<Rightarrow> (string, 'w) uop" where
  "gets_loop k 0 = ureturn []"
| "gets_loop k (Suc n) = ubind (os_read k 0 1) (\<lambda>r. case r of
     Some (c # _) \<Rightarrow> if c = CHR 0x0A \<or> c = CHR 0x0D then ureturn [c]
       else ubind (gets_loop k n) (\<lambda>s. ureturn (c # s))
   | _ \<Rightarrow> ureturn [])"

definition gets :: "'w os \<Rightarrow> nat \<Rightarrow> (string, 'w) uop" where
  "gets k mx = gets_loop k (mx - 1)"

definition stat_user :: "'w os \<Rightarrow> string \<Rightarrow> (stat option, 'w) uop" where
  "stat_user k n = ubind (os_open k n 0) (\<lambda>fd.
     if fd < 0 then ureturn None
     else ubind (os_fstat k fd) (\<lambda>r. uthen (os_close k fd) (ureturn r)))"

section \<open>printf\<close>

definition digits_user :: string where
  "digits_user = ''0123456789ABCDEF''"

definition putc_user :: "'w os \<Rightarrow> int \<Rightarrow> char \<Rightarrow> (unit, 'w) uop" where
  "putc_user k fd c = uthen (os_write k fd [c]) (ureturn ())"

text \<open>The digits in the order \<open>printint\<close> finds them. The bases in use are 10 and 16.\<close>

function digit_loop_user :: "u32 \<Rightarrow> u32 \<Rightarrow> string" where
  "digit_loop_user x base = digits_user ! unat (x mod base) #
     (if x div base \<noteq> 0 \<and> base > 1 then digit_loop_user (x div base) base else [])"
  by pat_completeness auto
termination
proof (relation "measure (\<lambda>(x, b). unat x)")
  fix x base :: u32
  assume "x div base \<noteq> 0 \<and> base > 1"
  then have "unat x div unat base \<noteq> 0" "1 < unat base"
    by (auto simp: unat_div_distrib [symmetric] unat_eq_0 word_less_nat_alt)
  then have "unat x div unat base < unat x" by (intro div_less_dividend) (auto intro: gr0I)
  then show "((x div base, base), (x, base)) \<in> measure (\<lambda>(x, b). unat x)"
    by (simp add: unat_div_distrib)
qed simp

declare digit_loop_user.simps [simp del]

definition printint_user :: "'w os \<Rightarrow> int \<Rightarrow> u32 \<Rightarrow> u32 \<Rightarrow> bool \<Rightarrow> (unit, 'w) uop" where
  "printint_user k fd xx base sign = (let neg = (sign \<and> sint xx < 0);
       x = (if neg then - xx else xx);
       buf = digit_loop_user x base @ (if neg then [CHR ''-''] else [])
     in ufor (rev buf) (putc_user k fd))"

definition printptr_user :: "'w os \<Rightarrow> int \<Rightarrow> u64 \<Rightarrow> (unit, 'w) uop" where
  "printptr_user k fd x = uthen (putc_user k fd (CHR ''0'')) (uthen (putc_user k fd (CHR ''x''))
     (ufor [0..<16] (\<lambda>i. putc_user k fd (digits_user ! unat (drop_bit 60 (push_bit (4 * i) x))))))"

text \<open>The arguments of \<open>printf\<close>. Reading an argument of another kind, or one that is not there, is undefined.\<close>

datatype uarg = UInt u32 | ULong u64 | UStr "string option" | UChr char

definition print_conv_user :: "'w os \<Rightarrow> int \<Rightarrow> char \<Rightarrow> uarg list \<Rightarrow> (uarg list, 'w) uop" where
  "print_conv_user k fd c ap =
     (if c = CHR ''d'' then (case ap of UInt x # ap \<Rightarrow> uthen (printint_user k fd x 10 True) (ureturn ap) | _ \<Rightarrow> ustuck)
      else if c = CHR ''l'' then (case ap of ULong x # ap \<Rightarrow> uthen (printint_user k fd (ucast x) 10 False) (ureturn ap) | _ \<Rightarrow> ustuck)
      else if c = CHR ''x'' then (case ap of UInt x # ap \<Rightarrow> uthen (printint_user k fd x 16 False) (ureturn ap) | _ \<Rightarrow> ustuck)
      else if c = CHR ''p'' then (case ap of ULong x # ap \<Rightarrow> uthen (printptr_user k fd x) (ureturn ap) | _ \<Rightarrow> ustuck)
      else if c = CHR ''s'' then (case ap of UStr s # ap \<Rightarrow>
          uthen (ufor (case s of None \<Rightarrow> ''(null)'' | Some s \<Rightarrow> s) (putc_user k fd)) (ureturn ap) | _ \<Rightarrow> ustuck)
      else if c = CHR ''c'' then (case ap of UChr x # ap \<Rightarrow> uthen (putc_user k fd x) (ureturn ap) | _ \<Rightarrow> ustuck)
      else if c = CHR ''%'' then uthen (putc_user k fd c) (ureturn ap)
      else uthen (putc_user k fd (CHR ''%'')) (uthen (putc_user k fd c) (ureturn ap)))"

fun vprintf :: "'w os \<Rightarrow> int \<Rightarrow> string \<Rightarrow> bool \<Rightarrow> uarg list \<Rightarrow> (unit, 'w) uop" where
  "vprintf k fd [] st ap = ureturn ()"
| "vprintf k fd (c # fmt) st ap =
     (if \<not> st then if c = CHR ''%'' then vprintf k fd fmt True ap
        else uthen (putc_user k fd c) (vprintf k fd fmt False ap)
      else ubind (print_conv_user k fd c ap) (vprintf k fd fmt False))"

definition fprintf :: "'w os \<Rightarrow> int \<Rightarrow> string \<Rightarrow> uarg list \<Rightarrow> (unit, 'w) uop" where
  "fprintf k fd fmt ap = vprintf k fd fmt False ap"

definition printf_user :: "'w os \<Rightarrow> string \<Rightarrow> uarg list \<Rightarrow> (unit, 'w) uop" where
  "printf_user k fmt ap = vprintf k 1 fmt False ap"

section \<open>What the library computes\<close>

lemma memmove_user_eq:
  assumes "0 \<le> sint n" "unat src + unat n < 2 ^ 64" "unat dst + unat n < 2 ^ 64"
  shows "memmove_user m dst src n = bytes_put m dst (bytes_of m src (unat n))"
proof -
  have u: "uint n = sint n"
    using assms(1) sint_lt [of n] by (simp add: uint_sint take_bit_eq_mod)
  have n: "nat (sint n) = unat n" by (simp add: u [symmetric])
  have c: "(scast n :: u64) = of_nat (unat n)" by (simp only: scast_eq u [symmetric]) simp
  show ?thesis
    using move_up_block [OF assms(2,3), of m] move_down_block [OF assms(2,3), of m]
    unfolding memmove_user_def n c Let_def by (auto simp: word_less_nat_alt word_le_nat_alt)
qed

text \<open>
  C35: the two implementations of \<open>memmove\<close> agree. The kernel copies backwards only when the destination starts inside
  the source, the C library whenever the source does not start above the destination; on regions that do not wrap around the
  address space both leave the memory in the same state, overlapping regions included.
\<close>

theorem memmove_user_is_memmove:
  assumes "0 \<le> sint n" "unat src + unat n < 2 ^ 64" "unat dst + unat n < 2 ^ 64"
  shows "memmove_user m dst src n = memmove m dst src n"
  by (simp only: memmove_user_eq [OF assms] memmove_eq [OF assms(2,3)])

theorem memmove_user_is_memmove_witness:
  "memmove_user ucast 0x1004 0x1000 16 = memmove ucast 0x1004 0x1000 16"
  by (rule memmove_user_is_memmove) simp_all

text \<open>
  A file descriptor that takes everything that is written to it: \<open>out\<close> is what has been written, and a write
  leaves \<open>keep\<close> as it is.
\<close>

definition writer :: "'w os \<Rightarrow> int \<Rightarrow> ('w \<Rightarrow> string) \<Rightarrow> ('w \<Rightarrow> 'x) \<Rightarrow> bool" where
  "writer k fd out keep \<longleftrightarrow> (\<forall>s w. \<exists>v. os_write k fd s w = Some (URet (int (length s)) v) \<and> out v = out w @ s \<and> keep v = keep w)"

text \<open>\<open>prints\<close>: the operation returns having written the string.\<close>

definition prints :: "('w \<Rightarrow> string) \<Rightarrow> ('w \<Rightarrow> 'x) \<Rightarrow> ('a, 'w) uop \<Rightarrow> 'a \<Rightarrow> string \<Rightarrow> bool" where
  "prints out keep m a s \<longleftrightarrow> (\<forall>w. \<exists>v. m w = Some (URet a v) \<and> out v = out w @ s \<and> keep v = keep w)"

lemma prints_return [intro!]: "prints out keep (ureturn a) a []"
  by (simp add: prints_def uexec)

lemma prints_bind [intro]:
  assumes "prints out keep m a s" "prints out keep (f a) b t"
  shows "prints out keep (ubind m f) b (s @ t)"
  unfolding prints_def
proof
  fix w
  obtain v where v: "m w = Some (URet a v)" "out v = out w @ s" "keep v = keep w" using assms(1) by (auto simp: prints_def)
  obtain u where "f a v = Some (URet b u)" "out u = out v @ t" "keep u = keep v" using assms(2) by (force simp: prints_def)
  then show "\<exists>v. ubind m f w = Some (URet b v) \<and> out v = out w @ s @ t \<and> keep v = keep w" using v by (simp add: uexec)
qed

lemma prints_then [intro]:
  "prints out keep m a s \<Longrightarrow> prints out keep n b t \<Longrightarrow> prints out keep (uthen m n) b (s @ t)"
  unfolding uthen_def by (rule prints_bind)

lemma prints_write: "writer k fd out keep \<Longrightarrow> prints out keep (os_write k fd s) (int (length s)) s"
  by (simp add: prints_def writer_def)

lemma prints_putc: "writer k fd out keep \<Longrightarrow> prints out keep (putc_user k fd c) () [c]"
  using prints_then [OF prints_write [of k fd out keep "[c]"] prints_return] by (simp add: putc_user_def)

lemma prints_string: "writer k fd out keep \<Longrightarrow> prints out keep (ufor s (putc_user k fd)) () s"
  using prints_then [OF prints_putc] by (induction s) force+

text \<open>The characters a format produces: \<open>decimal_of\<close> and \<open>hex_of\<close> for numbers, and \<open>None\<close> when an argument is missing.\<close>

definition decimal_of :: "u32 \<Rightarrow> string" where
  "decimal_of x = (if sint x < 0 then CHR ''-'' # rev (digit_loop_user (- x) 10) else rev (digit_loop_user x 10))"

definition pointer_of :: "u64 \<Rightarrow> string" where
  "pointer_of x = ''0x'' @ map (\<lambda>i. digits_user ! unat (drop_bit 60 (push_bit (4 * i) x))) [0..<16]"

definition conv_out :: "char \<Rightarrow> uarg list \<Rightarrow> (string \<times> uarg list) option" where
  "conv_out c ap =
     (if c = CHR ''d'' then (case ap of UInt x # ap \<Rightarrow> Some (decimal_of x, ap) | _ \<Rightarrow> None)
      else if c = CHR ''l'' then (case ap of ULong x # ap \<Rightarrow> Some (rev (digit_loop_user (ucast x) 10), ap) | _ \<Rightarrow> None)
      else if c = CHR ''x'' then (case ap of UInt x # ap \<Rightarrow> Some (rev (digit_loop_user x 16), ap) | _ \<Rightarrow> None)
      else if c = CHR ''p'' then (case ap of ULong x # ap \<Rightarrow> Some (pointer_of x, ap) | _ \<Rightarrow> None)
      else if c = CHR ''s'' then (case ap of UStr s # ap \<Rightarrow> Some (case s of None \<Rightarrow> ''(null)'' | Some s \<Rightarrow> s, ap) | _ \<Rightarrow> None)
      else if c = CHR ''c'' then (case ap of UChr x # ap \<Rightarrow> Some ([x], ap) | _ \<Rightarrow> None)
      else if c = CHR ''%'' then Some ([c], ap)
      else Some ([CHR ''%'', c], ap))"

fun format :: "string \<Rightarrow> bool \<Rightarrow> uarg list \<Rightarrow> string option" where
  "format [] st ap = Some []"
| "format (c # fmt) False ap = (if c = CHR ''%'' then format fmt True ap else map_option ((#) c) (format fmt False ap))"
| "format (c # fmt) True ap = (case conv_out c ap of None \<Rightarrow> None
     | Some (t, bp) \<Rightarrow> map_option ((@) t) (format fmt False bp))"

lemma prints_int:
  assumes "writer k fd out keep"
  shows "prints out keep (printint_user k fd x 10 True) () (decimal_of x)"
    "prints out keep (printint_user k fd x base False) () (rev (digit_loop_user x base))"
proof -
  have "printint_user k fd x 10 True = ufor (decimal_of x) (putc_user k fd)"
    "printint_user k fd x base False = ufor (rev (digit_loop_user x base)) (putc_user k fd)"
    by (simp_all add: printint_user_def decimal_of_def Let_def)
  then show "prints out keep (printint_user k fd x 10 True) () (decimal_of x)"
    "prints out keep (printint_user k fd x base False) () (rev (digit_loop_user x base))"
    by (simp_all only: prints_string [OF assms])
qed

lemma prints_ptr:
  assumes "writer k fd out keep"
  shows "prints out keep (printptr_user k fd x) () (pointer_of x)"
proof -
  have "prints out keep (ufor xs (\<lambda>i. putc_user k fd (f i))) () (map f xs)" for xs :: "nat list" and f
    using prints_then [OF prints_putc [OF assms]] by (induction xs) force+
  then show ?thesis
    unfolding printptr_user_def pointer_of_def
    using prints_then [OF prints_putc [OF assms] prints_then [OF prints_putc [OF assms]]] by fastforce
qed

lemma prints_conv:
  assumes "writer k fd out keep" "conv_out c ap = Some (t, bp)"
  shows "prints out keep (print_conv_user k fd c ap) bp t"
proof -
  have ret: "prints out keep (uthen m (ureturn bp)) bp t" if "prints out keep m () t" for m t
    using prints_then [OF that prints_return, of bp] by simp
  have two: "prints out keep (uthen (putc_user k fd c) (uthen (putc_user k fd d) (ureturn bp))) bp [c, d]" for c d
    using prints_then [OF prints_putc [OF assms(1)] prints_then [OF prints_putc [OF assms(1)] prints_return]] by fastforce
  show ?thesis
    using assms(2) unfolding print_conv_user_def conv_out_def
    by (auto split: if_splits list.splits uarg.splits simp del: ufor.simps
        intro!: ret two prints_int [OF assms(1)] prints_ptr [OF assms(1)] prints_string [OF assms(1)] prints_putc [OF assms(1)])
qed

lemma prints_vprintf:
  assumes "writer k fd out keep" "format fmt st ap = Some s"
  shows "prints out keep (vprintf k fd fmt st ap) () s"
  using assms(2)
proof (induction fmt arbitrary: st ap s)
  case (Cons c fmt)
  show ?case
  proof (cases st)
    case True
    then obtain bp t u where "conv_out c ap = Some (t, bp)" "format fmt False bp = Some u" "s = t @ u"
      using Cons.prems by (auto split: option.splits)
    then show ?thesis using True prints_bind [OF prints_conv [OF assms(1)] Cons.IH] by auto
  next
    case False
    then show ?thesis
      using Cons prints_then [OF prints_putc [OF assms(1), of c] Cons.IH] by (auto split: if_splits)
  qed
qed auto

definition decimal :: "char \<Rightarrow> bool" where
  "decimal c \<longleftrightarrow> chr_val (CHR ''0'') \<le> chr_val c \<and> chr_val c \<le> chr_val (CHR ''9'')"

lemma digit_char:
  assumes "d < 10"
  shows "decimal (digits_user ! d)" "of_int (chr_val (digits_user ! d)) - of_int (chr_val (CHR ''0'')) = (of_nat d :: u32)"
proof -
  have "\<forall>d \<in> {0..<10}. decimal (digits_user ! d) \<and> chr_val (digits_user ! d) = 48 + int d"
    by code_simp
  then have "decimal (digits_user ! d)" "chr_val (digits_user ! d) = 48 + int d" using assms by auto
  moreover have "chr_val (CHR ''0'') = 48" by code_simp
  ultimately show "decimal (digits_user ! d)"
    "of_int (chr_val (digits_user ! d)) - of_int (chr_val (CHR ''0'')) = (of_nat d :: u32)" by simp_all
qed

lemma atoi_loop_append:
  "(\<And>c. c \<in> set s \<Longrightarrow> decimal c) \<Longrightarrow> atoi_loop n (s @ t) = atoi_loop (atoi_loop n s) t"
  by (induction s arbitrary: n) (simp_all add: decimal_def)

lemma digit_loop_atoi:
  "(\<forall>c \<in> set (digit_loop_user x 10). decimal c) \<and> atoi_loop 0 (rev (digit_loop_user x 10)) = x"
proof (induction "unat x" arbitrary: x rule: less_induct)
  case less
  let ?c = "digits_user ! unat (x mod 10)"
  have m: "unat (x mod 10) < 10" by (simp add: unat_mod)
  have l: "atoi_loop n [?c] = n * 10 + x mod 10" for n
    using digit_char [OF m] by (simp add: decimal_def add_diff_eq [symmetric])
  show ?case
  proof (cases "x div 10 = 0")
    case True
    then have "x mod 10 = x" using mult_div_mod_eq [of 10 x] by simp
    then show ?thesis
      using True digit_char(1) [OF m] l [of 0] by (simp add: digit_loop_user.simps [of x])
  next
    case False
    then have "unat (x div 10) < unat x"
      by (auto simp: unat_div_distrib unat_eq_0 intro!: div_less_dividend gr0I)
    from less [OF this] have ih: "\<forall>c \<in> set (digit_loop_user (x div 10) 10). decimal c"
      "atoi_loop 0 (rev (digit_loop_user (x div 10) 10)) = x div 10" by blast+
    have "atoi_loop 0 (rev (digit_loop_user (x div 10) 10) @ [?c]) = atoi_loop (x div 10) [?c]"
      using ih by (subst atoi_loop_append) auto
    also have "\<dots> = x" unfolding l using mult_div_mod_eq [of 10 x] by (simp add: mult.commute)
    finally show ?thesis
      using False digit_char(1) [OF m] ih(1) by (simp add: digit_loop_user.simps [of x])
  qed
qed


text \<open>A kernel that only keeps what is written.\<close>

definition sink_os :: "string os" where
  "sink_os = \<lparr>os_fork = (\<lambda>c. ureturn (- 1)), os_wait = ureturn (- 1), os_pipe = ureturn None, os_read = (\<lambda>fd n. ureturn None),
     os_write = (\<lambda>fd s w. Some (URet (int (length s)) (w @ s))), os_open = (\<lambda>p m. ureturn (- 1)),
     os_close = (\<lambda>fd. ureturn (- 1)), os_dup = (\<lambda>fd. ureturn (- 1)), os_exec = (\<lambda>p a. ureturn (- 1)),
     os_fstat = (\<lambda>fd. ureturn None), os_mknod = (\<lambda>p a b. ureturn (- 1)), os_unlink = (\<lambda>p. ureturn (- 1)),
     os_link = (\<lambda>p q. ureturn (- 1)), os_mkdir = (\<lambda>p. ureturn (- 1)), os_chdir = (\<lambda>p. ureturn (- 1)),
     os_kill = (\<lambda>n. ureturn (- 1)), os_sleep = (\<lambda>n. ureturn (- 1))\<rparr>"


end
