(* ===== verification/User_Tools.thy ===== *)
theory User_Tools
  imports User_Lib
begin

text \<open>
  The utilities of src/user: cat, wc, echo, kill, ln, mkdir, rm, ls, init and zombie. A program is given its
  arguments \<open>argv\<close>, the name of the program first. Loops that end only when the kernel says so
  are partial functions: they return \<open>None\<close> if they never end.
\<close>

section \<open>cat\<close>

partial_function (option) cat :: "'w os \<Rightarrow> int \<Rightarrow> 'w \<Rightarrow> (unit, 'w) uout option" where
  "cat k fd w = ubind (os_read k fd 512) (\<lambda>r w. case r of
     None \<Rightarrow> uthen (fprintf k 2 (''cat: read error'' @ newline) []) (uexit 1) w
   | Some buf \<Rightarrow> if buf = [] then ureturn () w
       else ubind (os_write k 1 buf) (\<lambda>n w. if n \<noteq> int (length buf)
         then uthen (fprintf k 2 (''cat: write error'' @ newline) []) (uexit 1) w
         else cat k fd w) w) w"

fun cat_files :: "'w os \<Rightarrow> string list \<Rightarrow> (unit, 'w) uop" where
  "cat_files k [] = uexit 0"
| "cat_files k (p # ps) = ubind (os_open k p 0) (\<lambda>fd.
     if fd < 0 then uthen (fprintf k 2 (''cat: cannot open %s'' @ newline) [UStr (Some p)]) (uexit 1)
     else uthen (cat k fd) (uthen (os_close k fd) (cat_files k ps)))"

definition cat_main :: "'w os \<Rightarrow> string list \<Rightarrow> (unit, 'w) uop" where
  "cat_main k argv = (if length argv \<le> 1 then uthen (cat k 0) (uexit 0) else cat_files k (tl argv))"

section \<open>wc\<close>

record counts =
  n_lines :: u32
  n_words :: u32
  n_chars :: u32
  in_word :: bool

definition wc_char :: "char \<Rightarrow> counts \<Rightarrow> counts" where
  "wc_char x s = (let s = s\<lparr>n_chars := n_chars s + 1\<rparr>;
       s = (if x = CHR 0x0A then s\<lparr>n_lines := n_lines s + 1\<rparr> else s)
     in if strchr [CHR 0x20, CHR 0x0D, CHR 0x09, CHR 0x0A, CHR 0x0B] x \<noteq> None then s\<lparr>in_word := False\<rparr>
        else if \<not> in_word s then s\<lparr>n_words := n_words s + 1, in_word := True\<rparr> else s)"

partial_function (option) wc_loop :: "'w os \<Rightarrow> int \<Rightarrow> string \<Rightarrow> counts \<Rightarrow> 'w \<Rightarrow> (unit, 'w) uout option" where
  "wc_loop k fd nm s w = ubind (os_read k fd 512) (\<lambda>r w. case r of
     None \<Rightarrow> uthen (printf_user k (''wc: read error'' @ newline) []) (uexit 1) w
   | Some buf \<Rightarrow> if buf = []
       then printf_user k (''%d %d %d %s'' @ newline) [UInt (n_lines s), UInt (n_words s), UInt (n_chars s), UStr (Some nm)] w
       else wc_loop k fd nm (fold wc_char buf s) w) w"

definition wc :: "'w os \<Rightarrow> int \<Rightarrow> string \<Rightarrow> (unit, 'w) uop" where
  "wc k fd nm = wc_loop k fd nm \<lparr>n_lines = 0, n_words = 0, n_chars = 0, in_word = False\<rparr>"

fun wc_files :: "'w os \<Rightarrow> string list \<Rightarrow> (unit, 'w) uop" where
  "wc_files k [] = uexit 0"
| "wc_files k (p # ps) = ubind (os_open k p 0) (\<lambda>fd.
     if fd < 0 then uthen (printf_user k (''wc: cannot open %s'' @ newline) [UStr (Some p)]) (uexit 1)
     else uthen (wc k fd p) (uthen (os_close k fd) (wc_files k ps)))"

definition wc_main :: "'w os \<Rightarrow> string list \<Rightarrow> (unit, 'w) uop" where
  "wc_main k argv = (if length argv \<le> 1 then uthen (wc k 0 []) (uexit 0) else wc_files k (tl argv))"

section \<open>echo, kill, ln, mkdir, rm, zombie\<close>

fun echo_args :: "'w os \<Rightarrow> string list \<Rightarrow> (unit, 'w) uop" where
  "echo_args k [] = uexit 0"
| "echo_args k (a # as) = uthen (os_write k 1 a)
     (uthen (if as \<noteq> [] then os_write k 1 '' '' else os_write k 1 newline) (echo_args k as))"

definition echo_main :: "'w os \<Rightarrow> string list \<Rightarrow> (unit, 'w) uop" where
  "echo_main k argv = echo_args k (tl argv)"

fun kill_args :: "'w os \<Rightarrow> string list \<Rightarrow> (unit, 'w) uop" where
  "kill_args k [] = uexit 0"
| "kill_args k (a # as) = uthen (os_kill k (atoi a)) (kill_args k as)"

definition kill_main :: "'w os \<Rightarrow> string list \<Rightarrow> (unit, 'w) uop" where
  "kill_main k argv = (if length argv < 2 then uthen (fprintf k 2 (''usage: kill pid...'' @ newline) []) (uexit 1)
     else kill_args k (tl argv))"

definition ln_main :: "'w os \<Rightarrow> string list \<Rightarrow> (unit, 'w) uop" where
  "ln_main k argv = (if length argv \<noteq> 3 then uthen (fprintf k 2 (''Usage: ln old new'' @ newline) []) (uexit 1)
     else ubind (os_link k (argv ! 1) (argv ! 2)) (\<lambda>r.
       uthen (if r < 0 then fprintf k 2 (''link %s %s: failed'' @ newline) [UStr (Some (argv ! 1)), UStr (Some (argv ! 2))]
         else ureturn ()) (uexit 0)))"

fun mkdir_args :: "'w os \<Rightarrow> string list \<Rightarrow> (unit, 'w) uop" where
  "mkdir_args k [] = uexit 0"
| "mkdir_args k (a # as) = ubind (os_mkdir k a) (\<lambda>r.
     if r < 0 then uthen (fprintf k 2 (''mkdir: %s failed to create'' @ newline) [UStr (Some a)]) (uexit 0)
     else mkdir_args k as)"

definition mkdir_main :: "'w os \<Rightarrow> string list \<Rightarrow> (unit, 'w) uop" where
  "mkdir_main k argv = (if length argv < 2 then uthen (fprintf k 2 (''Usage: mkdir files...'' @ newline) []) (uexit 1)
     else mkdir_args k (tl argv))"

fun rm_args :: "'w os \<Rightarrow> string list \<Rightarrow> (unit, 'w) uop" where
  "rm_args k [] = uexit 0"
| "rm_args k (a # as) = ubind (os_unlink k a) (\<lambda>r.
     if r < 0 then uthen (fprintf k 2 (''rm: %s failed to delete'' @ newline) [UStr (Some a)]) (uexit 0)
     else rm_args k as)"

definition rm_main :: "'w os \<Rightarrow> string list \<Rightarrow> (unit, 'w) uop" where
  "rm_main k argv = (if length argv < 2 then uthen (fprintf k 2 (''Usage: rm files...'' @ newline) []) (uexit 1)
     else rm_args k (tl argv))"

definition zombie_main :: "'w os \<Rightarrow> (unit, 'w) uop" where
  "zombie_main k = ubind (os_fork k (uexit 0)) (\<lambda>pid.
     if pid > 0 then uthen (os_sleep k 5) (uexit 0) else uexit 0)"

section \<open>ls\<close>

text \<open>The position after the last slash among the first \<open>n\<close> characters of a path.\<close>

fun after_slash :: "string \<Rightarrow> nat \<Rightarrow> nat" where
  "after_slash path 0 = 0"
| "after_slash path (Suc n) = (if path ! n = CHR ''/'' then Suc n else after_slash path n)"

definition fmtname :: "string \<Rightarrow> string" where
  "fmtname path = (let p = drop (after_slash path (length path)) path in
     if length p \<ge> DIRSIZ then p else p @ replicate (DIRSIZ - length p) (CHR 0x20))"

definition ls_entry :: "'w os \<Rightarrow> string \<Rightarrow> string \<Rightarrow> (unit, 'w) uop" where
  "ls_entry k path de = (let buf = path @ ''/'' @ takeWhile (\<lambda>c. c \<noteq> CHR 0x00) (drop 2 de) in
     if de ! 0 = CHR 0x00 \<and> de ! 1 = CHR 0x00 then ureturn ()
     else ubind (stat_user k buf) (\<lambda>r. case r of
         None \<Rightarrow> printf_user k (''ls: cannot stat %s'' @ newline) [UStr (Some buf)]
       | Some st \<Rightarrow> printf_user k (''%s %d %d %d'' @ newline)
           [UStr (Some (fmtname buf)), UInt (scast (st_type st)), UInt (st_ino st), UInt (ucast (st_size st))]))"

partial_function (option) ls_loop :: "'w os \<Rightarrow> int \<Rightarrow> string \<Rightarrow> 'w \<Rightarrow> (unit, 'w) uout option" where
  "ls_loop k fd path w = ubind (os_read k fd 16) (\<lambda>r w. case r of
     None \<Rightarrow> ureturn () w
   | Some de \<Rightarrow> if length de \<noteq> 16 then ureturn () w
       else ubind (ls_entry k path de) (\<lambda>_ w. ls_loop k fd path w) w) w"

definition ls :: "'w os \<Rightarrow> string \<Rightarrow> (unit, 'w) uop" where
  "ls k path = ubind (os_open k path 0) (\<lambda>fd.
     if fd < 0 then fprintf k 2 (''ls: cannot open %s'' @ newline) [UStr (Some path)]
     else ubind (os_fstat k fd) (\<lambda>r. case r of
         None \<Rightarrow> uthen (fprintf k 2 (''ls: cannot stat %s'' @ newline) [UStr (Some path)]) (uthen (os_close k fd) (ureturn ()))
       | Some st \<Rightarrow> uthen
           (if st_type st = T_FILE then printf_user k (''%s %d %d %l'' @ newline)
              [UStr (Some (fmtname path)), UInt (scast (st_type st)), UInt (st_ino st), ULong (st_size st)]
            else if st_type st = T_DIR then
              (if length path + 1 + DIRSIZ + 1 > 512 then printf_user k (''ls: path too long'' @ newline) []
               else ls_loop k fd path)
            else ureturn ())
           (uthen (os_close k fd) (ureturn ()))))"

definition ls_main :: "'w os \<Rightarrow> string list \<Rightarrow> (unit, 'w) uop" where
  "ls_main k argv = (if length argv < 2 then uthen (ls k ''.'') (uexit 0)
     else uthen (ufor (tl argv) (ls k)) (uexit 0))"

section \<open>init\<close>

partial_function (option) init_wait :: "'w os \<Rightarrow> int \<Rightarrow> 'w \<Rightarrow> (unit, 'w) uout option" where
  "init_wait k pid w = ubind (os_wait k) (\<lambda>wpid w.
     if wpid = pid then ureturn () w
     else if wpid < 0 then uthen (printf_user k (''init: wait returned an error'' @ newline) []) (uexit 1) w
     else init_wait k pid w) w"

definition init_child :: "'w os \<Rightarrow> (unit, 'w) uop" where
  "init_child k = uthen (os_exec k ''sh'' [''sh'']) (uthen (printf_user k (''init: exec sh failed'' @ newline) []) (uexit 1))"

partial_function (option) init_loop :: "'w os \<Rightarrow> 'w \<Rightarrow> (unit, 'w) uout option" where
  "init_loop k w = ubind (printf_user k (''init: starting sh'' @ newline) []) (\<lambda>_ w.
     ubind (os_fork k (init_child k)) (\<lambda>pid w.
       if pid < 0 then uthen (printf_user k (''init: fork failed'' @ newline) []) (uexit 1) w
       else ubind (init_wait k pid) (\<lambda>_ w. init_loop k w) w) w) w"

definition init_main :: "'w os \<Rightarrow> (unit, 'w) uop" where
  "init_main k = ubind (os_open k ''console'' O_RDWR) (\<lambda>fd.
     uthen (if fd < 0 then uthen (os_mknod k ''console'' 1 0) (uthen (os_open k ''console'' O_RDWR) (ureturn ())) else ureturn ())
       (uthen (os_dup k 0) (uthen (os_dup k 0) (init_loop k))))"

section \<open>What cat and wc compute\<close>

text \<open>
  A descriptor that reads a file: \<open>left\<close> is what has not been read. A read gives a nonempty part of it, up to the
  length asked for, in pieces of any size; only at the end of the file does it give nothing.
\<close>

definition reader :: "'w os \<Rightarrow> int \<Rightarrow> ('w \<Rightarrow> string) \<Rightarrow> ('w \<Rightarrow> 'x) \<Rightarrow> bool" where
  "reader k fd left keep \<longleftrightarrow> (\<forall>n w. 0 < n \<longrightarrow> (\<exists>u v. os_read k fd n w = Some (URet (Some u) v) \<and>
     left w = u @ left v \<and> length u \<le> n \<and> (u = [] \<longrightarrow> left w = []) \<and> keep v = keep w))"

lemma readerE:
  assumes "reader k fd left keep" "0 < n"
  obtains u v where "os_read k fd n w = Some (URet (Some u) v)" "left w = u @ left v" "length u \<le> n" "keep v = keep w"
    "u = [] \<Longrightarrow> left w = []"
  using assms unfolding reader_def by blast

lemma writerE:
  assumes "writer k fd out keep"
  obtains v where "os_write k fd s w = Some (URet (int (length s)) v)" "out v = out w @ s" "keep v = keep w"
  using assms by (auto simp: writer_def)

lemma cat_copies:
  assumes "reader k fd left out" "writer k 1 out left"
  shows "\<exists>v. cat k fd w = Some (URet () v) \<and> out v = out w @ left w \<and> left v = []"
proof (induction "length (left w)" arbitrary: w rule: less_induct)
  case less
  obtain u v where r: "os_read k fd 512 w = Some (URet (Some u) v)" "left w = u @ left v" "out v = out w" "u = [] \<Longrightarrow> left w = []"
    by (rule readerE [OF assms(1), of 512 w]) auto
  show ?case
  proof (cases "u = []")
    case True
    then show ?thesis using r by (subst cat.simps) (simp add: uexec)
  next
    case False
    obtain x where x: "os_write k 1 u v = Some (URet (int (length u)) x)" "out x = out v @ u" "left x = left v"
      by (rule writerE [OF assms(2), of u v])
    have "length (left x) < length (left w)" using r(2) x(3) False by simp
    from less [OF this] show ?thesis using r x False by (subst cat.simps) (auto simp: uexec)
  qed
qed

text \<open>The words of a text: its pieces between white space that are not empty.\<close>

definition white :: "char \<Rightarrow> bool" where
  "white c \<longleftrightarrow> c \<in> {CHR 0x20, CHR 0x0D, CHR 0x09, CHR 0x0A, CHR 0x0B}"

fun pieces :: "string \<Rightarrow> string list" where
  "pieces [] = [[]]"
| "pieces (c # s) = (if white c then [] # pieces s else (c # hd (pieces s)) # tl (pieces s))"

definition text_words :: "string \<Rightarrow> string list" where
  "text_words s = filter (\<lambda>u. u \<noteq> []) (pieces s)"

lemma pieces_ne [simp]: "pieces s \<noteq> []"
  by (cases s) simp_all

lemma wc_char_sel [simp]:
  "n_lines (wc_char c s) = n_lines s + (if c = CHR 0x0A then 1 else 0)"
  "n_words (wc_char c s) = n_words s + (if white c \<or> in_word s then 0 else 1)"
  "n_chars (wc_char c s) = n_chars s + 1" "in_word (wc_char c s) = (\<not> white c)"
  by (simp_all add: wc_char_def white_def Let_def)

lemma fold_wc:
  "n_lines (fold wc_char t s) = n_lines s + of_nat (count_list t (CHR 0x0A))"
  "n_chars (fold wc_char t s) = n_chars s + of_nat (length t)"
  by (induction t arbitrary: s) simp_all

lemma fold_wc_words:
  "n_words (fold wc_char t s) = n_words s +
     of_nat (length (filter (\<lambda>u. u \<noteq> []) (if in_word s then tl (pieces t) else pieces t)))"
proof (induction t arbitrary: s)
  case (Cons c t)
  have "length (filter (\<lambda>u. u \<noteq> []) (pieces t)) =
      (if hd (pieces t) = [] then 0 else 1) + length (filter (\<lambda>u. u \<noteq> []) (tl (pieces t)))"
    by (cases "pieces t") auto
  then show ?case using Cons.IH [of "wc_char c s"] by simp
qed simp

lemma wc_loop_prints:
  assumes "reader k fd left out" "writer k 1 out left"
  shows "\<exists>v. wc_loop k fd nm s w = Some (URet () v) \<and> (let t = fold wc_char (left w) s in
    out v = out w @ decimal_of (n_lines t) @ '' '' @ decimal_of (n_words t) @ '' '' @ decimal_of (n_chars t) @ '' '' @ nm @ newline)"
proof (induction "length (left w)" arbitrary: w s rule: less_induct)
  case less
  obtain u v where r: "os_read k fd 512 w = Some (URet (Some u) v)" "left w = u @ left v" "out v = out w" "u = [] \<Longrightarrow> left w = []"
    by (rule readerE [OF assms(1), of 512 w]) auto
  show ?case
  proof (cases "u = []")
    case True
    have "prints out left (printf_user k (''%d %d %d %s'' @ newline) [UInt (n_lines s), UInt (n_words s), UInt (n_chars s), UStr (Some nm)]) ()
        (decimal_of (n_lines s) @ '' '' @ decimal_of (n_words s) @ '' '' @ decimal_of (n_chars s) @ '' '' @ nm @ newline)"
      unfolding printf_user_def by (rule prints_vprintf [OF assms(2)]) (simp add: conv_out_def)
    then show ?thesis using r True by (subst wc_loop.simps) (force simp: uexec prints_def)
  next
    case False
    then have "length (left v) < length (left w)" using r(2) by simp
    from less [OF this, of "fold wc_char u s"] show ?thesis using r False by (subst wc_loop.simps) (simp add: uexec)
  qed
qed

text \<open>
  C36: \<open>wc\<close> counts. On a file it prints, in this order, the number of its lines, of its words and of its characters
  modulo 2 to the 32, and the name of the file, in whatever pieces the file is read; words are the maximal
  sequences of characters that are not white space.
\<close>

theorem wc_counts:
  assumes "reader k fd left out" "writer k 1 out left"
  shows "\<exists>v. wc k fd nm w = Some (URet () v) \<and>
    out v = out w @ decimal_of (of_nat (count_list (left w) (CHR 0x0A))) @ '' '' @
      decimal_of (of_nat (length (text_words (left w)))) @ '' '' @ decimal_of (of_nat (length (left w))) @ '' '' @ nm @ newline"
  using wc_loop_prints [OF assms, of nm "\<lparr>n_lines = 0, n_words = 0, n_chars = 0, in_word = False\<rparr>" w]
  by (simp add: wc_def fold_wc fold_wc_words text_words_def Let_def)

text \<open>A kernel with one file and one output; it reads at most three characters at a time.\<close>

definition file_os :: "(string \<times> string) os" where
  "file_os = \<lparr>os_fork = (\<lambda>c. ureturn (- 1)), os_wait = ureturn (- 1), os_pipe = ureturn None,
     os_read = (\<lambda>fd n (l, r). Some (URet (Some (take (min 3 n) l)) (drop (min 3 n) l, r))),
     os_write = (\<lambda>fd s (l, r). Some (URet (int (length s)) (l, r @ s))), os_open = (\<lambda>p m. ureturn (- 1)),
     os_close = (\<lambda>fd. ureturn (- 1)), os_dup = (\<lambda>fd. ureturn (- 1)), os_exec = (\<lambda>p a. ureturn (- 1)),
     os_fstat = (\<lambda>fd. ureturn None), os_mknod = (\<lambda>p a b. ureturn (- 1)), os_unlink = (\<lambda>p. ureturn (- 1)),
     os_link = (\<lambda>p q. ureturn (- 1)), os_mkdir = (\<lambda>p. ureturn (- 1)), os_chdir = (\<lambda>p. ureturn (- 1)),
     os_kill = (\<lambda>n. ureturn (- 1)), os_sleep = (\<lambda>n. ureturn (- 1))\<rparr>"

lemma file_os_io: "reader file_os fd fst snd" "writer file_os fd snd fst"
  by (auto simp: reader_def writer_def file_os_def)

theorem wc_counts_witness: "\<exists>v. wc file_os 0 ''f'' (''to  be or'', []) = Some (URet () v) \<and> snd v = ''0 3 9 f'' @ newline"
proof -
  have t: "text_words ''to  be or'' = [''to'', ''be'', ''or'']" by (simp add: text_words_def white_def)
  have d: "decimal_of 0 = ''0''" "decimal_of 3 = ''3''" "decimal_of 9 = ''9''"
    by (simp_all add: decimal_of_def digit_loop_user.simps digits_user_def)
  show ?thesis
    using wc_counts [OF file_os_io, of 0 "''f''" "(''to  be or'', [])"] by (simp add: t d)
qed

end
