(* ===== verification/User_Grep.thy ===== *)
theory User_Grep
  imports User_Tools
begin

text \<open>
  src/user/grep.c: the regular expression matcher and the program around it. The matcher is shown to decide a
  declarative meaning of patterns, and the program to print exactly the lines that match, in whatever
  pieces the file is read.
\<close>

section \<open>The matcher\<close>

text \<open>A pattern and a text are strings; the end of the list is the NUL the code tests for.\<close>

function matchhere :: "string \<Rightarrow> string \<Rightarrow> bool"
  and matchstar :: "char \<Rightarrow> string \<Rightarrow> string \<Rightarrow> bool" where
  "matchhere re tx = (case re of
     [] \<Rightarrow> True
   | c # re1 \<Rightarrow>
       if re1 \<noteq> [] \<and> hd re1 = CHR ''*'' then matchstar c (tl re1) tx
       else if c = CHR ''$'' \<and> re1 = [] then tx = []
       else if tx \<noteq> [] \<and> (c = CHR ''.'' \<or> c = hd tx) then matchhere re1 (tl tx)
       else False)"
| "matchstar c re tx = (if matchhere re tx then True
     else if tx \<noteq> [] \<and> (hd tx = c \<or> c = CHR ''.'') then matchstar c re (tl tx) else False)"
  by pat_completeness auto
termination
  by (relation "measures [case_sum (\<lambda>(re, tx). length re) (\<lambda>(c, re, tx). length re),
      case_sum (\<lambda>(re, tx). length tx) (\<lambda>(c, re, tx). length tx), case_sum (\<lambda>_. 0) (\<lambda>_. 1)]")
    (auto simp: neq_Nil_conv)

declare matchhere.simps [simp del] matchstar.simps [simp del]

text \<open>The \<open>do\<close> loop of \<open>match\<close>: every suffix of the text, the empty one included.\<close>

fun match_from :: "string \<Rightarrow> string \<Rightarrow> bool" where
  "match_from re [] = matchhere re []"
| "match_from re (c # tx) = (if matchhere re (c # tx) then True else match_from re tx)"

definition match :: "string \<Rightarrow> string \<Rightarrow> bool" where
  "match re tx = (if re \<noteq> [] \<and> hd re = CHR ''^'' then matchhere (tl re) tx else match_from re tx)"

section \<open>The program\<close>

text \<open>
  The lines of the buffer: \<open>p\<close> is what the pointer of the same name has before it. A NUL in the buffer ends the
  string that \<open>strchr\<close> searches. The result is the incomplete line at the end.
\<close>

function grep_lines :: "'w os \<Rightarrow> string \<Rightarrow> string \<Rightarrow> (string, 'w) uop" where
  "grep_lines k re p = (case strchr (c_string p) (CHR 0x0A) of
     None \<Rightarrow> ureturn p
   | Some q \<Rightarrow> (let n = length (c_string p) - length q in
       uthen (if match re (take n p) then uthen (os_write k 1 (take (n + 1) p)) (ureturn ()) else ureturn ())
         (grep_lines k re (drop (n + 1) p))))"
  by pat_completeness auto
termination
proof (relation "measure (\<lambda>(k, re, p). length p)")
  fix k :: "'w os" and re p q :: string and n :: nat
  assume "strchr (c_string p) (CHR 0x0A) = Some q"
  then have "p \<noteq> []" by (auto simp: c_string_def)
  then show "((k, re, drop (n + 1) p), k, re, p) \<in> measure (\<lambda>(k, re, p). length p)" by simp
qed simp

declare grep_lines.simps [simp del]

partial_function (option) grep :: "'w os \<Rightarrow> string \<Rightarrow> int \<Rightarrow> string \<Rightarrow> 'w \<Rightarrow> (unit, 'w) uout option" where
  "grep k re fd buf w = ubind (os_read k fd (1024 - length buf - 1)) (\<lambda>r w. case r of
     None \<Rightarrow> ureturn () w
   | Some u \<Rightarrow> if u = [] then ureturn () w
       else ubind (grep_lines k re (buf @ u)) (\<lambda>p w. grep k re fd p w) w) w"

fun grep_files :: "'w os \<Rightarrow> string \<Rightarrow> string list \<Rightarrow> (unit, 'w) uop" where
  "grep_files k re [] = uexit 0"
| "grep_files k re (p # ps) = ubind (os_open k p 0) (\<lambda>fd.
     if fd < 0 then uthen (printf_user k (''grep: cannot open %s'' @ newline) [UStr (Some p)]) (uexit 1)
     else uthen (grep k re fd []) (uthen (os_close k fd) (grep_files k re ps)))"

definition grep_main :: "'w os \<Rightarrow> string list \<Rightarrow> (unit, 'w) uop" where
  "grep_main k argv = (if length argv \<le> 1 then uthen (fprintf k 2 (''usage: grep pattern [file ...]'' @ newline) []) (uexit 1)
     else if length argv \<le> 2 then uthen (grep k (argv ! 1) 0 []) (uexit 0)
     else grep_files k (argv ! 1) (drop 2 argv))"

section \<open>The meaning of a pattern\<close>

text \<open>
  An item matches one character (\<open>One\<close>), any number of the same kind of character (\<open>Many\<close>), or the end of the
  text (\<open>End\<close>). A dot stands for any character. \<open>hits is t u\<close>: the items match a prefix of the text \<open>t\<close> and leave \<open>u\<close>.
\<close>

datatype item = One char | Many char | End

fun items :: "string \<Rightarrow> item list" where
  "items [] = []"
| "items [c] = (if c = CHR ''$'' then [End] else [One c])"
| "items (c # d # re) = (if d = CHR ''*'' then Many c # items re else One c # items (d # re))"

definition accepts :: "char \<Rightarrow> char \<Rightarrow> bool" where
  "accepts c x \<longleftrightarrow> c = CHR ''.'' \<or> c = x"

fun lang :: "item list \<Rightarrow> string set" where
  "lang [] = {[]}"
| "lang (One c # is) = {x # u | x u. accepts c x \<and> u \<in> lang is}"
| "lang (Many c # is) = {v @ u | v u. (\<forall>x \<in> set v. accepts c x) \<and> u \<in> lang is}"
| "lang (End # is) = lang is"

definition at_end :: "string \<Rightarrow> bool" where
  "at_end re \<longleftrightarrow> End \<in> set (items re)"

lemma items_Many: "items (c # CHR ''*'' # re) = Many c # items re"
  by simp

lemma items_One: "\<not> (re \<noteq> [] \<and> hd re = CHR ''*'') \<Longrightarrow> \<not> (c = CHR ''$'' \<and> re = []) \<Longrightarrow> items (c # re) = One c # items re"
  by (cases re) auto

lemma matchhere_Many: "matchhere (c # CHR ''*'' # re) tx = matchstar c re tx"
  by (simp add: matchhere.simps)

text \<open>A pattern matches at the start of a text: a prefix is in its language, and all of the text if it ends with \<open>$\<close>.\<close>

definition hits :: "string \<Rightarrow> string \<Rightarrow> bool" where
  "hits re tx \<longleftrightarrow> (\<exists>u v. tx = u @ v \<and> u \<in> lang (items re) \<and> (at_end re \<longrightarrow> v = []))"

lemma hits_Nil: "hits [] tx"
  by (simp add: hits_def at_end_def)

lemma hits_End: "hits ''$'' tx \<longleftrightarrow> tx = []"
  by (simp add: hits_def at_end_def)

lemma hits_One:
  assumes "\<not> (re \<noteq> [] \<and> hd re = CHR ''*'')" "\<not> (c = CHR ''$'' \<and> re = [])"
  shows "hits (c # re) tx \<longleftrightarrow> tx \<noteq> [] \<and> accepts c (hd tx) \<and> hits re (tl tx)"
  unfolding hits_def at_end_def items_One [OF assms]
  by (cases tx) (auto simp: Cons_eq_append_conv)

lemma hits_Many:
  "hits (c # CHR ''*'' # re) tx \<longleftrightarrow> (\<exists>v t. tx = v @ t \<and> (\<forall>x \<in> set v. accepts c x) \<and> hits re t)"
proof
  assume "hits (c # CHR ''*'' # re) tx"
  then obtain y w where y: "tx = y @ w" "y \<in> lang (Many c # items re)" "at_end re \<longrightarrow> w = []"
    by (auto simp: hits_def at_end_def)
  then obtain v u where "y = v @ u" "\<forall>x \<in> set v. accepts c x" "u \<in> lang (items re)" by auto
  then show "\<exists>v t. tx = v @ t \<and> (\<forall>x \<in> set v. accepts c x) \<and> hits re t"
    using y by (intro exI [of _ v] exI [of _ "u @ w"]) (auto simp: hits_def)
next
  assume "\<exists>v t. tx = v @ t \<and> (\<forall>x \<in> set v. accepts c x) \<and> hits re t"
  then obtain v u w where "tx = (v @ u) @ w" "\<forall>x \<in> set v. accepts c x" "u \<in> lang (items re)" "at_end re \<longrightarrow> w = []"
    by (auto simp: hits_def)
  then show "hits (c # CHR ''*'' # re) tx"
    unfolding hits_def at_end_def by (intro exI [of _ "v @ u"] exI [of _ w]) auto
qed

lemma star_unfold:
  "(\<exists>v t. tx = v @ t \<and> (\<forall>x \<in> set v. accepts c x) \<and> P t) \<longleftrightarrow>
     P tx \<or> (tx \<noteq> [] \<and> accepts c (hd tx) \<and> (\<exists>v t. tl tx = v @ t \<and> (\<forall>x \<in> set v. accepts c x) \<and> P t))"
proof (cases tx)
  case (Cons x xs)
  show ?thesis
    unfolding Cons
  proof (intro iffI; elim disjE exE conjE)
    fix v t assume v: "x # xs = v @ t" "\<forall>x \<in> set v. accepts c x" "P t"
    then show "P (x # xs) \<or> x # xs \<noteq> [] \<and> accepts c (hd (x # xs)) \<and>
        (\<exists>v t. tl (x # xs) = v @ t \<and> (\<forall>x \<in> set v. accepts c x) \<and> P t)"
      by (cases v) auto
  next
    fix v t assume "accepts c (hd (x # xs))" "tl (x # xs) = v @ t" "\<forall>x \<in> set v. accepts c x" "P t"
    then show "\<exists>v t. x # xs = v @ t \<and> (\<forall>x \<in> set v. accepts c x) \<and> P t"
      by (intro exI [of _ "x # v"] exI [of _ t]) simp
  qed (auto intro: exI [of _ "[]"])
qed auto

lemma matchhere_hits: "matchhere re tx \<longleftrightarrow> hits re tx"
  and matchstar_hits: "matchstar c re tx \<longleftrightarrow> (\<exists>v t. tx = v @ t \<and> (\<forall>x \<in> set v. accepts c x) \<and> hits re t)"
proof (induction re tx and c re tx rule: matchhere_matchstar.induct)
  case (1 re tx)
  show ?case
  proof (cases re)
    case Nil
    then show ?thesis by (simp add: matchhere.simps hits_Nil)
  next
    case (Cons c re1)
    consider (star) "re1 \<noteq> [] \<and> hd re1 = CHR ''*''" | (dollar) "c = CHR ''$''" "re1 = []"
      | (one) "\<not> (re1 \<noteq> [] \<and> hd re1 = CHR ''*'')" "\<not> (c = CHR ''$'' \<and> re1 = [])" by blast
    then show ?thesis
    proof cases
      case star
      then have "re1 = CHR ''*'' # tl re1" by (cases re1) auto
      then show ?thesis using 1(1) [OF Cons star] hits_Many [of c "tl re1" tx] matchhere_Many [of c "tl re1" tx] Cons by simp
    next
      case dollar
      then show ?thesis using Cons by (simp add: matchhere.simps hits_End)
    next
      case one
      have "matchhere re tx \<longleftrightarrow> tx \<noteq> [] \<and> accepts c (hd tx) \<and> matchhere re1 (tl tx)"
        unfolding Cons matchhere.simps [of "c # re1"] using one by (auto simp: accepts_def)
      then show ?thesis using 1(2) [OF Cons one] hits_One [OF one, of tx] Cons by (auto simp: accepts_def)
    qed
  qed
next
  case (2 c re tx)
  have "matchstar c re tx \<longleftrightarrow> matchhere re tx \<or> tx \<noteq> [] \<and> accepts c (hd tx) \<and> matchstar c re (tl tx)"
    by (auto simp: matchstar.simps [of c re tx] accepts_def)
  moreover have "matchstar c re (tl tx) \<longleftrightarrow> (\<exists>v t. tl tx = v @ t \<and> (\<forall>x \<in> set v. accepts c x) \<and> hits re t)"
    if "\<not> matchhere re tx" "tx \<noteq> []" "accepts c (hd tx)"
    by (rule 2(2)) (use that in \<open>auto simp: accepts_def\<close>)
  ultimately show ?case
    unfolding star_unfold [of tx c "hits re"] using 2(1) by blast
qed

lemma match_from_hits: "match_from re tx \<longleftrightarrow> (\<exists>u t. tx = u @ t \<and> hits re t)"
proof (induction tx)
  case (Cons c tx)
  have "(\<exists>u t. c # tx = u @ t \<and> hits re t) \<longleftrightarrow> hits re (c # tx) \<or> (\<exists>u t. tx = u @ t \<and> hits re t)"
    by (auto simp: Cons_eq_append_conv)
  then show ?case using Cons by (simp add: matchhere_hits)
qed (simp add: matchhere_hits)

text \<open>
  C32: the matcher decides the meaning of patterns. A pattern matches a text if a part of the text is in the
  language of its items, at the start of the text if the pattern begins with \<open>^\<close> and at its end if it ends with
  \<open>$\<close>; the backtracking of \<open>matchhere\<close> and \<open>matchstar\<close> always ends and misses no match.
\<close>

theorem match_decides_language:
  "match re tx \<longleftrightarrow> (let anchored = (re \<noteq> [] \<and> hd re = CHR ''^''); body = (if anchored then tl re else re) in
     \<exists>u m v. tx = u @ m @ v \<and> m \<in> lang (items body) \<and> (anchored \<longrightarrow> u = []) \<and> (at_end body \<longrightarrow> v = []))"
  unfolding match_def matchhere_hits match_from_hits hits_def Let_def by auto

theorem match_decides_language_witness:
  "\<exists>u m v. ''xabb'' = u @ m @ v \<and> m \<in> lang (items ''ab*$'') \<and> (at_end ''ab*$'' \<longrightarrow> v = [])"
proof -
  have "match ''ab*$'' ''xabb''" by (simp add: match_def matchhere.simps matchstar.simps)
  moreover have "(''ab*$'' \<noteq> [] \<and> hd ''ab*$'' = CHR ''^'') = False" by simp
  ultimately have "\<exists>u m v. ''xabb'' = u @ m @ v \<and> m \<in> lang (items ''ab*$'') \<and> (False \<longrightarrow> u = []) \<and> (at_end ''ab*$'' \<longrightarrow> v = [])"
    using match_decides_language [of "''ab*$''" "''xabb''"] by (simp only: Let_def if_False)
  then show ?thesis by blast
qed

section \<open>The lines grep prints\<close>

fun nl_split :: "string \<Rightarrow> string list" where
  "nl_split [] = [[]]"
| "nl_split (c # s) = (if c = CHR 0x0A then [] # nl_split s else (c # hd (nl_split s)) # tl (nl_split s))"

lemma nl_split_ne [simp]: "nl_split s \<noteq> []"
  by (cases s) simp_all

text \<open>The complete lines of a text that match, each with its newline.\<close>

definition selected :: "string \<Rightarrow> string \<Rightarrow> string" where
  "selected re s = concat (map (\<lambda>l. l @ newline) (filter (match re) (butlast (nl_split s))))"

lemma nl_split_line: "CHR 0x0A \<notin> set l \<Longrightarrow> nl_split (l @ CHR 0x0A # s) = l # nl_split s"
  by (induction l) auto

lemma nl_split_none: "CHR 0x0A \<notin> set l \<Longrightarrow> nl_split l = [l]"
  by (induction l) auto

lemma nl_split_append: "nl_split (p @ q) = butlast (nl_split p) @ nl_split (last (nl_split p) @ q)"
proof (induction p)
  case (Cons c p)
  obtain a as where "nl_split p = a # as" by (cases "nl_split p") auto
  then show ?case using Cons by (cases "as = []") auto
qed simp

lemma nl_split_set: "l \<in> set (nl_split s) \<Longrightarrow> CHR 0x0A \<notin> set l \<and> set l \<subseteq> set s"
proof (induction s arbitrary: l)
  case (Cons c s)
  obtain a as where "nl_split s = a # as" by (cases "nl_split s") auto
  then show ?case using Cons.prems Cons.IH [of a] Cons.IH [of l] by (auto split: if_splits)
qed simp

lemma selected_append: "selected re (p @ q) = selected re p @ selected re (last (nl_split p) @ q)"
  by (simp add: selected_def nl_split_append [of p] butlast_append)

lemma grep_lines_prints:
  assumes "writer k 1 out keep" "CHR 0x00 \<notin> set p"
  shows "prints out keep (grep_lines k re p) (last (nl_split p)) (selected re p)"
  using assms(2)
proof (induction "length p" arbitrary: p rule: less_induct)
  case less
  have c: "c_string p = p" using less.prems by (auto simp: c_string_def takeWhile_eq_all_conv)
  show ?case
  proof (cases "CHR 0x0A \<in> set p")
    case False
    then show ?thesis
      by (subst grep_lines.simps) (auto simp: c strchr_eq nl_split_none selected_def)
  next
    case True
    then obtain l r where p: "p = l @ CHR 0x0A # r" "CHR 0x0A \<notin> set l" by (meson split_list_first)
    have q: "strchr p (CHR 0x0A) = Some (CHR 0x0A # r)" using p by (auto simp: strchr_eq dropWhile_append3)
    have w: "prints out keep (if match re l then uthen (os_write k 1 (l @ newline)) (ureturn ()) else ureturn ()) ()
        (if match re l then l @ newline else [])"
      using prints_then [OF prints_write [OF assms(1), of "l @ newline"] prints_return] by auto
    have "prints out keep (grep_lines k re r) (last (nl_split r)) (selected re r)"
      using less.hyps [of r] less.prems p by auto
    note rest = prints_then [OF w this]
    have n: "length p - length (CHR 0x0A # r) = length l" using p(1) by simp
    have "grep_lines k re p = uthen (if match re l then uthen (os_write k 1 (l @ newline)) (ureturn ()) else ureturn ()) (grep_lines k re r)"
      by (subst grep_lines.simps) (simp only: c q n Let_def option.case, simp add: p(1))
    moreover have "selected re p = (if match re l then l @ newline else []) @ selected re r" "last (nl_split p) = last (nl_split r)"
      using p by (simp_all add: nl_split_line selected_def)
    ultimately show ?thesis using rest by simp
  qed
qed

text \<open>
  C33: \<open>grep\<close> prints the matching lines. On a text without NUL characters whose lines are shorter than the buffer it
  returns, having printed exactly the complete lines that match the pattern, in their order, in
  whatever pieces the file is read.
\<close>

theorem grep_prints_matching_lines:
  assumes "reader k fd left out" "writer k 1 out left"
    and "CHR 0x00 \<notin> set (buf @ left w)" "\<forall>l \<in> set (nl_split (buf @ left w)). length l < 1023" "CHR 0x0A \<notin> set buf"
  shows "\<exists>v. grep k re fd buf w = Some (URet () v) \<and> out v = out w @ selected re (buf @ left w)"
  using assms(3-5)
proof (induction "length (left w)" arbitrary: w buf rule: less_induct)
  case less
  have "length buf \<le> length (hd (nl_split (buf @ t)))" for t
    using less.prems(3) by (induction buf) auto
  moreover have "hd (nl_split (buf @ left w)) \<in> set (nl_split (buf @ left w))" by simp
  ultimately have "length buf < 1023" using less.prems(2) by (meson le_less_trans)
  then have n: "0 < 1024 - length buf - 1" by simp
  obtain u v where r: "os_read k fd (1024 - length buf - 1) w = Some (URet (Some u) v)" "left w = u @ left v" "out v = out w"
      "u = [] \<Longrightarrow> left w = []"
    by (rule readerE [OF assms(1) n, of w]) auto
  show ?case
  proof (cases "u = []")
    case True
    then show ?thesis
      using r less.prems(3) by (subst grep.simps) (simp add: uexec selected_def nl_split_none)
  next
    case False
    let ?p = "buf @ u"
    have "prints out left (grep_lines k re ?p) (last (nl_split ?p)) (selected re ?p)"
      by (rule grep_lines_prints [OF assms(2)]) (use less.prems(1) r(2) in auto)
    then obtain x where x: "grep_lines k re ?p v = Some (URet (last (nl_split ?p)) x)" "out x = out v @ selected re ?p" "left x = left v"
      by (auto simp: prints_def)
    have "\<exists>y. grep k re fd (last (nl_split ?p)) x = Some (URet () y) \<and> out y = out x @ selected re (last (nl_split ?p) @ left x)"
    proof (rule less.hyps)
      show "length (left x) < length (left w)" using r(2) x(3) False by simp
      have l: "last (nl_split ?p) \<in> set (nl_split ?p)" by simp
      show "CHR 0x0A \<notin> set (last (nl_split ?p))" using nl_split_set [OF l] by simp
      show "CHR 0x00 \<notin> set (last (nl_split ?p) @ left x)" using nl_split_set [OF l] less.prems(1) r(2) x(3) by auto
      show "\<forall>l \<in> set (nl_split (last (nl_split ?p) @ left x)). length l < 1023"
        using less.prems(2) nl_split_append [of ?p "left v"] r(2) x(3) by simp
    qed
    then show ?thesis
      using r x False selected_append [of re ?p "left v"] by (subst grep.simps) (auto simp: uexec)
  qed
qed

theorem grep_prints_matching_lines_witness:
  "\<exists>v. grep file_os ''^a*b$'' 0 [] (''aab'' @ newline @ ''bc'' @ newline @ ''b'' @ newline, []) = Some (URet () v) \<and>
     snd v = ''aab'' @ newline @ ''b'' @ newline"
proof -
  let ?t = "''aab'' @ newline @ ''bc'' @ newline @ ''b'' @ newline"
  have "selected ''^a*b$'' ?t = ''aab'' @ newline @ ''b'' @ newline"
    by (simp add: selected_def match_def matchhere.simps matchstar.simps)
  then show ?thesis
    using grep_prints_matching_lines [OF file_os_io, of "[]" "(?t, [])" "''^a*b$''" 0] by simp
qed

end
