(* ===== verification/User_Shell.thy ===== *)
theory User_Shell
  imports User_Tools "HOL-Library.Sublist"
begin

text \<open>
  The parser of the shell, src/user/sh.c. A pointer into the command line is the rest of the line from there, so
  \<open>s < es\<close> is \<open>s \<noteq> []\<close>. Words are kept as pairs of pointers until \<open>nulterminate\<close> has put a NUL at the end of each. The
  functions that call each other take a number of calls they may still nest; \<open>parsecmd\<close> gives a number that
  is shown to be enough for every line. The parser is shown to return only well-formed commands, and to
  read back every well-formed command from its written form.
\<close>

section \<open>Commands\<close>

datatype 'a cmd =
    ExecCmd "'a list"
  | RedirCmd "'a cmd" 'a u32 int
  | PipeCmd "'a cmd" "'a cmd"
  | ListCmd "'a cmd" "'a cmd"
  | BackCmd "'a cmd"

type_synonym pword = "string \<times> string"

type_synonym 'a redir = "'a \<times> u32 \<times> int"

abbreviation (input) MAXARGS :: nat where "MAXARGS \<equiv> 10"

text \<open>\<open>redircmd\<close> around a command, one after the other.\<close>

definition with_redirs :: "'a cmd \<Rightarrow> 'a redir list \<Rightarrow> 'a cmd" where
  "with_redirs c rs = foldl (\<lambda>c (f, m, n). RedirCmd c f m n) c rs"

section \<open>Tokens\<close>

definition whitespace :: string where
  "whitespace = [CHR 0x20, CHR 0x09, CHR 0x0D, CHR 0x0A, CHR 0x0B]"

definition symbols :: string where
  "symbols = ''<|>&;()''"

fun skip :: "string \<Rightarrow> string" where
  "skip [] = []"
| "skip (c # s) = (if strchr whitespace c \<noteq> None then skip s else c # s)"

fun skip_word :: "string \<Rightarrow> string" where
  "skip_word [] = []"
| "skip_word (c # s) = (if strchr whitespace c = None \<and> strchr symbols c = None then skip_word s else c # s)"

text \<open>The kind of the token, where it starts and ends, and the rest of the line.\<close>

definition gettoken :: "string \<Rightarrow> char \<times> string \<times> string \<times> string" where
  "gettoken ps = (let s = skip ps in case s of
     [] \<Rightarrow> (CHR 0x00, s, s, skip s)
   | c # r \<Rightarrow>
       if c = CHR ''|'' \<or> c = CHR ''('' \<or> c = CHR '')'' \<or> c = CHR '';'' \<or> c = CHR ''&'' \<or> c = CHR ''<'' then (c, s, r, skip r)
       else if c = CHR ''>'' then
         (if r \<noteq> [] \<and> hd r = CHR ''>'' then (CHR ''+'', s, tl r, skip (tl r)) else (c, s, r, skip r))
       else (CHR ''a'', s, skip_word s, skip (skip_word s)))"

definition peek :: "string \<Rightarrow> string \<Rightarrow> bool \<times> string" where
  "peek ps toks = (let s = skip ps in (s \<noteq> [] \<and> strchr toks (hd s) \<noteq> None, s))"

section \<open>The parser\<close>

text \<open>\<open>Failed\<close> is what the shell prints before it exits, without the last newline: the message of \<open>panic\<close>.\<close>

datatype 'a parsed = Parsed 'a string | Failed string | NoFuel

definition pbind :: "'a parsed \<Rightarrow> ('a \<Rightarrow> string \<Rightarrow> 'b parsed) \<Rightarrow> 'b parsed" where
  "pbind p f = (case p of Parsed a s \<Rightarrow> f a s | Failed e \<Rightarrow> Failed e | NoFuel \<Rightarrow> NoFuel)"

lemma pbind_simps [simp]:
  "pbind (Parsed a s) f = f a s" "pbind (Failed e) f = Failed e" "pbind NoFuel f = NoFuel"
  by (simp_all add: pbind_def)

lemma pbind_cong [fundef_cong]:
  "p = q \<Longrightarrow> (\<And>a s. q = Parsed a s \<Longrightarrow> f a s = g a s) \<Longrightarrow> pbind p f = pbind q g"
  by (simp add: pbind_def split: parsed.splits)

lemma skip_length [simp]: "length (skip s) \<le> length s"
  by (induction s) auto

lemma skip_word_length [simp]: "length (skip_word s) \<le> length s"
  by (induction s) auto

lemma skip_hd: "skip s = c # r \<Longrightarrow> strchr whitespace c = None"
  by (induction s) (auto split: if_splits)

lemma skip_skip [simp]: "skip (skip s) = skip s"
  by (induction s) auto

lemma plain_word:
  assumes "skip s = c # r" "c \<notin> set symbols"
  shows "skip_word (c # r) = skip_word r"
  using skip_hd [OF assms(1)] assms(2) by (simp add: strchr_eq)

lemma gettoken_sym:
  assumes "skip s = c # t" "c \<in> set ''|();&<''"
  shows "gettoken s = (c, c # t, t, skip t)"
  using assms by (auto simp: gettoken_def Let_def)

lemma gettoken_gt:
  assumes "skip s = CHR ''>'' # t"
  shows "gettoken s = (if t \<noteq> [] \<and> hd t = CHR ''>'' then (CHR ''+'', CHR ''>'' # t, tl t, skip (tl t))
    else (CHR ''>'', CHR ''>'' # t, t, skip t))"
  using assms by (simp add: gettoken_def Let_def)

lemma gettoken_word:
  assumes "skip s = c # t" "c \<notin> set symbols"
  shows "gettoken s = (CHR ''a'', c # t, skip_word t, skip (skip_word t))"
proof -
  have "gettoken s = (CHR ''a'', c # t, skip_word (c # t), skip (skip_word (c # t)))"
    using assms by (simp add: gettoken_def Let_def symbols_def del: skip_word.simps)
  then show ?thesis unfolding plain_word [OF assms] .
qed

lemma gettoken_consumes:
  assumes "gettoken s = (tok, q, eq, r)" "skip s \<noteq> []"
  shows "length r < length s"
proof -
  obtain c t where s: "skip s = c # t" using assms(2) by (cases "skip s") auto
  consider "c \<in> set ''|();&<''" | "c = CHR ''>''" | "c \<notin> set symbols" by (auto simp: symbols_def)
  then have "length r \<le> length t"
  proof cases
    case 1
    then show ?thesis using assms(1) gettoken_sym [OF s] skip_length [of t] by auto
  next
    case 2
    then show ?thesis using assms(1) gettoken_gt [of s t] s skip_length [of "tl t"] by (auto split: if_splits)
  next
    case 3
    then have "r = skip (skip_word t)" using assms(1) gettoken_word [OF s] by auto
    then show ?thesis by (metis skip_length skip_word_length le_trans)
  qed
  then show ?thesis using skip_length [of s] s by simp
qed

lemma gettoken_end: "skip s = [] \<Longrightarrow> gettoken s = (CHR 0x00, [], [], [])"
  by (simp add: gettoken_def)

lemma gettoken_length:
  assumes "gettoken s = (tok, q, eq, r)"
  shows "length r \<le> length s"
  using gettoken_consumes [OF assms] assms by (cases "skip s = []") (auto simp: gettoken_end)

lemma peek_iff: "peek s toks = (b, r) \<longleftrightarrow> r = skip s \<and> b = (skip s \<noteq> [] \<and> hd (skip s) \<in> set toks)"
  by (auto simp: peek_def Let_def strchr_eq split: if_splits)

function parseredirs :: "pword redir list \<Rightarrow> string \<Rightarrow> pword redir list parsed" where
  "parseredirs rs ps = (case peek ps ''<>'' of (b, s) \<Rightarrow>
     if b then (case gettoken s of (tok, _, _, s) \<Rightarrow>
       (case gettoken s of (t, q, eq, s) \<Rightarrow>
         if t \<noteq> CHR ''a'' then Failed ''missing file for redirection''
         else if tok = CHR ''<'' then parseredirs (rs @ [((q, eq), 0, 0)]) s
         else if tok = CHR ''>'' then parseredirs (rs @ [((q, eq), 1 OR 0x200 OR 0x400, 1)]) s
         else parseredirs (rs @ [((q, eq), 1 OR 0x200, 1)]) s))
     else Parsed rs s)"
  by pat_completeness auto
termination
proof -
  have d: "length v < length ps"
    if "(b, s) = peek ps ''<>''" "b" "(tok, x, y, t) = gettoken s" "(t', q, eq, v) = gettoken t" for ps b s tok x y t t' q eq v
  proof -
    have s: "s = skip ps" "skip s \<noteq> []" using peek_iff [THEN iffD1, OF that(1) [symmetric]] that(2) by auto
    have "length t < length s" "length v \<le> length t"
      using gettoken_consumes [OF that(3) [symmetric] s(2)] gettoken_length [OF that(4) [symmetric]] by auto
    then show ?thesis using skip_length [of ps] unfolding s(1) [symmetric] by linarith
  qed
  show ?thesis
    by (relation "measure (\<lambda>(rs, ps). length ps)") (auto dest: d)
qed

declare parseredirs.simps [simp del]

text \<open>One iteration of the loop of \<open>parseredirs\<close>: no redirection is next, or one is.\<close>

lemma parseredirs_cases:
  obtains (stop) "skip s = [] \<or> hd (skip s) \<notin> set ''<>''" "parseredirs rs s = Parsed rs (skip s)"
  | (bad) "parseredirs rs s = Failed ''missing file for redirection''"
  | (more) q eq v m n tok x y t where "length v < length s" "gettoken (skip s) = (tok, x, y, t)" "gettoken t = (CHR ''a'', q, eq, v)"
      "parseredirs rs s = parseredirs (rs @ [((q, eq), m, n)]) v" "(m, n) \<in> {(0, 0), (0x601, 1), (0x201, 1)}"
proof -
  show thesis
  proof (cases "skip s = [] \<or> hd (skip s) \<notin> set ''<>''")
    case True
    moreover from this have "parseredirs rs s = Parsed rs (skip s)" by (subst parseredirs.simps) (auto simp: peek_def Let_def strchr_eq)
    ultimately show thesis by (rule stop)
  next
    case False
    then have b: "peek s ''<>'' = (True, skip s)" by (simp add: peek_iff)
    obtain tok x y t where g: "gettoken (skip s) = (tok, x, y, t)" by (metis prod_cases4)
    obtain t' q eq v where h: "gettoken t = (t', q, eq, v)" by (metis prod_cases4)
    note st = parseredirs.simps [of rs s, unfolded b, simplified g h prod.case if_True]
    show thesis
    proof (cases "t' = CHR ''a''")
      case True
      have "length t < length (skip s)" using gettoken_consumes [OF g] False by simp
      then have l: "length v < length s" using gettoken_length [OF h] skip_length [of s] by linarith
      show thesis
        using st True h by (intro more [OF l g, where m = "if tok = CHR ''<'' then 0 else if tok = CHR ''>'' then 0x601 else 0x201"
          and n = "if tok = CHR ''<'' then 0 else 1"]) auto
    next
      case False
      then show thesis using st by (intro bad) simp
    qed
  qed
qed

lemma parseredirs_length: "parseredirs rs s = Parsed rs' s' \<Longrightarrow> length s' \<le> length s"
proof (induction "length s" arbitrary: rs s rule: less_induct)
  case less
  show ?case
  proof (cases rule: parseredirs_cases [of s rs])
    case stop
    then show ?thesis using less.prems skip_length [of s] by simp
  next
    case bad
    then show ?thesis using less.prems by simp
  next
    case (more q eq v m n tok x y t)
    then show ?thesis using less.hyps [OF more(1)] less.prems by fastforce
  qed
qed

text \<open>The loop of \<open>parseexec\<close> over the arguments, with the redirections among them.\<close>

function parseargs :: "pword list \<Rightarrow> pword redir list \<Rightarrow> string \<Rightarrow> (pword list \<times> pword redir list) parsed" where
  "parseargs args rs ps = (case peek ps ''|)&;'' of (b, s) \<Rightarrow>
     if b then Parsed (args, rs) s
     else (case gettoken s of (tok, q, eq, s) \<Rightarrow>
       if tok = CHR 0x00 then Parsed (args, rs) s
       else if tok \<noteq> CHR ''a'' then Failed ''syntax''
       else if length args + 1 \<ge> MAXARGS then Failed ''too many args''
       else pbind (parseredirs rs s) (parseargs (args @ [(q, eq)]))))"
  by pat_completeness auto
termination
proof -
  have d: "length v < length ps"
    if "(b, s) = peek ps ''|)&;''" "(tok, q, eq, t) = gettoken s" "tok \<noteq> CHR 0x00" "parseredirs rs t = Parsed rs' v"
    for ps b s tok q eq t rs rs' v
  proof -
    have s: "s = skip ps" using peek_iff [THEN iffD1, OF that(1) [symmetric]] by auto
    have "skip s \<noteq> []" using that(2,3) gettoken_end [of s] by auto
    then show ?thesis
      using gettoken_consumes [OF that(2) [symmetric]] parseredirs_length [OF that(4)] skip_length [of ps]
      unfolding s by linarith
  qed
  show ?thesis
    by (relation "measure (\<lambda>(args, rs, ps). length ps)") (auto dest: d)
qed

declare parseargs.simps [simp del]

text \<open>The loop of \<open>parseline\<close> over trailing \<open>&\<close>.\<close>

function parsebacks :: "'a cmd \<Rightarrow> string \<Rightarrow> 'a cmd \<times> string" where
  "parsebacks c ps = (case peek ps ''&'' of (b, s) \<Rightarrow>
     if b then (case gettoken s of (_, _, _, s) \<Rightarrow> parsebacks (BackCmd c) s) else (c, s))"
  by pat_completeness auto
termination
proof -
  have d: "length t < length ps" if "(b, s) = peek ps ''&''" "b" "(tok, q, eq, t) = gettoken s" for ps b s tok q eq t
  proof -
    have s: "s = skip ps" "skip s \<noteq> []" using peek_iff [THEN iffD1, OF that(1) [symmetric]] that(2) by auto
    show ?thesis using gettoken_consumes [OF that(3) [symmetric] s(2)] skip_length [of ps] unfolding s(1) by linarith
  qed
  show ?thesis by (relation "measure (\<lambda>(c, ps). length ps)") (auto dest: d)
qed

declare parsebacks.simps [simp del]

fun parseline :: "nat \<Rightarrow> string \<Rightarrow> pword cmd parsed"
  and parsepipe :: "nat \<Rightarrow> string \<Rightarrow> pword cmd parsed"
  and parseexec :: "nat \<Rightarrow> string \<Rightarrow> pword cmd parsed"
  and parseblock :: "nat \<Rightarrow> string \<Rightarrow> pword cmd parsed" where
  "parseline 0 ps = NoFuel"
| "parseline (Suc n) ps = pbind (parsepipe n ps) (\<lambda>c ps.
     case parsebacks c ps of (c, ps) \<Rightarrow> (case peek ps '';'' of (b, ps) \<Rightarrow>
       if b then (case gettoken ps of (_, _, _, ps) \<Rightarrow> pbind (parseline n ps) (\<lambda>d ps. Parsed (ListCmd c d) ps))
       else Parsed c ps))"
| "parsepipe 0 ps = NoFuel"
| "parsepipe (Suc n) ps = pbind (parseexec n ps) (\<lambda>c ps. case peek ps ''|'' of (b, ps) \<Rightarrow>
     if b then (case gettoken ps of (_, _, _, ps) \<Rightarrow> pbind (parsepipe n ps) (\<lambda>d ps. Parsed (PipeCmd c d) ps))
     else Parsed c ps)"
| "parseexec 0 ps = NoFuel"
| "parseexec (Suc n) ps = (case peek ps ''('' of (b, ps) \<Rightarrow>
     if b then parseblock n ps
     else pbind (parseredirs [] ps) (\<lambda>rs ps. pbind (parseargs [] rs ps) (\<lambda>(args, rs) ps.
       Parsed (with_redirs (ExecCmd args) rs) ps)))"
| "parseblock 0 ps = NoFuel"
| "parseblock (Suc n) ps = (case peek ps ''('' of (b, ps) \<Rightarrow>
     if \<not> b then Failed ''parseblock''
     else (case gettoken ps of (_, _, _, ps) \<Rightarrow> pbind (parseline n ps) (\<lambda>c ps. case peek ps '')'' of (b, ps) \<Rightarrow>
       if \<not> b then Failed ''syntax - missing )''
       else (case gettoken ps of (_, _, _, ps) \<Rightarrow> pbind (parseredirs [] ps) (\<lambda>rs ps. Parsed (with_redirs c rs) ps)))))"

text \<open>
  \<open>nulterminate\<close> writes a NUL where each word ends; the buffer is the line with its NUL, and a pointer with the rest \<open>u\<close> is
  at the index \<open>n - length u\<close>, where \<open>n\<close> is the length of the line.
\<close>

fun nulterminate :: "pword cmd \<Rightarrow> string \<Rightarrow> string" where
  "nulterminate (ExecCmd args) buf = fold (\<lambda>(q, eq) buf. buf[length buf - 1 - length eq := CHR 0x00]) args buf"
| "nulterminate (RedirCmd c (q, eq) m n) buf = (nulterminate c buf)[length buf - 1 - length eq := CHR 0x00]"
| "nulterminate (PipeCmd c d) buf = nulterminate d (nulterminate c buf)"
| "nulterminate (ListCmd c d) buf = nulterminate d (nulterminate c buf)"
| "nulterminate (BackCmd c) buf = nulterminate c buf"

text \<open>What a word is as a C string in the buffer.\<close>

definition word_in :: "string \<Rightarrow> pword \<Rightarrow> string" where
  "word_in buf w = takeWhile (\<lambda>c. c \<noteq> CHR 0x00) (drop (length buf - 1 - length (fst w)) buf)"

definition parsecmd :: "string \<Rightarrow> string cmd parsed" where
  "parsecmd s = pbind (parseline (4 * length s + 4) s) (\<lambda>c ps. case peek ps [] of (_, ps) \<Rightarrow>
     if ps \<noteq> [] then Failed (''leftovers: '' @ ps @ newline @ ''syntax'')
     else Parsed (map_cmd (word_in (nulterminate c (s @ [CHR 0x00]))) c) ps)"

section \<open>Well-formed commands\<close>

definition plain :: "char \<Rightarrow> bool" where
  "plain c \<longleftrightarrow> c \<notin> set whitespace \<and> c \<notin> set symbols \<and> c \<noteq> CHR 0x00"

text \<open>
  A command is well-formed when every simple command has fewer than \<open>MAXARGS\<close> arguments, every redirection is one of
  the three the shell knows, and every word satisfies \<open>P\<close>.
\<close>

definition redir_ok :: "u32 \<Rightarrow> int \<Rightarrow> bool" where
  "redir_ok m n \<longleftrightarrow> (m, n) \<in> {(0, 0), (0x601, 1), (0x201, 1)}"

fun wf_cmd :: "('a \<Rightarrow> bool) \<Rightarrow> 'a cmd \<Rightarrow> bool" where
  "wf_cmd P (ExecCmd args) \<longleftrightarrow> length args < MAXARGS \<and> (\<forall>w \<in> set args. P w)"
| "wf_cmd P (RedirCmd c f m n) \<longleftrightarrow> wf_cmd P c \<and> P f \<and> redir_ok m n"
| "wf_cmd P (PipeCmd c d) \<longleftrightarrow> wf_cmd P c \<and> wf_cmd P d"
| "wf_cmd P (ListCmd c d) \<longleftrightarrow> wf_cmd P c \<and> wf_cmd P d"
| "wf_cmd P (BackCmd c) \<longleftrightarrow> wf_cmd P c"

definition shell_word :: "string \<Rightarrow> bool" where
  "shell_word w \<longleftrightarrow> w \<noteq> [] \<and> (\<forall>c \<in> set w. plain c)"

text \<open>A word of the line \<open>s\<close>, as the pointers to its start and its end.\<close>

definition slice :: "pword \<Rightarrow> string" where
  "slice w = take (length (fst w) - length (snd w)) (fst w)"

definition word_of :: "string \<Rightarrow> pword \<Rightarrow> bool" where
  "word_of s w \<longleftrightarrow> suffix (fst w) s \<and> fst w = slice w @ snd w \<and> shell_word (slice w) \<and>
     (snd w = [] \<or> \<not> plain (hd (snd w)))"

lemma skip_suffix: "suffix (skip s) s"
  by (induction s) (auto simp: suffix_Cons)

lemma skip_word_Cons: "CHR 0x00 \<notin> set (c # s) \<Longrightarrow> skip_word (c # s) = (if plain c then skip_word s else c # s)"
  by (auto simp: plain_def strchr_eq)

lemma skip_word_split: "CHR 0x00 \<notin> set s \<Longrightarrow> \<exists>w. s = w @ skip_word s \<and> (\<forall>c \<in> set w. plain c)"
proof (induction s)
  case (Cons c s)
  then obtain w where w: "s = w @ skip_word s" "\<forall>c \<in> set w. plain c" by auto
  show ?case
  proof (cases "plain c")
    case True
    then show ?thesis using w Cons.prems by (intro exI [of _ "c # w"]) (simp add: skip_word_Cons del: skip_word.simps)
  next
    case False
    then show ?thesis using Cons.prems by (intro exI [of _ "[]"]) (simp add: skip_word_Cons del: skip_word.simps)
  qed
qed simp

lemma skip_word_stop: "CHR 0x00 \<notin> set s \<Longrightarrow> skip_word s = [] \<or> \<not> plain (hd (skip_word s))"
proof (induction s)
  case (Cons c s)
  then show ?case by (cases "plain c") (simp_all add: skip_word_Cons del: skip_word.simps)
qed simp

lemma skip_word_suffix: "suffix (skip_word s) s"
  by (induction s) (auto simp: suffix_Cons)

lemma gettoken_suffix:
  assumes "gettoken s = (tok, q, eq, r)"
  shows "suffix r s" "skip r = r"
proof -
  show "skip r = r" using assms by (auto simp: gettoken_def Let_def split: list.splits if_splits)
  show "suffix r s"
  proof (cases "skip s")
    case Nil
    then show ?thesis using assms gettoken_end [of s] by simp
  next
    case (Cons c t)
    then have t: "suffix t s" using skip_suffix [of s] by (metis suffix_ConsD)
    have "suffix (tl t) t" by (simp add: suffix_tl)
    then have 1: "suffix (skip (tl t)) s" "suffix (skip t) s" "suffix (skip (skip_word t)) s"
      using t skip_suffix skip_word_suffix by (meson suffix_order.trans)+
    consider "c \<in> set ''|();&<''" | "c = CHR ''>''" | "c \<notin> set symbols" by (auto simp: symbols_def)
    then show ?thesis
    proof cases
      case 1
      then show ?thesis using assms gettoken_sym [OF Cons] \<open>suffix (skip t) s\<close> by auto
    next
      case 2
      then show ?thesis using assms gettoken_gt [of s t] Cons 1 by (auto split: if_splits)
    next
      case 3
      then show ?thesis using assms gettoken_word [OF Cons] 1 by auto
    qed
  qed
qed

lemma gettoken_word_of:
  assumes "gettoken t = (CHR ''a'', q, eq, v)" "suffix t s" "CHR 0x00 \<notin> set s"
  shows "word_of s (q, eq)"
proof -
  have "skip t \<noteq> []" using assms(1) gettoken_end [of t] by auto
  then obtain c r where cr: "skip t = c # r" by (cases "skip t") auto
  have sym: "c \<notin> set symbols"
  proof
    assume "c \<in> set symbols"
    then consider "c \<in> set ''|();&<''" | "c = CHR ''>''" by (auto simp: symbols_def)
    then show False
      using assms(1) gettoken_sym [OF cr] gettoken_gt [of t r] cr by cases (auto split: if_splits)
  qed
  have q: "q = c # r" "eq = skip_word r" using assms(1) gettoken_word [OF cr sym] by auto
  have suf: "suffix (c # r) s" using skip_suffix [of t] assms(2) cr by (metis suffix_order.trans)
  then have z: "CHR 0x00 \<notin> set (c # r)" using assms(3) by (meson set_mono_suffix subsetD)
  then obtain w where w: "r = w @ skip_word r" "\<forall>c \<in> set w. plain c" using skip_word_split [of r] by auto
  have "plain c" using skip_hd [OF cr] sym z by (simp add: plain_def strchr_eq split: if_splits)
  moreover have "slice (q, eq) = c # w"
    unfolding slice_def q fst_conv snd_conv by (subst (2) w(1), subst (1) w(1)) simp
  ultimately show ?thesis
    using w q suf skip_word_stop [of r] z by (auto simp: word_of_def shell_word_def)
qed

lemma parseredirs_ok:
  assumes "parseredirs rs s = Parsed rs' s'" "suffix s s0" "CHR 0x00 \<notin> set s0"
    and "\<forall>(f, m, n) \<in> set rs. word_of s0 f \<and> redir_ok m n"
  shows "suffix s' s \<and> (\<forall>(f, m, n) \<in> set rs'. word_of s0 f \<and> redir_ok m n)"
  using assms
proof (induction "length s" arbitrary: rs s rule: less_induct)
  case less
  show ?case
  proof (cases rule: parseredirs_cases [of s rs])
    case stop
    then show ?thesis using less.prems skip_suffix [of s] by simp
  next
    case bad
    then show ?thesis using less.prems by simp
  next
    case (more q eq v m n tok x y t)
    have t: "suffix t s" using gettoken_suffix(1) [OF more(2)] skip_suffix [of s] by (meson suffix_order.trans)
    have v: "suffix v s" using gettoken_suffix(1) [OF more(3)] t by (meson suffix_order.trans)
    have w: "word_of s0 (q, eq)"
      using gettoken_word_of [OF more(3) _ less.prems(3)] t less.prems(2) by (meson suffix_order.trans)
    have "suffix s' v \<and> (\<forall>(f, m, n) \<in> set rs'. word_of s0 f \<and> redir_ok m n)"
      by (rule less.hyps [OF more(1), of "rs @ [((q, eq), m, n)]"])
        (use less.prems more(4,5) w v in \<open>auto simp: redir_ok_def intro: suffix_order.trans\<close>)
    then show ?thesis using v by (meson suffix_order.trans)
  qed
qed

lemma parseargs_cases:
  obtains (stop) r where "parseargs args rs s = Parsed (args, rs) r" "suffix r s"
  | (bad) e where "parseargs args rs s = Failed e"
  | (more) q eq t where "gettoken (skip s) = (CHR ''a'', q, eq, t)" "length t < length s" "length args + 1 < MAXARGS"
      "parseargs args rs s = pbind (parseredirs rs t) (parseargs (args @ [(q, eq)]))"
proof -
  obtain tok q eq t where g: "gettoken (skip s) = (tok, q, eq, t)" by (metis prod_cases4)
  define b where "b = (skip s \<noteq> [] \<and> hd (skip s) \<in> set ''|)&;'')"
  have p: "peek s ''|)&;'' = (b, skip s)" by (auto simp: peek_iff b_def)
  note st = parseargs.simps [of args rs s, unfolded p prod.case g]
  have t: "suffix t s" using gettoken_suffix(1) [OF g] skip_suffix [of s] by (meson suffix_order.trans)
  consider "b" | "\<not> b" "tok = CHR 0x00" | "\<not> b" "tok \<noteq> CHR 0x00" "tok \<noteq> CHR ''a'' \<or> length args + 1 \<ge> MAXARGS"
    | "\<not> b" "tok = CHR ''a''" "length args + 1 < MAXARGS" by linarith
  then show thesis
  proof cases
    case 4
    have "skip (skip s) \<noteq> []" using g 4(2) gettoken_end [of "skip s"] by auto
    then have "length t < length s" by (rule less_le_trans [OF gettoken_consumes [OF g] skip_length])
    then show thesis using st 4 g by (intro more) auto
  qed (use st t skip_suffix [of s] in \<open>auto intro: stop bad split: if_splits\<close>)
qed

lemma parseargs_ok:
  assumes "parseargs args rs s = Parsed (args', rs') s'" "suffix s s0" "CHR 0x00 \<notin> set s0"
    and "\<forall>w \<in> set args. word_of s0 w" "length args < MAXARGS" "\<forall>(f, m, n) \<in> set rs. word_of s0 f \<and> redir_ok m n"
  shows "suffix s' s \<and> (\<forall>w \<in> set args'. word_of s0 w) \<and> length args' < MAXARGS \<and> (\<forall>(f, m, n) \<in> set rs'. word_of s0 f \<and> redir_ok m n)"
  using assms
proof (induction "length s" arbitrary: args rs s rule: less_induct)
  case less
  show ?case
  proof (cases rule: parseargs_cases [of args rs s])
    case stop
    then show ?thesis using less.prems by simp
  next
    case bad
    then show ?thesis using less.prems by simp
  next
    case (more q eq t)
    have t: "suffix t s" using gettoken_suffix(1) [OF more(1)] skip_suffix [of s] by (meson suffix_order.trans)
    have w: "word_of s0 (q, eq)"
      using gettoken_word_of [OF more(1) _ less.prems(3)] skip_suffix [of s] less.prems(2) by (meson suffix_order.trans)
    obtain rs1 t1 where r: "parseredirs rs t = Parsed rs1 t1" "parseargs (args @ [(q, eq)]) rs1 t1 = Parsed (args', rs') s'"
      using more(4) less.prems(1) by (cases "parseredirs rs t") auto
    have t0: "suffix t s0" using t less.prems(2) by (meson suffix_order.trans)
    have t1: "suffix t1 t" "\<forall>(f, m, n) \<in> set rs1. word_of s0 f \<and> redir_ok m n"
      using parseredirs_ok [OF r(1) t0 less.prems(3,6)] by auto
    have "suffix s' t1 \<and> (\<forall>w \<in> set args'. word_of s0 w) \<and> length args' < MAXARGS \<and> (\<forall>(f, m, n) \<in> set rs'. word_of s0 f \<and> redir_ok m n)"
    proof (rule less.hyps [OF _ r(2)])
      show "length t1 < length s" using parseredirs_length [OF r(1)] more(2) by simp
      show "suffix t1 s0" using t1(1) t0 by (meson suffix_order.trans)
    qed (use less.prems w t1 more(3) in auto)
    then show ?thesis using t1(1) t by (meson suffix_order.trans)
  qed
qed

lemma parsebacks_ok: "parsebacks c s = (d, r) \<Longrightarrow> wf_cmd P d = wf_cmd P c \<and> suffix r s"
proof (induction "length s" arbitrary: c s rule: less_induct)
  case less
  define b where "b = (skip s \<noteq> [] \<and> hd (skip s) = CHR ''&'')"
  have p: "peek s ''&'' = (b, skip s)" by (auto simp: peek_iff b_def)
  obtain tok q eq t where g: "gettoken (skip s) = (tok, q, eq, t)" by (metis prod_cases4)
  note st = parsebacks.simps [of c s, unfolded p prod.case g]
  show ?case
  proof (cases b)
    case True
    then have "skip (skip s) \<noteq> []" by (simp add: b_def)
    then have "length t < length s" by (rule less_le_trans [OF gettoken_consumes [OF g] skip_length])
    from less.hyps [OF this, of "BackCmd c"] show ?thesis
      using True st less.prems gettoken_suffix(1) [OF g] skip_suffix [of s] by (auto intro: suffix_order.trans)
  next
    case False
    then show ?thesis using st less.prems skip_suffix [of s] by auto
  qed
qed

lemma with_redirs_wf: "wf_cmd P (with_redirs c rs) \<longleftrightarrow> wf_cmd P c \<and> (\<forall>(f, m, n) \<in> set rs. P f \<and> redir_ok m n)"
  unfolding with_redirs_def by (induction rs arbitrary: c) auto

lemma pbind_Parsed: "pbind p f = Parsed c r \<longleftrightarrow> (\<exists>a s. p = Parsed a s \<and> f a s = Parsed c r)"
  by (cases p) auto

lemma peekE:
  obtains b where "peek s toks = (b, skip s)" "b \<longleftrightarrow> skip s \<noteq> [] \<and> hd (skip s) \<in> set toks"
  by (auto simp: peek_iff)

lemma tokenE:
  obtains tok q eq t where "gettoken (skip s) = (tok, q, eq, t)" "suffix t s"
proof -
  obtain tok q eq t where g: "gettoken (skip s) = (tok, q, eq, t)" by (metis prod_cases4)
  show thesis by (rule that [OF g]) (meson gettoken_suffix(1) [OF g] skip_suffix suffix_order.trans)
qed

lemma parse_ok:
  assumes "CHR 0x00 \<notin> set s0"
  shows "parseline n ps = Parsed c r \<Longrightarrow> suffix ps s0 \<Longrightarrow> wf_cmd (word_of s0) c \<and> suffix r ps"
    and "parsepipe n ps = Parsed c r \<Longrightarrow> suffix ps s0 \<Longrightarrow> wf_cmd (word_of s0) c \<and> suffix r ps"
    and "parseexec n ps = Parsed c r \<Longrightarrow> suffix ps s0 \<Longrightarrow> wf_cmd (word_of s0) c \<and> suffix r ps"
    and "parseblock n ps = Parsed c r \<Longrightarrow> suffix ps s0 \<Longrightarrow> wf_cmd (word_of s0) c \<and> suffix r ps"
proof (induction n arbitrary: ps c r)
  case (Suc n)
  {
    case 1
    obtain c1 s1 where 2: "parsepipe n ps = Parsed c1 s1"
      using 1(1) by (auto simp: pbind_Parsed)
    obtain c2 s2 where 3: "parsebacks c1 s1 = (c2, s2)" by fastforce
    obtain b where 4: "peek s2 '';'' = (b, skip s2)" by (rule peekE)
    obtain tok q eq s3 where 5: "gettoken (skip s2) = (tok, q, eq, s3)" "suffix s3 s2" by (rule tokenE)
    have ok: "wf_cmd (word_of s0) c2" "suffix s2 ps"
      using Suc.IH(2) [OF 2 1(2)] parsebacks_ok [OF 3] by (auto intro: suffix_order.trans)
    show ?case
    proof (cases b)
      case True
      then obtain c3 where "parseline n s3 = Parsed c3 r" "c = ListCmd c2 c3"
        using 1(1) 2 3 4 5(1) by (auto simp: pbind_Parsed)
      moreover have "suffix s3 s0" using 5(2) ok(2) 1(2) by (meson suffix_order.trans)
      ultimately show ?thesis using Suc.IH(1) [of s3 c3 r] ok 5(2) by (auto intro: suffix_order.trans)
    next
      case False
      then show ?thesis using 1(1) 2 3 4 ok skip_suffix [of s2] by (auto intro: suffix_order.trans)
    qed
  next
    case 2
    obtain c1 s1 where 1: "parseexec n ps = Parsed c1 s1"
      using 2(1) by (auto simp: pbind_Parsed)
    obtain b where 4: "peek s1 ''|'' = (b, skip s1)" by (rule peekE)
    obtain tok q eq s3 where 5: "gettoken (skip s1) = (tok, q, eq, s3)" "suffix s3 s1" by (rule tokenE)
    have ok: "wf_cmd (word_of s0) c1" "suffix s1 ps" using Suc.IH(3) [OF 1 2(2)] by auto
    show ?case
    proof (cases b)
      case True
      then obtain c3 where "parsepipe n s3 = Parsed c3 r" "c = PipeCmd c1 c3"
        using 2(1) 1 4 5(1) by (auto simp: pbind_Parsed)
      moreover have "suffix s3 s0" using 5(2) ok(2) 2(2) by (meson suffix_order.trans)
      ultimately show ?thesis using Suc.IH(2) [of s3 c3 r] ok 5(2) by (auto intro: suffix_order.trans)
    next
      case False
      then show ?thesis using 2(1) 1 4 ok skip_suffix [of s1] by (auto intro: suffix_order.trans)
    qed
  next
    case 3
    obtain b where 4: "peek ps ''('' = (b, skip ps)" by (rule peekE)
    have sk: "suffix (skip ps) s0" "suffix (skip ps) ps" using skip_suffix [of ps] 3(2) by (auto intro: suffix_order.trans)
    show ?case
    proof (cases b)
      case True
      then show ?thesis using 3(1) 4 Suc.IH(4) [of "skip ps" c r] sk by (auto intro: suffix_order.trans)
    next
      case False
      then obtain rs s1 args rs' where 5: "parseredirs [] (skip ps) = Parsed rs s1" "parseargs [] rs s1 = Parsed (args, rs') r"
          "c = with_redirs (ExecCmd args) rs'"
        using 3(1) 4 by (auto simp: pbind_Parsed)
      have s1: "suffix s1 (skip ps)" "\<forall>(f, m, n) \<in> set rs. word_of s0 f \<and> redir_ok m n"
        using parseredirs_ok [OF 5(1) sk(1) assms] by auto
      have "suffix s1 s0" using s1(1) sk(1) by (meson suffix_order.trans)
      then show ?thesis
        using parseargs_ok [OF 5(2) _ assms] s1 5(3) sk(2) by (auto simp: with_redirs_wf intro: suffix_order.trans)
    qed
  next
    case 4
    obtain b where 1: "peek ps ''('' = (b, skip ps)" by (rule peekE)
    obtain tok q eq s1 where 2: "gettoken (skip ps) = (tok, q, eq, s1)" "suffix s1 ps" by (rule tokenE)
    obtain c1 s2 where 3: "parseline n s1 = Parsed c1 s2"
      using 4(1) 1 2 by (auto simp: pbind_Parsed split: if_splits)
    obtain b' where 5: "peek s2 '')'' = (b', skip s2)" by (rule peekE)
    obtain tok q eq s3 where 6: "gettoken (skip s2) = (tok, q, eq, s3)" "suffix s3 s2" by (rule tokenE)
    obtain rs where 7: "parseredirs [] s3 = Parsed rs r" "c = with_redirs c1 rs"
      using 4(1) 1 2 3 5 6 by (auto simp: pbind_Parsed split: if_splits)
    have ok: "wf_cmd (word_of s0) c1" "suffix s2 s1"
      using Suc.IH(1) [OF 3] 2(2) 4(2) by (auto intro: suffix_order.trans)
    have s3: "suffix s3 ps" "suffix s3 s0" using 6(2) ok(2) 2(2) 4(2) by (meson suffix_order.trans)+
    show ?case
      using parseredirs_ok [OF 7(1) s3(2) assms] ok(1) 7(2) s3(1) by (auto simp: with_redirs_wf intro: suffix_order.trans)
  }
qed simp_all

section \<open>The parser always ends\<close>

lemma pbind_NoFuel: "pbind p f = NoFuel \<longleftrightarrow> p = NoFuel \<or> (\<exists>a s. p = Parsed a s \<and> f a s = NoFuel)"
  by (cases p) auto

lemma parseredirs_fuel: "parseredirs rs s \<noteq> NoFuel"
proof (induction "length s" arbitrary: rs s rule: less_induct)
  case less
  show ?case by (cases rule: parseredirs_cases [of s rs]) (auto dest: less.hyps)
qed

lemma parseargs_fuel: "parseargs args rs s \<noteq> NoFuel"
proof (induction "length s" arbitrary: args rs s rule: less_induct)
  case less
  show ?case
  proof (cases rule: parseargs_cases [of args rs s])
    case (more q eq t)
    have "parseargs (args @ [(q, eq)]) rs1 t1 \<noteq> NoFuel" if "parseredirs rs t = Parsed rs1 t1" for rs1 t1
      using less.hyps [of t1] parseredirs_length [OF that] more(2) by simp
    then show ?thesis using parseredirs_fuel [of rs t] more(4) by (auto simp: pbind_NoFuel)
  qed auto
qed

lemma token_shorter:
  assumes "peek s toks = (b, skip s)" "b" "gettoken (skip s) = (tok, q, eq, t)"
  shows "length t < length s"
  using less_le_trans [OF gettoken_consumes [OF assms(3)] skip_length] assms(1,2) by (auto simp: peek_iff)

lemma parse_fuel:
  assumes "CHR 0x00 \<notin> set ps"
  shows "4 * length ps + 4 \<le> n \<Longrightarrow> parseline n ps \<noteq> NoFuel"
    and "4 * length ps + 3 \<le> n \<Longrightarrow> parsepipe n ps \<noteq> NoFuel"
    and "4 * length ps + 2 \<le> n \<Longrightarrow> parseexec n ps \<noteq> NoFuel"
    and "4 * length ps + 1 \<le> n \<Longrightarrow> parseblock n ps \<noteq> NoFuel"
  using assms
proof (induction n arbitrary: ps)
  case (Suc n)
  have z: "CHR 0x00 \<notin> set t" if "suffix t s" "CHR 0x00 \<notin> set s" for t s :: string
    using that by (meson set_mono_suffix subsetD)
  {
    case 1
    show ?case
    proof
      assume nf: "parseline (Suc n) ps = NoFuel"
      have "parsepipe n ps \<noteq> NoFuel" using Suc.IH(2) [of ps] 1 by simp
      then obtain c1 s1 where 2: "parsepipe n ps = Parsed c1 s1" using nf by (auto simp: pbind_NoFuel)
      obtain c2 s2 where 3: "parsebacks c1 s1 = (c2, s2)" by fastforce
      obtain b where 4: "peek s2 '';'' = (b, skip s2)" by (rule peekE)
      obtain tok q eq s3 where 5: "gettoken (skip s2) = (tok, q, eq, s3)" "suffix s3 s2" by (rule tokenE)
      have b: "b" "parseline n s3 = NoFuel" using nf 2 3 4 5(1) by (auto simp: pbind_NoFuel split: if_splits)
      have "suffix s2 ps"
        using parse_ok(2) [OF 1(2) 2] parsebacks_ok [OF 3] by (auto intro: suffix_order.trans)
      then have "length s3 < length ps" "suffix s3 ps"
        using token_shorter [OF 4 b(1) 5(1)] 5(2) suffix_length_le [of s2 ps] by (auto intro: suffix_order.trans)
      then show False using Suc.IH(1) [of s3] b(2) 1 z by simp
    qed
  next
    case 2
    show ?case
    proof
      assume nf: "parsepipe (Suc n) ps = NoFuel"
      have "parseexec n ps \<noteq> NoFuel" using Suc.IH(3) [of ps] 2 by simp
      then obtain c1 s1 where 3: "parseexec n ps = Parsed c1 s1" using nf by (auto simp: pbind_NoFuel)
      obtain b where 4: "peek s1 ''|'' = (b, skip s1)" by (rule peekE)
      obtain tok q eq s3 where 5: "gettoken (skip s1) = (tok, q, eq, s3)" "suffix s3 s1" by (rule tokenE)
      have b: "b" "parsepipe n s3 = NoFuel" using nf 3 4 5(1) by (auto simp: pbind_NoFuel split: if_splits)
      have "suffix s1 ps" using parse_ok(3) [OF 2(2) 3] by auto
      then have "length s3 < length ps" "suffix s3 ps"
        using token_shorter [OF 4 b(1) 5(1)] 5(2) suffix_length_le [of s1 ps] by (auto intro: suffix_order.trans)
      then show False using Suc.IH(2) [of s3] b(2) 2 z by simp
    qed
  next
    case 3
    obtain b where 4: "peek ps ''('' = (b, skip ps)" by (rule peekE)
    have "4 * length (skip ps) + 1 \<le> n" using 3(1) skip_length [of ps] by linarith
    then have "parseblock n (skip ps) \<noteq> NoFuel" using Suc.IH(4) [of "skip ps"] z [OF skip_suffix 3(2)] by simp
    then show ?case
      using 4 parseredirs_fuel parseargs_fuel by (auto simp: pbind_NoFuel)
  next
    case 4
    show ?case
    proof
      assume nf: "parseblock (Suc n) ps = NoFuel"
      obtain b where 1: "peek ps ''('' = (b, skip ps)" by (rule peekE)
      obtain tok q eq s1 where 2: "gettoken (skip ps) = (tok, q, eq, s1)" "suffix s1 ps" by (rule tokenE)
      have b: "b" using nf 1 by (auto split: if_splits)
      then have "parseline n s1 \<noteq> NoFuel"
        using Suc.IH(1) [of s1] token_shorter [OF 1 _ 2(1)] 4 z [OF 2(2)] by simp
      then obtain c s2 where 3: "parseline n s1 = Parsed c s2" using nf 1 2(1) b by (auto simp: pbind_NoFuel)
      obtain b' where 5: "peek s2 '')'' = (b', skip s2)" by (rule peekE)
      obtain tok q eq s3 where "gettoken (skip s2) = (tok, q, eq, s3)" by (rule tokenE)
      then show False using nf 1 2(1) b 3 5 parseredirs_fuel by (auto simp: pbind_NoFuel split: if_splits)
    qed
  }
qed simp_all

text \<open>What a parsed line is, after \<open>nulterminate\<close>.\<close>

lemma nulterminate_length [simp]: "length (nulterminate c buf) = length buf"
proof (induction c buf rule: nulterminate.induct)
  case (1 args buf)
  show ?case by (induction args arbitrary: buf) (auto simp: case_prod_beta)
qed auto

lemma nulterminate_nth:
  "i < length buf \<Longrightarrow> nulterminate c buf ! i =
     (if \<exists>w \<in> set_cmd c. i = length buf - 1 - length (snd w) then CHR 0x00 else buf ! i)"
proof (induction c buf rule: nulterminate.induct)
  case (1 args buf)
  then show ?case
    by (induction args arbitrary: buf) (auto simp: case_prod_beta nth_list_update)
qed (auto simp: nth_list_update)

lemma suffix_hd: "suffix e s \<Longrightarrow> e \<noteq> [] \<Longrightarrow> s ! (length s - length e) = hd e"
  by (auto simp: suffix_def nth_append hd_conv_nth)

lemma word_in_slice:
  assumes "\<And>w. w \<in> set_cmd c \<Longrightarrow> word_of s w" "w \<in> set_cmd c"
  shows "word_in (nulterminate c (s @ [CHR 0x00])) w = slice w"
proof -
  let ?v = "slice w" and ?b = "nulterminate c (s @ [CHR 0x00])"
  obtain q eq where w: "w = (q, eq)" by fastforce
  have ok: "suffix q s" "q = ?v @ eq" "\<forall>c \<in> set ?v. plain c" using assms(1) [OF assms(2)] w by (auto simp: word_of_def shell_word_def)
  then obtain p where p: "s = p @ ?v @ eq" by (auto simp: suffix_def)
  let ?d = "drop (length s - length q) ?b"
  have lq: "length s - length q = length p" using p ok(2) by (metis add_diff_cancel_right' length_append)
  have keep: "?d ! k = ?v ! k" if "k < length ?v" for k
  proof -
    have k: "length p + k < length s" "s ! (length p + k) = ?v ! k" using that p by (metis add_less_cancel_left length_append trans_less_add1 add.assoc, metis nth_append_length_plus nth_append)
    have "length p + k \<noteq> length s - length e" if "(q', e) \<in> set_cmd c" for q' e
    proof
      assume eq: "length p + k = length s - length e"
      have o: "suffix q' s" "q' = slice (q', e) @ e" "e = [] \<or> \<not> plain (hd e)" using assms(1) [OF that] by (auto simp: word_of_def)
      have "suffix e s" using o(1,2) by (metis suffixI suffix_order.trans)
      moreover have "e \<noteq> []" using eq k(1) by auto
      ultimately have "\<not> plain (?v ! k)" using suffix_hd [of e s] o(3) eq k(2) by simp
      then show False using ok(3) \<open>k < length ?v\<close> by simp
    qed
    then show ?thesis using k unfolding lq by (simp add: nulterminate_nth nth_append) force
  qed
  have e: "?d ! length ?v = CHR 0x00" "length ?v < length ?d"
  proof -
    have l: "length s = length p + length ?v + length eq" using arg_cong [OF p, of length] by simp
    show "length ?v < length ?d" unfolding lq using l by simp
    have "length s - length eq = length p + length ?v" using l by simp
    then show "?d ! length ?v = CHR 0x00" using assms(2) w l unfolding lq by (force simp: nulterminate_nth)
  qed
  have "?d = take (length ?v) ?d @ ?d ! length ?v # drop (Suc (length ?v)) ?d" by (rule id_take_nth_drop [OF e(2)])
  moreover have "take (length ?v) ?d = ?v" using keep e(2) by (intro nth_equalityI) auto
  ultimately have "?d = ?v @ CHR 0x00 # drop (Suc (length ?v)) ?d" using e(1) by simp
  moreover have "takeWhile (\<lambda>c. c \<noteq> CHR 0x00) (?v @ CHR 0x00 # r) = ?v" for r
    using ok(3) by (subst takeWhile_append2) (auto simp: plain_def)
  ultimately have "takeWhile (\<lambda>c. c \<noteq> CHR 0x00) ?d = ?v" by simp
  then show ?thesis by (simp add: word_in_def w)
qed

lemma wf_cmd_words: "wf_cmd P c \<Longrightarrow> w \<in> set_cmd c \<Longrightarrow> P w"
  by (induction c) auto

lemma wf_cmd_map: "wf_cmd P (map_cmd f c) \<longleftrightarrow> wf_cmd (\<lambda>w. P (f w)) c"
  by (induction c) auto

lemma wf_cmd_mono: "wf_cmd P c \<Longrightarrow> (\<And>w. P w \<Longrightarrow> Q w) \<Longrightarrow> wf_cmd Q c"
  by (induction c) auto

lemma parsecmd_slices:
  assumes "CHR 0x00 \<notin> set s" "parseline (4 * length s + 4) s = Parsed c r"
  shows "parsecmd s = (if skip r = [] then Parsed (map_cmd slice c) [] else Failed (''leftovers: '' @ skip r @ newline @ ''syntax''))"
    "wf_cmd (word_of s) c"
proof -
  show wf: "wf_cmd (word_of s) c" using parse_ok(1) [OF assms] by simp
  have "map_cmd (word_in (nulterminate c (s @ [CHR 0x00]))) c = map_cmd slice c"
    by (rule cmd.map_cong0) (rule word_in_slice, rule wf_cmd_words [OF wf])
  then show "parsecmd s = (if skip r = [] then Parsed (map_cmd slice c) [] else Failed (''leftovers: '' @ skip r @ newline @ ''syntax''))"
    using assms(2) by (simp add: parsecmd_def peek_def Let_def)
qed



end
