(* ===== verification/User_Syntax.thy ===== *)
theory User_Syntax
  imports User_Shell
begin

text \<open>
  The written form of shell commands, and that the parser of src/user/sh.c (theory User_Shell) reads it back.
\<close>

section \<open>Writing a command\<close>

declare skip.simps(2) [simp del]

text \<open>
  The written form of a command at each level of the grammar: a line, a command followed by \<open>&\<close>, a pipeline,
  and a simple command or a command in parentheses, with its redirections.
\<close>

definition redir_text :: "string redir \<Rightarrow> string" where
  "redir_text r = (case r of (f, m, n) \<Rightarrow> (if n = 0 then ''<'' else if m = 0x601 then ''>'' else ''>>'') @ f @ '' '')"

definition words_text :: "string list \<Rightarrow> string" where
  "words_text ws = concat (map (\<lambda>w. w @ '' '') ws)"

fun show_line :: "string cmd \<Rightarrow> string"
  and show_back :: "string cmd \<Rightarrow> string"
  and show_pipe :: "string cmd \<Rightarrow> string"
  and show_exec :: "string cmd \<Rightarrow> string" where
  "show_line (ListCmd c d) = show_back c @ '';'' @ show_line d"
| "show_line c = show_back c"
| "show_back (BackCmd c) = show_back c @ ''&''"
| "show_back c = show_pipe c"
| "show_pipe (PipeCmd c d) = show_exec c @ ''|'' @ show_pipe d"
| "show_pipe c = show_exec c"
| "show_exec (ExecCmd ws) = words_text ws"
| "show_exec (RedirCmd c f m n) = show_exec c @ redir_text (f, m, n)"
| "show_exec (PipeCmd c d) = ''('' @ show_exec c @ ''|'' @ show_pipe d @ '')''"
| "show_exec (ListCmd c d) = ''('' @ show_back c @ '';'' @ show_line d @ '')''"
| "show_exec (BackCmd c) = ''('' @ show_back c @ ''&'' @ '')''"

definition follows :: "string \<Rightarrow> string \<Rightarrow> bool" where
  "follows toks s \<longleftrightarrow> skip s = [] \<or> hd (skip s) \<in> set toks"

lemma peek_skip [simp]: "peek (skip s) toks = peek s toks"
  by (simp add: peek_def)

lemma parse_skip:
  "parseredirs rs (skip s) = parseredirs rs s" "parseargs args rs (skip s) = parseargs args rs s"
  "parsebacks c (skip s) = parsebacks c s" "parseline n (skip s) = parseline n s"
  "parsepipe n (skip s) = parsepipe n s" "parseexec n (skip s) = parseexec n s"
proof -
  show "parseredirs rs (skip s) = parseredirs rs s" by (simp add: parseredirs.simps [of rs "skip s"] parseredirs.simps [of rs s])
  show "parseargs args rs (skip s) = parseargs args rs s" by (simp add: parseargs.simps [of args rs "skip s"] parseargs.simps [of args rs s])
  show "parsebacks c (skip s) = parsebacks c s" by (simp add: parsebacks.simps [of c "skip s"] parsebacks.simps [of c s])
  have e: "parseexec n (skip s) = parseexec n s" for n by (cases n) simp_all
  have p: "parsepipe n (skip s) = parsepipe n s" for n by (cases n) (simp_all add: e)
  show "parseexec n (skip s) = parseexec n s" "parsepipe n (skip s) = parsepipe n s" by (rule e, rule p)
  show "parseline n (skip s) = parseline n s" by (cases n) (simp_all add: p)
qed

lemma skip_black: "c \<notin> set whitespace \<Longrightarrow> skip (c # s) = c # s"
  by (simp add: skip.simps strchr_eq)

lemma skip_space [simp]: "skip (CHR 0x20 # s) = skip s"
  by (simp add: skip.simps whitespace_def)

lemma symbol_black: "c \<in> set symbols \<Longrightarrow> c \<notin> set whitespace"
  by (auto simp: symbols_def whitespace_def)

lemma skip_symbol: "c \<in> set symbols \<Longrightarrow> skip (c # s) = c # s"
  by (rule skip_black [OF symbol_black])

lemma skip_word_text: "\<forall>c \<in> set w. plain c \<Longrightarrow> skip_word (w @ CHR 0x20 # t) = CHR 0x20 # t"
  by (induction w) (auto simp: plain_def strchr_eq whitespace_def)

lemma word_first:
  assumes "shell_word w"
  obtains c v where "w = c # v" "c \<notin> set whitespace" "c \<notin> set symbols" "\<forall>c \<in> set v. plain c"
  using assms by (cases w) (auto simp: shell_word_def plain_def)

lemma gettoken_text:
  assumes "shell_word w"
  shows "gettoken (w @ CHR 0x20 # t) = (CHR ''a'', w @ CHR 0x20 # t, CHR 0x20 # t, skip t)" "skip (w @ t) = w @ t"
proof -
  obtain c v where w: "w = c # v" "c \<notin> set whitespace" "c \<notin> set symbols" "\<forall>c \<in> set v. plain c"
    using assms by (rule word_first)
  show "skip (w @ t) = w @ t" using w by (simp add: skip_black)
  have "skip (w @ CHR 0x20 # t) = c # v @ CHR 0x20 # t" using w by (simp add: skip_black)
  from gettoken_word [OF this w(3)] show "gettoken (w @ CHR 0x20 # t) = (CHR ''a'', w @ CHR 0x20 # t, CHR 0x20 # t, skip t)"
    using w by (simp add: skip_word_text)
qed

lemma slice_text [simp]: "slice (w @ t, t) = w"
  by (simp add: slice_def)

definition slice_redir :: "pword redir \<Rightarrow> string redir" where
  "slice_redir r = (case r of (f, m, n) \<Rightarrow> (slice f, m, n))"

lemma redir_step:
  assumes "shell_word f" "redir_ok m n"
  shows "parseredirs rs (redir_text (f, m, n) @ t) = parseredirs (rs @ [((f @ CHR 0x20 # t, CHR 0x20 # t), m, n)]) t"
proof -
  note g = gettoken_text [OF assms(1)]
  obtain c v where f: "f = c # v" "c \<notin> set symbols" using assms(1) by (rule word_first)
  have s: "skip (CHR ''<'' # u) = CHR ''<'' # u" "skip (CHR ''>'' # u) = CHR ''>'' # u" for u
    by (simp_all add: skip_symbol symbols_def)
  have c: "c \<noteq> CHR ''>''" using f(2) by (auto simp: symbols_def)
  have t1: "gettoken (CHR ''<'' # f @ CHR 0x20 # t) = (CHR ''<'', CHR ''<'' # f @ CHR 0x20 # t, f @ CHR 0x20 # t, f @ CHR 0x20 # t)"
    using gettoken_sym [OF s(1)] g(2) by simp
  have t2: "gettoken (CHR ''>'' # f @ CHR 0x20 # t) = (CHR ''>'', CHR ''>'' # f @ CHR 0x20 # t, f @ CHR 0x20 # t, f @ CHR 0x20 # t)"
    using gettoken_gt [OF s(2), of "f @ CHR 0x20 # t"] g(2) f(1) c by simp
  have t3: "gettoken (CHR ''>'' # CHR ''>'' # f @ CHR 0x20 # t) = (CHR ''+'', CHR ''>'' # CHR ''>'' # f @ CHR 0x20 # t, f @ CHR 0x20 # t, f @ CHR 0x20 # t)"
    using gettoken_gt [OF s(2), of "CHR ''>'' # f @ CHR 0x20 # t"] g(2) by simp
  have pk: "peek (CHR ''<'' # u) ''<>'' = (True, CHR ''<'' # u)" "peek (CHR ''>'' # u) ''<>'' = (True, CHR ''>'' # u)" for u
    using s by (simp_all add: peek_def)
  show ?thesis
    using assms(2) unfolding redir_ok_def
    by (auto simp: redir_text_def parseredirs.simps [of rs "CHR ''<'' # f @ CHR 0x20 # t"] parseredirs.simps [of rs "CHR ''>'' # f @ CHR 0x20 # t"]
        parseredirs.simps [of rs "CHR ''>'' # CHR ''>'' # f @ CHR 0x20 # t"] pk t1 t2 t3 g(1) parse_skip)
qed

definition redirs_text :: "string redir list \<Rightarrow> string" where
  "redirs_text rs = concat (map redir_text rs)"

lemma redirs_parse:
  assumes "\<forall>(f, m, n) \<in> set rs. shell_word f \<and> redir_ok m n" "follows ''|)&;'' t"
  shows "\<exists>rs'. parseredirs ps (redirs_text rs @ t) = Parsed (ps @ rs') (skip t) \<and> map slice_redir rs' = rs"
  using assms(1)
proof (induction rs arbitrary: ps)
  case Nil
  have "parseredirs ps t = Parsed ps (skip t)"
    using assms(2) by (subst parseredirs.simps) (auto simp: peek_def Let_def strchr_eq follows_def)
  then show ?case by (intro exI [of _ "[]"]) (simp add: redirs_text_def)
next
  case (Cons r rs)
  obtain f m n where r: "r = (f, m, n)" by (cases r)
  let ?u = "redirs_text rs @ t"
  obtain rs' where "parseredirs (ps @ [((f @ CHR 0x20 # ?u, CHR 0x20 # ?u), m, n)]) ?u =
      Parsed ((ps @ [((f @ CHR 0x20 # ?u, CHR 0x20 # ?u), m, n)]) @ rs') (skip t)" "map slice_redir rs' = rs"
    using Cons.IH [of "ps @ [((f @ CHR 0x20 # ?u, CHR 0x20 # ?u), m, n)]"] Cons.prems by auto
  then show ?case
    using redir_step [of f m n ps ?u] Cons.prems
    by (intro exI [of _ "((f @ CHR 0x20 # ?u, CHR 0x20 # ?u), m, n) # rs'"]) (auto simp: r redirs_text_def slice_redir_def)
qed

lemma parseredirs_word:
  assumes "shell_word w" shows "parseredirs ps (w @ t) = Parsed ps (w @ t)"
proof -
  obtain c v where "w = c # v" "c \<notin> set symbols" using assms by (rule word_first)
  then show ?thesis
    using gettoken_text(2) [OF assms, of t]
    by (subst parseredirs.simps) (auto simp: peek_def Let_def strchr_eq symbols_def)
qed

lemma parseargs_stop: "follows ''|)&;'' t \<Longrightarrow> parseargs args rs t = Parsed (args, rs) (skip t)"
  by (subst parseargs.simps) (auto simp: peek_def Let_def strchr_eq follows_def gettoken_end)

lemma parseargs_word:
  assumes "shell_word w" "length args + 1 < MAXARGS"
  shows "parseargs args rs (w @ CHR 0x20 # t) = pbind (parseredirs rs t) (parseargs (args @ [(w @ CHR 0x20 # t, CHR 0x20 # t)]))"
proof -
  obtain c v where c: "w = c # v" "c \<notin> set symbols" using assms(1) by (rule word_first)
  have "peek (w @ CHR 0x20 # t) ''|)&;'' = (False, w @ CHR 0x20 # t)"
    using gettoken_text(2) [OF assms(1), of "CHR 0x20 # t"] c by (auto simp: peek_iff symbols_def)
  then show ?thesis
    using assms(2) gettoken_text(1) [OF assms(1)] by (subst parseargs.simps) (simp add: parse_skip)
qed

lemma args_parse:
  assumes "\<forall>w \<in> set ws. shell_word w" "ws \<noteq> []" "length args + length ws < MAXARGS"
    and "\<forall>(f, m, n) \<in> set rs. shell_word f \<and> redir_ok m n" "follows ''|)&;'' t"
  shows "\<exists>args' rs'. parseargs args [] (words_text ws @ redirs_text rs @ t) = Parsed (args @ args', rs') (skip t) \<and>
    map slice args' = ws \<and> map slice_redir rs' = rs"
  using assms(1-3)
proof (induction ws arbitrary: args)
  case (Cons w ws)
  let ?u = "words_text ws @ redirs_text rs @ t"
  let ?w = "(w @ CHR 0x20 # ?u, CHR 0x20 # ?u)"
  have st: "parseargs args [] (words_text (w # ws) @ redirs_text rs @ t) = pbind (parseredirs [] ?u) (parseargs (args @ [?w]))"
    using parseargs_word [of w args "[]" ?u] Cons.prems by (simp add: words_text_def)
  show ?case
  proof (cases ws)
    case Nil
    obtain rs' where "parseredirs [] ?u = Parsed rs' (skip t)" "map slice_redir rs' = rs"
      using redirs_parse [OF assms(4,5), of "[]"] Nil by (auto simp: words_text_def)
    then show ?thesis
      using st parseargs_stop [OF assms(5)] Nil by (intro exI [of _ "[?w]"] exI [of _ rs']) (simp add: parse_skip)
  next
    case (Cons w' ws')
    have "parseredirs [] ?u = Parsed [] ?u"
      using parseredirs_word [of w'] Cons.prems Cons by (simp add: words_text_def)
    moreover obtain args' rs' where "parseargs (args @ [?w]) [] ?u = Parsed ((args @ [?w]) @ args', rs') (skip t)"
        "map slice args' = ws" "map slice_redir rs' = rs"
      using Cons.IH [of "args @ [?w]"] Cons.prems Cons by auto
    ultimately show ?thesis
      using st by (intro exI [of _ "?w # args'"] exI [of _ rs']) simp
  qed
qed simp

section \<open>Reading back what is written\<close>

text \<open>At each level: with calls enough, the parser reads the written form back and stops at what follows it.\<close>

definition reads_exec :: "string cmd \<Rightarrow> bool" where
  "reads_exec c \<longleftrightarrow> (\<forall>n t. wf_cmd shell_word c \<and> follows ''|)&;'' t \<and> 4 * length (show_exec c @ t) + 2 \<le> n \<longrightarrow>
     (\<exists>d. parseexec n (show_exec c @ t) = Parsed d (skip t) \<and> map_cmd slice d = c))"

definition reads_pipe :: "string cmd \<Rightarrow> bool" where
  "reads_pipe c \<longleftrightarrow> (\<forall>n t. wf_cmd shell_word c \<and> follows '')&;'' t \<and> 4 * length (show_pipe c @ t) + 3 \<le> n \<longrightarrow>
     (\<exists>d. parsepipe n (show_pipe c @ t) = Parsed d (skip t) \<and> map_cmd slice d = c))"

definition reads_back :: "string cmd \<Rightarrow> bool" where
  "reads_back c \<longleftrightarrow> (\<forall>n t. wf_cmd shell_word c \<and> follows '')&;'' t \<and> 4 * length (show_back c @ t) + 3 \<le> n \<longrightarrow>
     (\<exists>e u d. parsepipe n (show_back c @ t) = Parsed e u \<and> parsebacks e u = parsebacks d t \<and> map_cmd slice d = c))"

definition reads_line :: "string cmd \<Rightarrow> bool" where
  "reads_line c \<longleftrightarrow> (\<forall>n t. wf_cmd shell_word c \<and> follows '')'' t \<and> 4 * length (show_line c @ t) + 4 \<le> n \<longrightarrow>
     (\<exists>d. parseline n (show_line c @ t) = Parsed d (skip t) \<and> map_cmd slice d = c))"

lemma reads_execE:
  assumes "reads_exec c" "wf_cmd shell_word c" "follows ''|)&;'' t" "4 * length (show_exec c @ t) + 2 \<le> n"
  obtains d where "parseexec n (show_exec c @ t) = Parsed d (skip t)" "map_cmd slice d = c"
  using assms unfolding reads_exec_def by blast

lemma reads_pipeE:
  assumes "reads_pipe c" "wf_cmd shell_word c" "follows '')&;'' t" "4 * length (show_pipe c @ t) + 3 \<le> n"
  obtains d where "parsepipe n (show_pipe c @ t) = Parsed d (skip t)" "map_cmd slice d = c"
  using assms unfolding reads_pipe_def by blast

lemma reads_backE:
  assumes "reads_back c" "wf_cmd shell_word c" "follows '')&;'' t" "4 * length (show_back c @ t) + 3 \<le> n"
  obtains e u d where "parsepipe n (show_back c @ t) = Parsed e u" "parsebacks e u = parsebacks d t" "map_cmd slice d = c"
  using assms unfolding reads_back_def by blast

lemma reads_lineE:
  assumes "reads_line c" "wf_cmd shell_word c" "follows '')'' t" "4 * length (show_line c @ t) + 4 \<le> n"
  obtains d where "parseline n (show_line c @ t) = Parsed d (skip t)" "map_cmd slice d = c"
  using assms unfolding reads_line_def by blast

lemma follows_symbol: "c \<in> set symbols \<Longrightarrow> c \<in> set toks \<Longrightarrow> follows toks (c # t)"
  by (simp add: follows_def skip_symbol)

lemma follows_mono: "follows toks t \<Longrightarrow> set toks \<subseteq> set toks' \<Longrightarrow> follows toks' t"
  by (auto simp: follows_def)

lemma peek_not: "follows toks t \<Longrightarrow> set toks \<inter> set tk = {} \<Longrightarrow> peek t tk = (False, skip t)"
  by (auto simp: follows_def peek_iff)

lemma peek_symbol: "c \<in> set symbols \<Longrightarrow> peek (c # t) tk = (c \<in> set tk, c # t)"
  by (auto simp: peek_iff skip_symbol)

lemma symbol_token: "c \<in> set ''|();&'' \<Longrightarrow> gettoken (c # t) = (c, c # t, t, skip t)"
  using gettoken_sym [OF skip_symbol, of c t] by (auto simp: symbols_def)

lemma parsebacks_stop: "follows '');'' t \<Longrightarrow> parsebacks c t = (c, skip t)"
  using peek_not [of "'');''" t "''&''"] by (subst parsebacks.simps) simp

lemma parsebacks_amp: "parsebacks c (CHR ''&'' # t) = parsebacks (BackCmd c) t"
  using peek_symbol [of "CHR ''&''" t "''&''"] symbol_token [of "CHR ''&''" t]
  by (subst parsebacks.simps) (simp add: symbols_def parse_skip)

lemma reads_line_List:
  assumes "reads_back c" "reads_line d"
  shows "reads_line (ListCmd c d)"
  unfolding reads_line_def
proof (intro allI impI, elim conjE)
  fix n t
  assume wf: "wf_cmd shell_word (ListCmd c d)" and t: "follows '')'' t" and n: "4 * length (show_line (ListCmd c d) @ t) + 4 \<le> n"
  let ?t = "CHR '';'' # show_line d @ t"
  obtain m where m: "n = Suc m" using n by (cases n) auto
  have "follows '')&;'' ?t" by (rule follows_symbol) (simp_all add: symbols_def)
  then obtain e u c' where c: "parsepipe m (show_back c @ ?t) = Parsed e u" "parsebacks e u = parsebacks c' ?t" "map_cmd slice c' = c"
    using reads_backE [OF assms(1), of ?t m] wf n m by auto
  have b: "parsebacks c' ?t = (c', ?t)"
    using parsebacks_stop [of ?t c'] follows_symbol [of "CHR '';''" "'');''"] by (simp add: symbols_def skip_symbol)
  obtain d' where d: "parseline m (show_line d @ t) = Parsed d' (skip t)" "map_cmd slice d' = d"
    using reads_lineE [OF assms(2), of t m] wf n m t by auto
  have "peek ?t '';'' = (True, ?t)" "gettoken ?t = (CHR '';'', ?t, show_line d @ t, skip (show_line d @ t))"
    using peek_symbol [of "CHR '';''"] symbol_token [of "CHR '';''"] by (simp_all add: symbols_def)
  then show "\<exists>e. parseline n (show_line (ListCmd c d) @ t) = Parsed e (skip t) \<and> map_cmd slice e = ListCmd c d"
    using c b d m by (intro exI [of _ "ListCmd c' d'"]) (simp add: parse_skip)
qed

lemma reads_line_other:
  assumes "reads_back c" "show_line c = show_back c"
  shows "reads_line c"
  unfolding reads_line_def
proof (intro allI impI, elim conjE)
  fix n t
  assume wf: "wf_cmd shell_word c" and t: "follows '')'' t" and n: "4 * length (show_line c @ t) + 4 \<le> n"
  obtain m where m: "n = Suc m" using n by (cases n) auto
  have "follows '')&;'' t" by (rule follows_mono [OF t]) simp
  then obtain e u c' where c: "parsepipe m (show_back c @ t) = Parsed e u" "parsebacks e u = parsebacks c' t" "map_cmd slice c' = c"
    using reads_backE [OF assms(1), of t m] wf n m assms(2) by auto
  have "parsebacks c' t = (c', skip t)" by (rule parsebacks_stop, rule follows_mono [OF t]) simp
  moreover have "peek t '';'' = (False, skip t)" by (rule peek_not [OF t]) simp
  ultimately show "\<exists>d. parseline n (show_line c @ t) = Parsed d (skip t) \<and> map_cmd slice d = c"
    using c m assms(2) by (intro exI [of _ c']) simp
qed

lemma reads_back_Back:
  assumes "reads_back c"
  shows "reads_back (BackCmd c)"
  unfolding reads_back_def [of "BackCmd c"]
proof (intro allI impI, elim conjE)
  fix n t
  assume wf: "wf_cmd shell_word (BackCmd c)" and n: "4 * length (show_back (BackCmd c) @ t) + 3 \<le> n"
  have "follows '')&;'' (CHR ''&'' # t)" by (rule follows_symbol) (simp_all add: symbols_def)
  then obtain e u d where "parsepipe n (show_back c @ CHR ''&'' # t) = Parsed e u" "parsebacks e u = parsebacks d (CHR ''&'' # t)" "map_cmd slice d = c"
    using reads_backE [OF assms, of "CHR ''&'' # t" n] wf n by auto
  then show "\<exists>e u d. parsepipe n (show_back (BackCmd c) @ t) = Parsed e u \<and> parsebacks e u = parsebacks d t \<and> map_cmd slice d = BackCmd c"
    by (intro exI [of _ e] exI [of _ u] exI [of _ "BackCmd d"]) (simp add: parsebacks_amp)
qed

lemma reads_back_other: "reads_pipe c \<Longrightarrow> show_back c = show_pipe c \<Longrightarrow> reads_back c"
  unfolding reads_back_def reads_pipe_def by (metis parse_skip(3))

lemma reads_pipe_Pipe:
  assumes "reads_exec c" "reads_pipe d"
  shows "reads_pipe (PipeCmd c d)"
  unfolding reads_pipe_def [of "PipeCmd c d"]
proof (intro allI impI, elim conjE)
  fix n t
  assume wf: "wf_cmd shell_word (PipeCmd c d)" and t: "follows '')&;'' t" and n: "4 * length (show_pipe (PipeCmd c d) @ t) + 3 \<le> n"
  let ?t = "CHR ''|'' # show_pipe d @ t"
  obtain m where m: "n = Suc m" using n by (cases n) auto
  have "follows ''|)&;'' ?t" by (rule follows_symbol) (simp_all add: symbols_def)
  then obtain c' where c: "parseexec m (show_exec c @ ?t) = Parsed c' (skip ?t)" "map_cmd slice c' = c"
    using reads_execE [OF assms(1), of ?t m] wf n m by auto
  obtain d' where d: "parsepipe m (show_pipe d @ t) = Parsed d' (skip t)" "map_cmd slice d' = d"
    using reads_pipeE [OF assms(2), of t m] wf n m t by auto
  have "skip ?t = ?t" "peek ?t ''|'' = (True, ?t)" "gettoken ?t = (CHR ''|'', ?t, show_pipe d @ t, skip (show_pipe d @ t))"
    using peek_symbol [of "CHR ''|''"] symbol_token [of "CHR ''|''"] by (simp_all add: symbols_def skip_symbol)
  then show "\<exists>e. parsepipe n (show_pipe (PipeCmd c d) @ t) = Parsed e (skip t) \<and> map_cmd slice e = PipeCmd c d"
    using c d m by (intro exI [of _ "PipeCmd c' d'"]) (simp add: parse_skip)
qed

lemma reads_pipe_other:
  assumes "reads_exec c" "show_pipe c = show_exec c"
  shows "reads_pipe c"
  unfolding reads_pipe_def
proof (intro allI impI, elim conjE)
  fix n t
  assume wf: "wf_cmd shell_word c" and t: "follows '')&;'' t" and n: "4 * length (show_pipe c @ t) + 3 \<le> n"
  obtain m where m: "n = Suc m" using n by (cases n) auto
  have "follows ''|)&;'' t" by (rule follows_mono [OF t]) auto
  then obtain d where "parseexec m (show_exec c @ t) = Parsed d (skip t)" "map_cmd slice d = c"
    using reads_execE [OF assms(1), of t m] wf n m assms(2) by auto
  moreover have "peek t ''|'' = (False, skip t)" by (rule peek_not [OF t]) simp
  ultimately show "\<exists>d. parsepipe n (show_pipe c @ t) = Parsed d (skip t) \<and> map_cmd slice d = c"
    using m assms(2) by (intro exI [of _ d]) simp
qed

lemma show_exec_redirs: "show_exec (with_redirs c rs) = show_exec c @ redirs_text rs"
  unfolding with_redirs_def redirs_text_def by (induction rs arbitrary: c) auto

lemma map_with_redirs: "map_cmd slice (with_redirs c rs) = with_redirs (map_cmd slice c) (map slice_redir rs)"
  unfolding with_redirs_def by (induction rs arbitrary: c) (auto simp: slice_redir_def)

lemma reads_exec_words: "reads_exec (with_redirs (ExecCmd ws) rs)"
  unfolding reads_exec_def
proof (intro allI impI, elim conjE)
  fix n t
  let ?c = "with_redirs (ExecCmd ws) rs"
  assume wf: "wf_cmd shell_word ?c" and t: "follows ''|)&;'' t" and n: "4 * length (show_exec ?c @ t) + 2 \<le> n"
  obtain m where m: "n = Suc m" using n by (cases n) auto
  have ok: "\<forall>w \<in> set ws. shell_word w" "length ws < MAXARGS" "\<forall>(f, m, n) \<in> set rs. shell_word f \<and> redir_ok m n"
    using wf by (auto simp: with_redirs_wf)
  let ?u = "words_text ws @ redirs_text rs @ t"
  have "\<exists>rs1 u args rs'. parseredirs [] ?u = Parsed rs1 u \<and> parseargs [] rs1 u = Parsed (args, rs') (skip t) \<and>
      map slice args = ws \<and> map slice_redir rs' = rs \<and> peek ?u ''('' = (False, skip ?u)"
  proof (cases ws)
    case Nil
    obtain rs' where r: "parseredirs [] ?u = Parsed rs' (skip t)" "map slice_redir rs' = rs"
      using redirs_parse [OF ok(3) t, of "[]"] Nil by (auto simp: words_text_def)
    moreover have "parseargs [] rs' (skip t) = Parsed ([], rs') (skip t)" by (simp add: parseargs_stop [OF t] parse_skip)
    moreover have "peek (redirs_text rs @ t) ''('' = (False, skip (redirs_text rs @ t))"
    proof (cases rs)
      case Nil
      then show ?thesis using peek_not [OF t, of "''(''"] by (simp add: redirs_text_def)
    next
      case (Cons r rs)
      obtain f k l where "r = (f, k, l)" by (cases r)
      then show ?thesis
        using peek_symbol [of "CHR ''<''"] peek_symbol [of "CHR ''>''"]
        by (simp add: Cons redirs_text_def redir_text_def symbols_def skip_symbol)
    qed
    ultimately show ?thesis using Nil by (auto simp: words_text_def)
  next
    case (Cons w ws')
    have w: "shell_word w" using ok(1) Cons by simp
    obtain c v where cv: "w = c # v" "c \<notin> set symbols" using w by (rule word_first)
    obtain u' where u: "?u = w @ u'" using Cons by (simp add: words_text_def)
    have "parseredirs [] ?u = Parsed [] ?u" unfolding u by (rule parseredirs_word [OF w])
    moreover have "peek ?u ''('' = (False, skip ?u)"
      unfolding u using gettoken_text(2) [OF w, of u'] cv by (auto simp: peek_iff symbols_def)
    ultimately show ?thesis using args_parse [OF ok(1) _ _ ok(3) t, of "[]"] ok(2) Cons by fastforce
  qed
  then obtain rs1 u args rs' where p: "parseredirs [] ?u = Parsed rs1 u" "parseargs [] rs1 u = Parsed (args, rs') (skip t)"
      "map slice args = ws" "map slice_redir rs' = rs" "peek ?u ''('' = (False, skip ?u)" by blast
  have "parseexec n ?u = Parsed (with_redirs (ExecCmd args) rs') (skip t)"
    using p(1,2,5) m by (simp add: parse_skip)
  then show "\<exists>d. parseexec n (show_exec ?c @ t) = Parsed d (skip t) \<and> map_cmd slice d = ?c"
    using p(3,4) by (intro exI [of _ "with_redirs (ExecCmd args) rs'"]) (simp add: show_exec_redirs map_with_redirs)
qed

lemma reads_exec_block:
  assumes "reads_line c" "show_exec c = CHR ''('' # show_line c @ '')''"
  shows "reads_exec (with_redirs c rs)"
  unfolding reads_exec_def
proof (intro allI impI, elim conjE)
  fix n t
  let ?c = "with_redirs c rs" and ?t = "CHR '')'' # redirs_text rs @ t"
  assume wf: "wf_cmd shell_word ?c" and t: "follows ''|)&;'' t" and n: "4 * length (show_exec ?c @ t) + 2 \<le> n"
  have len: "4 * length (show_line c @ ?t) + 6 \<le> n" using n assms(2) by (simp add: show_exec_redirs)
  then obtain m where m: "n = Suc (Suc m)" by (cases n; cases "n - 1") auto
  have "follows '')'' ?t" by (rule follows_symbol) (simp_all add: symbols_def)
  then obtain d where d: "parseline m (show_line c @ ?t) = Parsed d (skip ?t)" "map_cmd slice d = c"
    using reads_lineE [OF assms(1), of ?t m] wf len m by (auto simp: with_redirs_wf)
  obtain rs' where r: "parseredirs [] (redirs_text rs @ t) = Parsed rs' (skip t)" "map slice_redir rs' = rs"
    using redirs_parse [OF _ t, of rs "[]"] wf by (auto simp: with_redirs_wf)
  let ?s = "CHR ''('' # show_line c @ ?t"
  have p: "peek ?s ''('' = (True, ?s)" "gettoken ?s = (CHR ''('', ?s, show_line c @ ?t, skip (show_line c @ ?t))"
    "peek ?t '')'' = (True, ?t)" "gettoken ?t = (CHR '')'', ?t, redirs_text rs @ t, skip (redirs_text rs @ t))" "skip ?t = ?t"
    using peek_symbol [of "CHR ''(''"] peek_symbol [of "CHR '')''"] symbol_token [of "CHR ''(''"] symbol_token [of "CHR '')''"]
    by (simp_all add: symbols_def skip_symbol)
  have "parseexec n ?s = Parsed (with_redirs d rs') (skip t)"
    unfolding m using d(1) r(1) by (simp add: p parse_skip)
  then show "\<exists>d. parseexec n (show_exec ?c @ t) = Parsed d (skip t) \<and> map_cmd slice d = ?c"
    using d(2) r(2) assms(2) by (intro exI [of _ "with_redirs d rs'"]) (simp add: show_exec_redirs map_with_redirs)
qed

text \<open>Every command is a command that is no redirection, under redirections.\<close>

fun base :: "'a cmd \<Rightarrow> 'a cmd" where
  "base (RedirCmd c f m n) = base c"
| "base c = c"

fun redirs :: "'a cmd \<Rightarrow> 'a redir list" where
  "redirs (RedirCmd c f m n) = redirs c @ [(f, m, n)]"
| "redirs c = []"

lemma with_base: "with_redirs (base c) (redirs c) = c"
  by (induction c) (auto simp: with_redirs_def)

lemma base_size: "size (base c) \<le> size c"
  by (induction c) auto

lemma base_not_redir: "base c \<noteq> RedirCmd d f m n"
  by (induction c) auto

lemma show_no_nul:
  assumes "wf_cmd shell_word c"
  shows "CHR 0x00 \<notin> set (show_line c)" "CHR 0x00 \<notin> set (show_back c)" "CHR 0x00 \<notin> set (show_pipe c)" "CHR 0x00 \<notin> set (show_exec c)"
  using assms
proof (induction c rule: show_line_show_back_show_pipe_show_exec.induct)
qed (auto simp: words_text_def redir_text_def shell_word_def plain_def)

lemma reads_all: "reads_exec c \<and> reads_pipe c \<and> reads_back c \<and> reads_line c"
proof (induction "size c" arbitrary: c rule: less_induct)
  case less
  show ?case
  proof (cases c)
    case (PipeCmd a b)
    then have p: "reads_pipe c" using less [of a] less [of b] by (auto intro: reads_pipe_Pipe)
    then have l: "reads_back c" "reads_line c" using PipeCmd by (auto intro!: reads_line_other reads_back_other)
    then have "reads_exec (with_redirs c [])" using PipeCmd by (intro reads_exec_block) auto
    then show ?thesis using p l by (simp add: with_redirs_def)
  next
    case (ListCmd a b)
    then have l: "reads_line c" using less [of a] less [of b] by (auto intro: reads_line_List)
    then have "reads_exec (with_redirs c [])" using ListCmd by (intro reads_exec_block) auto
    then have e: "reads_exec c" by (simp add: with_redirs_def)
    then show ?thesis using l ListCmd by (auto intro!: reads_pipe_other reads_back_other)
  next
    case (BackCmd a)
    then have b: "reads_back c" using less [of a] by (auto intro: reads_back_Back)
    then have l: "reads_line c" using BackCmd by (auto intro!: reads_line_other)
    then have "reads_exec (with_redirs c [])" using BackCmd by (intro reads_exec_block) auto
    then have e: "reads_exec c" by (simp add: with_redirs_def)
    then show ?thesis using b l BackCmd by (auto intro!: reads_pipe_other)
  next
    case (ExecCmd ws)
    have "reads_exec c" using reads_exec_words [of ws "[]"] ExecCmd by (simp add: with_redirs_def)
    then show ?thesis using ExecCmd by (auto intro!: reads_pipe_other reads_back_other reads_line_other)
  next
    case (RedirCmd a f m n)
    have "reads_exec (with_redirs (base c) (redirs c))"
    proof (cases "base c")
      case (ExecCmd ws)
      then show ?thesis by (simp add: reads_exec_words)
    next
      case (RedirCmd a f m n)
      then show ?thesis by (simp add: base_not_redir)
    qed (use less [of "base c"] base_size [of a] RedirCmd in \<open>auto intro!: reads_exec_block\<close>)
    then have "reads_exec c" by (simp add: with_base)
    then show ?thesis using RedirCmd by (auto intro!: reads_pipe_other reads_back_other reads_line_other)
  qed
qed

text \<open>
  C30: every command can be written. For each well-formed command, whatever its shape, the parser of the shell reads
  its written form back as that same command: nesting, the order of redirections and the grouping of \<open>;\<close>, \<open>&\<close> and \<open>|\<close>
  are all recovered. With the property that it returns only well-formed commands, the parser returns
  exactly these.
\<close>

theorem parsecmd_reads_back:
  assumes "wf_cmd shell_word c"
  shows "parsecmd (show_line c) = Parsed c []"
proof -
  obtain d where d: "parseline (4 * length (show_line c) + 4) (show_line c) = Parsed d []" "map_cmd slice d = c"
    using reads_lineE [of c "[]" "4 * length (show_line c) + 4"] reads_all [of c] assms by (auto simp: follows_def)
  from parsecmd_slices(1) [OF show_no_nul(1) [OF assms] d(1)] show ?thesis using d(2) by simp
qed

theorem parsecmd_reads_back_witness:
  "show_line (PipeCmd (ExecCmd [''ls'', ''-l'']) (RedirCmd (BackCmd (ExecCmd [''wc''])) ''out'' 0x601 1)) = ''ls -l |(wc &)>out '' \<and>
   parsecmd ''ls -l |(wc &)>out '' = Parsed (PipeCmd (ExecCmd [''ls'', ''-l'']) (RedirCmd (BackCmd (ExecCmd [''wc''])) ''out'' 0x601 1)) []"
proof -
  let ?c = "PipeCmd (ExecCmd [''ls'', ''-l'']) (RedirCmd (BackCmd (ExecCmd [''wc''])) ''out'' 0x601 1)"
  have "wf_cmd shell_word ?c"
    by (simp add: shell_word_def plain_def whitespace_def symbols_def redir_ok_def)
  moreover have "show_line ?c = ''ls -l |(wc &)>out ''" by (simp add: words_text_def redir_text_def)
  ultimately show ?thesis using parsecmd_reads_back [of ?c] by simp
qed

end
