(* ===== verification/User_Run.thy ===== *)
theory User_Run
  imports User_Shell User_Grep
begin

text \<open>
  Running commands: the rest of src/user/sh.c. The code of a child process is given to \<open>fork\<close>; none of it
  returns to the caller. The shell is shown to connect the programs of a command as the command says: what
  each program has as its descriptors is what a recursive reading of the command gives.
\<close>

section \<open>The shell\<close>

definition panic_user :: "'w os \<Rightarrow> string \<Rightarrow> ('a, 'w) uop" where
  "panic_user k s = uthen (fprintf k 2 (''%s'' @ newline) [UStr (Some s)]) (uexit 1)"

definition fork1 :: "'w os \<Rightarrow> (unit, 'w) uop \<Rightarrow> (int, 'w) uop" where
  "fork1 k ch = ubind (os_fork k ch) (\<lambda>pid. if pid = - 1 then panic_user k ''fork'' else ureturn pid)"

fun runcmd :: "'w os \<Rightarrow> string cmd \<Rightarrow> (unit, 'w) uop" where
  "runcmd k (ExecCmd args) = (if args = [] then uexit 1
     else uthen (os_exec k (hd args) args)
       (uthen (fprintf k 2 (''exec %s failed'' @ newline) [UStr (Some (hd args))]) (uexit 0)))"
| "runcmd k (RedirCmd c f m n) = uthen (os_close k n) (ubind (os_open k f m) (\<lambda>fd.
     if fd < 0 then uthen (fprintf k 2 (''open %s failed'' @ newline) [UStr (Some f)]) (uexit 1)
     else runcmd k c))"
| "runcmd k (ListCmd c d) = uthen (fork1 k (runcmd k c)) (uthen (os_wait k) (runcmd k d))"
| "runcmd k (PipeCmd c d) = ubind (os_pipe k) (\<lambda>r. case r of
     None \<Rightarrow> panic_user k ''pipe''
   | Some (p0, p1) \<Rightarrow>
       uthen (fork1 k (uthen (os_close k 1) (uthen (os_dup k p1) (uthen (os_close k p0) (uthen (os_close k p1) (runcmd k c))))))
      (uthen (fork1 k (uthen (os_close k 0) (uthen (os_dup k p0) (uthen (os_close k p0) (uthen (os_close k p1) (runcmd k d))))))
      (uthen (os_close k p0) (uthen (os_close k p1) (uthen (os_wait k) (uthen (os_wait k) (uexit 0)))))))"
| "runcmd k (BackCmd c) = uthen (fork1 k (runcmd k c)) (uexit 0)"

text \<open>The line read, or \<open>None\<close> at the end of the input.\<close>

definition getcmd :: "'w os \<Rightarrow> nat \<Rightarrow> (string option, 'w) uop" where
  "getcmd k nbuf = uthen (fprintf k 2 ''$ '' []) (ubind (gets k nbuf) (\<lambda>buf.
     ureturn (if c_string buf = [] then None else Some (c_string buf))))"

partial_function (option) open_console :: "'w os \<Rightarrow> 'w \<Rightarrow> (unit, 'w) uout option" where
  "open_console k w = ubind (os_open k ''console'' O_RDWR) (\<lambda>fd w.
     if fd \<ge> 0 then if fd \<ge> 3 then uthen (os_close k fd) (ureturn ()) w else open_console k w
     else ureturn () w) w"

definition run_line :: "'w os \<Rightarrow> string \<Rightarrow> (unit, 'w) uop" where
  "run_line k buf = (case parsecmd buf of
     Parsed c _ \<Rightarrow> runcmd k c
   | Failed e \<Rightarrow> panic_user k e
   | NoFuel \<Rightarrow> ustuck)"

definition change_dir :: "'w os \<Rightarrow> string \<Rightarrow> (unit, 'w) uop" where
  "change_dir k buf = (let path = drop 3 (butlast buf) in
     ubind (os_chdir k path) (\<lambda>r. if r < 0 then fprintf k 2 (''cannot cd %s'' @ newline) [UStr (Some path)] else ureturn ()))"

partial_function (option) sh_loop :: "'w os \<Rightarrow> 'w \<Rightarrow> (unit, 'w) uout option" where
  "sh_loop k w = ubind (getcmd k 100) (\<lambda>r w. case r of
     None \<Rightarrow> uexit 0 w
   | Some buf \<Rightarrow> if take 3 buf = ''cd '' then ubind (change_dir k buf) (\<lambda>_ w. sh_loop k w) w
       else ubind (uthen (fork1 k (run_line k buf)) (os_wait k)) (\<lambda>_ w. sh_loop k w) w) w"

definition sh_main :: "'w os \<Rightarrow> (unit, 'w) uop" where
  "sh_main k = uthen (open_console k) (sh_loop k)"

section \<open>What a command connects\<close>

text \<open>
  What a descriptor refers to. \<open>plumb F i c\<close>: the programs the command \<open>c\<close> starts with the descriptors \<open>F\<close>, each with its
  arguments and its own descriptors, in order, and the number of the next pipe.
\<close>

datatype fobj = OpenFile string u32 | PipeRead nat | PipeWrite nat | Inherited nat

type_synonym fdtab = "int \<Rightarrow> fobj option"

fun plumb :: "fdtab \<Rightarrow> nat \<Rightarrow> string cmd \<Rightarrow> (string list \<times> fdtab) list \<times> nat" where
  "plumb F i (ExecCmd args) = (if args = [] then [] else [(args, F)], i)"
| "plumb F i (RedirCmd c f m n) = plumb (F(n \<mapsto> OpenFile f m)) i c"
| "plumb F i (ListCmd c d) = (let (xs, j) = plumb F i c; (ys, l) = plumb F j d in (xs @ ys, l))"
| "plumb F i (PipeCmd c d) = (let (xs, j) = plumb (F(1 \<mapsto> PipeWrite i)) (Suc i) c;
     (ys, l) = plumb (F(0 \<mapsto> PipeRead i)) j d in (xs @ ys, l))"
| "plumb F i (BackCmd c) = plumb F i c"

text \<open>The descriptors of a process: the next one is the least that is free, and there are \<open>NOFILE\<close>.\<close>

definition least_free :: "fdtab \<Rightarrow> int \<Rightarrow> bool" where
  "least_free F n \<longleftrightarrow> 0 \<le> n \<and> n < 16 \<and> F n = None \<and> (\<forall>m. 0 \<le> m \<and> m < n \<longrightarrow> F m \<noteq> None)"

text \<open>
  What the shell relies on of the kernel: \<open>fds\<close> are the descriptors of the process, \<open>pipes\<close> counts pipes, and \<open>prog\<close> lists the
  programs started. A child has a copy of the descriptors; files can be opened and programs executed.
\<close>

definition fd_kernel :: "'w os \<Rightarrow> ('w \<Rightarrow> fdtab) \<Rightarrow> ('w \<Rightarrow> nat) \<Rightarrow> ('w \<Rightarrow> (string list \<times> fdtab) list) \<Rightarrow> bool" where
  "fd_kernel k fds np prog \<longleftrightarrow>
     (\<forall>n w. fds w n \<noteq> None \<longrightarrow> (\<exists>v. os_close k n w = Some (URet 0 v) \<and> fds v = (fds w)(n := None) \<and> np v = np w \<and> prog v = prog w)) \<and>
     (\<forall>f m n w. least_free (fds w) n \<longrightarrow> (\<exists>v. os_open k f m w = Some (URet n v) \<and> fds v = (fds w)(n \<mapsto> OpenFile f m) \<and>
        np v = np w \<and> prog v = prog w)) \<and>
     (\<forall>n m x w. fds w n = Some x \<and> least_free (fds w) m \<longrightarrow> (\<exists>v. os_dup k n w = Some (URet m v) \<and> fds v = (fds w)(m \<mapsto> x) \<and>
        np v = np w \<and> prog v = prog w)) \<and>
     (\<forall>a b w. least_free (fds w) a \<and> least_free ((fds w)(a \<mapsto> PipeRead (np w))) b \<longrightarrow>
        (\<exists>v. os_pipe k w = Some (URet (Some (a, b)) v) \<and> fds v = (fds w)(a \<mapsto> PipeRead (np w), b \<mapsto> PipeWrite (np w)) \<and>
          np v = Suc (np w) \<and> prog v = prog w)) \<and>
     (\<forall>args w. args \<noteq> [] \<longrightarrow> (\<exists>c v. os_exec k (hd args) args w = Some (UExit c v) \<and> np v = np w \<and> prog v = prog w @ [(args, fds w)])) \<and>
     (\<forall>ch w c v. ch w = Some (UExit c v) \<longrightarrow> (\<exists>pid u. os_fork k ch w = Some (URet pid u) \<and> 0 < pid \<and> fds u = fds w \<and>
        np u = np v \<and> prog u = prog v)) \<and>
     (\<forall>w. \<exists>r v. os_wait k w = Some (URet r v) \<and> fds v = fds w \<and> np v = np w \<and> prog v = prog w)"

lemma fd_close:
  assumes "fd_kernel k fds np prog" "fds w n \<noteq> None"
  shows "\<exists>v. os_close k n w = Some (URet 0 v) \<and> fds v = (fds w)(n := None) \<and> np v = np w \<and> prog v = prog w"
  using assms(1) [unfolded fd_kernel_def, THEN conjunct1] assms(2) by blast

lemma fd_open:
  assumes "fd_kernel k fds np prog" "least_free (fds w) n"
  shows "\<exists>v. os_open k f m w = Some (URet n v) \<and> fds v = (fds w)(n \<mapsto> OpenFile f m) \<and> np v = np w \<and> prog v = prog w"
  using assms(1) [unfolded fd_kernel_def, THEN conjunct2, THEN conjunct1] assms(2) by blast

lemma fd_dup:
  assumes "fd_kernel k fds np prog" "fds w n = Some x" "least_free (fds w) m"
  shows "\<exists>v. os_dup k n w = Some (URet m v) \<and> fds v = (fds w)(m \<mapsto> x) \<and> np v = np w \<and> prog v = prog w"
  using assms(1) [unfolded fd_kernel_def, THEN conjunct2, THEN conjunct2, THEN conjunct1] assms(2,3) by blast

lemma fd_pipe:
  assumes "fd_kernel k fds np prog" "least_free (fds w) a" "least_free ((fds w)(a \<mapsto> PipeRead (np w))) b"
  shows "\<exists>v. os_pipe k w = Some (URet (Some (a, b)) v) \<and> fds v = (fds w)(a \<mapsto> PipeRead (np w), b \<mapsto> PipeWrite (np w)) \<and>
     np v = Suc (np w) \<and> prog v = prog w"
  using assms(1) [unfolded fd_kernel_def, THEN conjunct2, THEN conjunct2, THEN conjunct2, THEN conjunct1] assms(2,3) by blast

lemma fd_exec:
  assumes "fd_kernel k fds np prog" "args \<noteq> []"
  shows "\<exists>c v. os_exec k (hd args) args w = Some (UExit c v) \<and> np v = np w \<and> prog v = prog w @ [(args, fds w)]"
  using assms(1) [unfolded fd_kernel_def, THEN conjunct2, THEN conjunct2, THEN conjunct2, THEN conjunct2, THEN conjunct1] assms(2) by blast

lemma fd_fork:
  assumes "fd_kernel k fds np prog" "ch w = Some (UExit c v)"
  shows "\<exists>pid u. fork1 k ch w = Some (URet pid u) \<and> fds u = fds w \<and> np u = np v \<and> prog u = prog v"
proof -
  obtain pid u where "os_fork k ch w = Some (URet pid u)" "0 < pid" "fds u = fds w" "np u = np v" "prog u = prog v"
    using assms(1) [unfolded fd_kernel_def, THEN conjunct2, THEN conjunct2, THEN conjunct2, THEN conjunct2, THEN conjunct2, THEN conjunct1]
      assms(2) by blast
  then show ?thesis by (auto simp: fork1_def uexec)
qed

lemma fd_wait:
  assumes "fd_kernel k fds np prog"
  shows "\<exists>r v. os_wait k w = Some (URet r v) \<and> fds v = fds w \<and> np v = np w \<and> prog v = prog w"
  using assms [unfolded fd_kernel_def, THEN conjunct2, THEN conjunct2, THEN conjunct2, THEN conjunct2, THEN conjunct2, THEN conjunct2] by blast

text \<open>Standard input and output are open, and there is room for a pipe.\<close>

definition room :: "fdtab \<Rightarrow> bool" where
  "room F \<longleftrightarrow> F 0 \<noteq> None \<and> F 1 \<noteq> None \<and> (\<exists>a b. 0 \<le> a \<and> a < b \<and> b < 16 \<and> F a = None \<and> F b = None \<and>
     (\<forall>m. 0 \<le> m \<and> m < b \<and> m \<noteq> a \<longrightarrow> F m \<noteq> None))"

lemma room_cong:
  assumes "\<And>m. F m = None \<longleftrightarrow> G m = None" shows "room F = room G"
  unfolding room_def assms ..

lemma room_update: "room F \<Longrightarrow> F n \<noteq> None \<Longrightarrow> room (F(n \<mapsto> x))"
  using room_cong [of F "F(n \<mapsto> x)"] by auto

lemma least_free_std:
  assumes "room F" "n \<in> {0, 1}" shows "least_free (F(n := None)) n"
proof -
  have F: "F 0 \<noteq> None" using assms(1) by (simp add: room_def)
  have "m = 0" if "0 \<le> m" "m < n" for m using that assms(2) by auto
  then show ?thesis using assms(2) F by (force simp: least_free_def)
qed

lemma roomE:
  assumes "room F"
  obtains a b where "least_free F a" "\<And>x. least_free (F(a \<mapsto> x)) b" "2 \<le> a" "a < b" "F b = None"
proof -
  obtain a b where ab: "0 \<le> a" "a < b" "b < 16" "F a = None" "F b = None" "\<forall>m. 0 \<le> m \<and> m < b \<and> m \<noteq> a \<longrightarrow> F m \<noteq> None"
    and std: "F 0 \<noteq> None" "F 1 \<noteq> None" using assms unfolding room_def by blast
  have "a \<noteq> 0" "a \<noteq> 1" using ab(4) std by auto
  then have "2 \<le> a" using ab(1) by simp
  then show thesis using ab by (intro that [of a b]) (auto simp: least_free_def)
qed

text \<open>The end of a pipe becomes a standard descriptor.\<close>

lemma pipe_end:
  assumes k: "fd_kernel k fds np prog" and r: "room F" and ab: "F a = None" "F b = None" "2 \<le> a" "2 \<le> b" "a \<noteq> b"
    and n: "n \<in> {0, 1}" and w: "fds w = F(a \<mapsto> x, b \<mapsto> y)" and z: "(e, z) \<in> {(a, x), (b, y)}"
  shows "\<exists>v. uthen (os_close k n) (uthen (os_dup k e) (uthen (os_close k a) (uthen (os_close k b) m))) w = m v \<and>
    fds v = F(n \<mapsto> z) \<and> np v = np w \<and> prog v = prog w"
proof -
  have ne: "n \<noteq> a" "n \<noteq> b" "F n \<noteq> None" using n ab r by (auto simp: room_def)
  obtain w1 where 1: "os_close k n w = Some (URet 0 w1)" "fds w1 = (fds w)(n := None)" "np w1 = np w" "prog w1 = prog w"
    using fd_close [OF k, of w n] ne w by auto
  have lf: "least_free (fds w1) n"
    using least_free_std [OF r n] ne n ab(3,4) unfolding 1(2) w by (auto simp: least_free_def)
  have e: "fds w1 e = Some z" using z 1(2) w ne ab(5) by auto
  obtain w2 where 2: "os_dup k e w1 = Some (URet n w2)" "fds w2 = (fds w1)(n \<mapsto> z)" "np w2 = np w1" "prog w2 = prog w1"
    using fd_dup [OF k e lf] by blast
  obtain w3 where 3: "os_close k a w2 = Some (URet 0 w3)" "fds w3 = (fds w2)(a := None)" "np w3 = np w2" "prog w3 = prog w2"
    using fd_close [OF k, of w2 a] 2 1 w ne ab(5) by auto
  obtain w4 where 4: "os_close k b w3 = Some (URet 0 w4)" "fds w4 = (fds w3)(b := None)" "np w4 = np w3" "prog w4 = prog w3"
    using fd_close [OF k, of w3 b] 3 2 1 w ne ab(5) by auto
  have "fds w4 = F(n \<mapsto> z)" using 1 2 3 4 w ab ne by (auto simp: fun_eq_iff)
  then show ?thesis using 1 2 3 4 by (intro exI [of _ w4]) (simp add: uexec)
qed

lemma runcmd_plumbs:
  assumes k: "fd_kernel k fds np prog"
  shows "wf_cmd P c \<Longrightarrow> room (fds w) \<Longrightarrow>
    \<exists>e v. runcmd k c w = Some (UExit e v) \<and> prog v = prog w @ fst (plumb (fds w) (np w) c) \<and> np v = snd (plumb (fds w) (np w) c)"
proof (induction c arbitrary: w)
  case (ExecCmd args)
  show ?case
  proof (cases "args = []")
    case False
    then show ?thesis using fd_exec [OF k False, of w] by (auto simp: uexec)
  qed (simp add: uexec)
next
  case (RedirCmd c f m n)
  have n: "n \<in> {0, 1}" using RedirCmd.prems(1) by (auto simp: redir_ok_def)
  then have o: "fds w n \<noteq> None" using RedirCmd.prems(2) by (auto simp: room_def)
  obtain w1 where 1: "os_close k n w = Some (URet 0 w1)" "fds w1 = (fds w)(n := None)" "np w1 = np w" "prog w1 = prog w"
    using fd_close [OF k o] by blast
  have "least_free (fds w1) n" unfolding 1(2) by (rule least_free_std [OF RedirCmd.prems(2) n])
  then obtain w2 where 2: "os_open k f m w1 = Some (URet n w2)" "fds w2 = (fds w1)(n \<mapsto> OpenFile f m)" "np w2 = np w1" "prog w2 = prog w1"
    using fd_open [OF k, of w1 n f m] by blast
  have F: "fds w2 = (fds w)(n \<mapsto> OpenFile f m)" using 1(2) 2(2) by simp
  have "room (fds w2)" unfolding F by (rule room_update [OF RedirCmd.prems(2) o])
  then obtain e v where 3: "runcmd k c w2 = Some (UExit e v)" "prog v = prog w2 @ fst (plumb (fds w2) (np w2) c)"
      "np v = snd (plumb (fds w2) (np w2) c)"
    using RedirCmd.IH [of w2] RedirCmd.prems(1) by auto
  have "\<not> n < 0" using n by auto
  then have "runcmd k (RedirCmd c f m n) w = Some (UExit e v)" using 1(1) 2(1) 3(1) by (simp add: uexec)
  then show ?case using 3(2,3) 1(3,4) 2(3,4) unfolding F by simp
next
  case (ListCmd c d)
  obtain e v where 1: "runcmd k c w = Some (UExit e v)" "prog v = prog w @ fst (plumb (fds w) (np w) c)" "np v = snd (plumb (fds w) (np w) c)"
    using ListCmd.IH(1) [of w] ListCmd.prems by auto
  obtain pid u where 2: "fork1 k (runcmd k c) w = Some (URet pid u)" "fds u = fds w" "np u = np v" "prog u = prog v"
    using fd_fork [where ch = "runcmd k c", OF k 1(1)] by blast
  obtain r x where 3: "os_wait k u = Some (URet r x)" "fds x = fds u" "np x = np u" "prog x = prog u"
    using fd_wait [OF k] by blast
  have "room (fds x)" using 2 3 ListCmd.prems(2) by simp
  from ListCmd.IH(2) [OF _ this] show ?case
    using ListCmd.prems(1) 1 2 3 by (auto simp: uexec split_beta Let_def)
next
  case (PipeCmd c d)
  let ?F = "fds w" and ?i = "np w"
  obtain a b where ab: "least_free ?F a" "\<And>x. least_free (?F(a \<mapsto> x)) b" "2 \<le> a" "a < b" "?F b = None"
    using roomE [OF PipeCmd.prems(2)] by blast
  have a: "?F a = None" using ab(1) by (simp add: least_free_def)
  obtain w1 where 1: "os_pipe k w = Some (URet (Some (a, b)) w1)" "fds w1 = ?F(a \<mapsto> PipeRead ?i, b \<mapsto> PipeWrite ?i)"
      "np w1 = Suc ?i" "prog w1 = prog w"
    using fd_pipe [OF k ab(1) ab(2)] by blast
  note pe = pipe_end [OF k PipeCmd.prems(2) a ab(5) ab(3) _ _ _, of _ _ "PipeRead ?i" "PipeWrite ?i"]
  have std: "?F 0 \<noteq> None" "?F 1 \<noteq> None" using PipeCmd.prems(2) by (auto simp: room_def)
  obtain v1 where 2: "uthen (os_close k 1) (uthen (os_dup k b) (uthen (os_close k a) (uthen (os_close k b) (runcmd k c)))) w1 = runcmd k c v1"
      "fds v1 = ?F(1 \<mapsto> PipeWrite ?i)" "np v1 = Suc ?i" "prog v1 = prog w"
    using pe [of 1 w1 b "PipeWrite ?i" "runcmd k c"] 1 ab by auto
  obtain e1 x1 where 3: "runcmd k c v1 = Some (UExit e1 x1)" "prog x1 = prog w @ fst (plumb (?F(1 \<mapsto> PipeWrite ?i)) (Suc ?i) c)"
      "np x1 = snd (plumb (?F(1 \<mapsto> PipeWrite ?i)) (Suc ?i) c)"
    using PipeCmd.IH(1) [of v1, unfolded 2(2-4)] PipeCmd.prems(1) room_update [OF PipeCmd.prems(2) std(2), of "PipeWrite ?i"]
    unfolding wf_cmd.simps by blast
  obtain p1 u1 where 4: "fork1 k (uthen (os_close k 1) (uthen (os_dup k b) (uthen (os_close k a) (uthen (os_close k b) (runcmd k c))))) w1 = Some (URet p1 u1)"
      "fds u1 = fds w1" "np u1 = np x1" "prog u1 = prog x1"
    using fd_fork [where ch = "uthen (os_close k 1) (uthen (os_dup k b) (uthen (os_close k a) (uthen (os_close k b) (runcmd k c))))", OF k]
      2(1) 3(1) by metis
  obtain v2 where 5: "uthen (os_close k 0) (uthen (os_dup k a) (uthen (os_close k a) (uthen (os_close k b) (runcmd k d)))) u1 = runcmd k d v2"
      "fds v2 = ?F(0 \<mapsto> PipeRead ?i)" "np v2 = np x1" "prog v2 = prog x1"
    using pe [of 0 u1 a "PipeRead ?i" "runcmd k d"] 1 4 ab by auto
  obtain e2 x2 where 6: "runcmd k d v2 = Some (UExit e2 x2)" "prog x2 = prog x1 @ fst (plumb (?F(0 \<mapsto> PipeRead ?i)) (np x1) d)"
      "np x2 = snd (plumb (?F(0 \<mapsto> PipeRead ?i)) (np x1) d)"
    using PipeCmd.IH(2) [of v2, unfolded 5(2-4)] PipeCmd.prems(1) room_update [OF PipeCmd.prems(2) std(1), of "PipeRead ?i"]
    unfolding wf_cmd.simps by blast
  obtain p2 u2 where 7: "fork1 k (uthen (os_close k 0) (uthen (os_dup k a) (uthen (os_close k a) (uthen (os_close k b) (runcmd k d))))) u1 = Some (URet p2 u2)"
      "fds u2 = fds u1" "np u2 = np x2" "prog u2 = prog x2"
    using fd_fork [where ch = "uthen (os_close k 0) (uthen (os_dup k a) (uthen (os_close k a) (uthen (os_close k b) (runcmd k d))))", OF k]
      5(1) 6(1) by metis
  obtain y1 where 8: "os_close k a u2 = Some (URet 0 y1)" "fds y1 = (fds u2)(a := None)" "np y1 = np u2" "prog y1 = prog u2"
    using fd_close [OF k, of u2 a] 7(2) 4(2) 1(2) ab(4) by auto
  obtain y2 where 9: "os_close k b y1 = Some (URet 0 y2)" "np y2 = np y1" "prog y2 = prog y1"
    using fd_close [OF k, of y1 b] 8(2) 7(2) 4(2) 1(2) ab(4) by auto
  obtain r1 y3 where 10: "os_wait k y2 = Some (URet r1 y3)" "np y3 = np y2" "prog y3 = prog y2" using fd_wait [OF k] by blast
  obtain r2 y4 where 11: "os_wait k y3 = Some (URet r2 y4)" "np y4 = np y3" "prog y4 = prog y3" using fd_wait [OF k] by blast
  show ?case
    using 1(1) 3 4 6 7 8 9 10 11 by (auto simp: uexec split_beta Let_def)
next
  case (BackCmd c)
  obtain e v where 1: "runcmd k c w = Some (UExit e v)" "prog v = prog w @ fst (plumb (fds w) (np w) c)" "np v = snd (plumb (fds w) (np w) c)"
    using BackCmd.IH [of w] BackCmd.prems by auto
  then show ?case using fd_fork [where ch = "runcmd k c", OF k 1(1)] by (auto simp: uexec)
qed

text \<open>
  C29: the shell connects the programs of a command as the command says. On a kernel whose descriptors behave as
  documented, with standard input and output open and two descriptors free, running a command never returns
  to the caller and starts exactly the programs of the command, each with the descriptors its place in the command gives
  it: redirections replace 0 or 1, the two sides of a pipe have its two ends as 1 and 0, and no program has
  any other end of a pipe open.
\<close>

theorem runcmd_connects:
  assumes "fd_kernel k fds np prog" "wf_cmd shell_word c" "room (fds w)"
  shows "\<exists>e v. runcmd k c w = Some (UExit e v) \<and> prog v = prog w @ fst (plumb (fds w) (np w) c)"
  using runcmd_plumbs [OF assms] by blast

section \<open>A concrete kernel\<close>

record shell_world =
  sw_fds :: fdtab
  sw_pipes :: nat
  sw_prog :: "(string list \<times> fdtab) list"

definition lowest :: "fdtab \<Rightarrow> int option" where
  "lowest F = find (\<lambda>n. F n = None) (map int [0..<16])"

lemma lowest_least:
  assumes "least_free F n" shows "lowest F = Some n"
proof -
  have "n = map int [0..<16] ! nat n" "nat n < length (map int [0..<16])" using assms by (auto simp: least_free_def)
  moreover have "F (map int [0..<16] ! j) \<noteq> None" if "j < nat n" for j
    using that assms by (auto simp: least_free_def)
  ultimately show ?thesis
    unfolding lowest_def find_Some_iff using assms by (metis least_free_def)
qed

definition shell_os :: "shell_world os" where
  "shell_os = \<lparr>os_fork = (\<lambda>ch w. case ch w of Some (UExit c v) \<Rightarrow> Some (URet 1 (v\<lparr>sw_fds := sw_fds w\<rparr>)) | _ \<Rightarrow> None),
     os_wait = ureturn 1,
     os_pipe = (\<lambda>w. case lowest (sw_fds w) of None \<Rightarrow> Some (URet None w)
       | Some a \<Rightarrow> (case lowest ((sw_fds w)(a \<mapsto> PipeRead (sw_pipes w))) of None \<Rightarrow> Some (URet None w)
         | Some b \<Rightarrow> Some (URet (Some (a, b)) (w\<lparr>sw_fds := (sw_fds w)(a \<mapsto> PipeRead (sw_pipes w), b \<mapsto> PipeWrite (sw_pipes w)),
             sw_pipes := Suc (sw_pipes w)\<rparr>)))),
     os_read = (\<lambda>fd n. ureturn None), os_write = (\<lambda>fd s. ureturn (int (length s))),
     os_open = (\<lambda>f m w. case lowest (sw_fds w) of None \<Rightarrow> Some (URet (- 1) w)
       | Some n \<Rightarrow> Some (URet n (w\<lparr>sw_fds := (sw_fds w)(n \<mapsto> OpenFile f m)\<rparr>))),
     os_close = (\<lambda>n w. if sw_fds w n = None then Some (URet (- 1) w) else Some (URet 0 (w\<lparr>sw_fds := (sw_fds w)(n := None)\<rparr>))),
     os_dup = (\<lambda>n w. case sw_fds w n of None \<Rightarrow> Some (URet (- 1) w)
       | Some x \<Rightarrow> (case lowest (sw_fds w) of None \<Rightarrow> Some (URet (- 1) w)
         | Some m \<Rightarrow> Some (URet m (w\<lparr>sw_fds := (sw_fds w)(m \<mapsto> x)\<rparr>)))),
     os_exec = (\<lambda>p a w. Some (UExit 0 (w\<lparr>sw_prog := sw_prog w @ [(a, sw_fds w)]\<rparr>))),
     os_fstat = (\<lambda>fd. ureturn None), os_mknod = (\<lambda>p a b. ureturn (- 1)), os_unlink = (\<lambda>p. ureturn (- 1)),
     os_link = (\<lambda>p q. ureturn (- 1)), os_mkdir = (\<lambda>p. ureturn (- 1)), os_chdir = (\<lambda>p. ureturn (- 1)),
     os_kill = (\<lambda>n. ureturn (- 1)), os_sleep = (\<lambda>n. ureturn (- 1))\<rparr>"

lemma shell_os_kernel: "fd_kernel shell_os sw_fds sw_pipes sw_prog"
  unfolding fd_kernel_def
proof (intro conjI)
qed (auto simp: shell_os_def uexec dest!: lowest_least)

theorem runcmd_connects_witness:
  "let F = (\<lambda>n. if n \<in> {0, 1, 2} then Some (Inherited (nat n)) else None) in
   \<exists>e v. runcmd shell_os (PipeCmd (ExecCmd [''ls'']) (RedirCmd (ExecCmd [''wc'']) ''out'' 0x601 1))
       \<lparr>sw_fds = F, sw_pipes = 0, sw_prog = []\<rparr> = Some (UExit e v) \<and>
     sw_prog v = [([''ls''], F(1 \<mapsto> PipeWrite 0)), ([''wc''], F(0 \<mapsto> PipeRead 0, 1 \<mapsto> OpenFile ''out'' 0x601))]"
proof -
  let ?F = "\<lambda>n :: int. if n \<in> {0, 1, 2} then Some (Inherited (nat n)) else None"
  let ?c = "PipeCmd (ExecCmd [''ls'']) (RedirCmd (ExecCmd [''wc'']) ''out'' 0x601 1)"
  have wf: "wf_cmd shell_word ?c"
    by (simp add: shell_word_def plain_def whitespace_def symbols_def redir_ok_def)
  have "room ?F" unfolding room_def by (intro conjI exI [of _ 3] exI [of _ 4]) auto
  then show ?thesis
    using runcmd_connects [OF shell_os_kernel wf, of "\<lparr>sw_fds = ?F, sw_pipes = 0, sw_prog = []\<rparr>"] by (simp add: Let_def)
qed

end
