(* ===== verification/Spec2Isabelle.thy ===== *)
theory Spec2Isabelle
  imports Spinlock Cstring Kalloc Vm_Correct Log_Txn Syscall Proc_Correct Virtio User_Grep User_Syntax User_Run
begin

text \<open>
  A verification of the xv6 operating system (RISC-V) in this repository.

  \<^bold>\<open>The program.\<close> \<^verbatim>\<open>src/kernel\<close> is a Unix-like kernel: boot and traps (\<^verbatim>\<open>start.c\<close>, \<^verbatim>\<open>main.c\<close>,
  \<^verbatim>\<open>trap.c\<close>), physical pages (\<^verbatim>\<open>kalloc.c\<close>), page tables (\<^verbatim>\<open>vm.c\<close>), processes and the scheduler
  (\<^verbatim>\<open>proc.c\<close>), locks (\<^verbatim>\<open>spinlock.c\<close>, \<^verbatim>\<open>sleeplock.c\<close>), a file system in layers (\<^verbatim>\<open>virtio_disk.c\<close>,
  \<^verbatim>\<open>bio.c\<close>, \<^verbatim>\<open>log.c\<close>, \<^verbatim>\<open>fs.c\<close>, \<^verbatim>\<open>file.c\<close>, \<^verbatim>\<open>sysfile.c\<close>), pipes (\<^verbatim>\<open>pipe.c\<close>), the console
  (\<^verbatim>\<open>uart.c\<close>, \<^verbatim>\<open>console.c\<close>, \<^verbatim>\<open>printf.c\<close>) and the system calls. \<^verbatim>\<open>src/user\<close> holds the shell, the C
  library and the utilities, \<^verbatim>\<open>src/mkfs\<close> the tool that makes the disk image.

  \<^bold>\<open>How kernel code is modelled.\<close> A kernel function is a function of a state, with an outcome (theory Kernel_Monad): it
  returns, panics, puts its thread to sleep, or has no result (undefined in C, or out of the iterations allowed). The state
  is a record that each component extends with its own data: locks held, memory and free list, page table,
  processes, sleep locks, buffers and disk, log, inodes, pipes, console, open files, machine registers, disk driver.
  Operations are polymorphic in what later components add. A thread that sleeps continues with the
  definition whose name ends in \<open>_resume\<close>; other threads may change the state in between. Machine integers are words of their
  width. What the hardware does (registers of devices, the used ring of the disk) is a parameter of the state.

  \<^bold>\<open>Theories of the kernel.\<close>
  \<^item> Prelude, Kernel_Monad: words, byte stores (the locale \<open>byte_store\<close>), outcomes, total correctness \<open>wp\<close>.
  \<^item> Spinlock (\<^verbatim>\<open>spinlock.c\<close>): one CPU's operations, and all CPUs as a step relation; mutual exclusion.
  \<^item> Cstring (\<^verbatim>\<open>string.c\<close>): \<open>memmove\<close> with overlap, strings.
  \<^item> Riscv, Kalloc (\<^verbatim>\<open>riscv.h\<close>, \<^verbatim>\<open>kalloc.c\<close>): the free list as a list of pages; allocation and release.
  \<^item> Vm, Vm_Tables, Vm_Correct (\<^verbatim>\<open>vm.c\<close>): page tables as trees in physical memory; mapping, copying to and from users.
  \<^item> Proc_Table, Sleeplock, Proc, Proc_Correct (\<^verbatim>\<open>proc.c\<close>, \<^verbatim>\<open>sleeplock.c\<close>): sleep and wakeup, exit, wait, kill, the scheduler.
  \<^item> Block, Block_Cache, Bio (\<^verbatim>\<open>bio.c\<close>): the buffer cache implements an array of blocks.
  \<^item> Log, Log_Txn (\<^verbatim>\<open>log.c\<close>): commit, crash at any block write, recovery; transactions are atomic.
  \<^item> Fs, File, Sysfile, Pipe, Exec (\<^verbatim>\<open>fs.c\<close>, \<^verbatim>\<open>file.c\<close>, \<^verbatim>\<open>sysfile.c\<close>, \<^verbatim>\<open>pipe.c\<close>, \<^verbatim>\<open>exec.c\<close>): inodes, directories, descriptors,
    and pipes, which are shown to be queues.
  \<^item> Console (\<^verbatim>\<open>uart.c\<close>, \<^verbatim>\<open>console.c\<close>, \<^verbatim>\<open>printf.c\<close>): line editing, the transmit ring, printed numbers.
  \<^item> Machine, Syscall (\<^verbatim>\<open>start.c\<close>, \<^verbatim>\<open>plic.c\<close>, \<^verbatim>\<open>syscall.c\<close>, \<^verbatim>\<open>sysproc.c\<close>, \<^verbatim>\<open>trap.c\<close>, \<^verbatim>\<open>main.c\<close>).
  \<^item> Virtio (\<^verbatim>\<open>virtio_disk.c\<close>): descriptors, requests and their completion.

  \<^bold>\<open>How user programs are modelled.\<close> A user program is a function of the world outside its process; the system calls are
  a parameter, the record \<open>os\<close>, since the kernel and a program meet only in a trap. What a theorem relies on of the
  kernel is a hypothesis: \<open>reader\<close>, \<open>writer\<close> and \<open>fd_kernel\<close>, each shown to hold of a concrete kernel.
  \<^item> User_Lib (\<^verbatim>\<open>ulib.c\<close>, \<^verbatim>\<open>printf.c\<close>), User_Tools (\<^verbatim>\<open>cat.c\<close>, \<^verbatim>\<open>wc.c\<close>, \<^verbatim>\<open>ls.c\<close>, \<^verbatim>\<open>init.c\<close> and others).
  \<^item> User_Grep (\<^verbatim>\<open>grep.c\<close>): the matcher decides the language of a pattern; grep prints the lines that match.
  \<^item> User_Shell, User_Syntax, User_Run (\<^verbatim>\<open>sh.c\<close>): the parser ends with a well-formed command or an error, and reads every
    well-formed command back from its written form; running a command connects its programs as the command says.

  \<^bold>\<open>Bounds.\<close> Loops without a bound of their own take a number of iterations that is shown to be enough where a theorem says
  that the code returns: \<open>NUM + 1\<close> for a chain of disk descriptors and \<open>NUM\<close> for the used ring; four calls per character
  of the line for the parser of the shell. Loops that wait for the kernel in user programs are partial functions.

  \<^bold>\<open>Not modelled.\<close> The assembly files, whose contracts the model has; the address translation cache; the test programs of
  \<^verbatim>\<open>src/user\<close>; \<^verbatim>\<open>ramdisk.c\<close>, which is not linked; \<^verbatim>\<open>umalloc.c\<close> and \<^verbatim>\<open>mkfs.c\<close>. For \<^verbatim>\<open>fs.c\<close>, \<^verbatim>\<open>file.c\<close>, \<^verbatim>\<open>sysfile.c\<close>,
  \<^verbatim>\<open>exec.c\<close>, \<^verbatim>\<open>syscall.c\<close>, \<^verbatim>\<open>sysproc.c\<close>, \<^verbatim>\<open>trap.c\<close>, \<^verbatim>\<open>plic.c\<close>, \<^verbatim>\<open>start.c\<close> and \<^verbatim>\<open>main.c\<close> there are definitions only:
  every function is modelled, and no correctness theorem is proved of them.
\<close>

end
